(* ===== verification/RT_Prelude.thy ===== *)
theory RT_Prelude
  imports Main "HOL-Library.Word" "HOL-Library.List_Lexorder"
begin

text \<open>
  Shared vocabulary of the development: the machine types of the Rust sources, the crate's
  error type (\<open>src/src/error.rs\<close>) and the result monad its \<open>?\<close> operator works in, and the
  parts of the Rust standard library that several components use: big-endian integer
  encodings (\<open>to_be_bytes\<close>, \<open>from_be_bytes\<close>), \<open>as_chunks\<close>, \<open>Iterator::position\<close>, decimal
  printing and parsing of integers, and UTF-8 validation.
\<close>

unbundle bit_operations_syntax

named_theorems res_simps \<open>equations of the result monad\<close>
named_theorems be_simps \<open>big-endian encodings and their inverses\<close>

section \<open>Machine types\<close>

type_synonym u8 = "8 word"
type_synonym u16 = "16 word"
type_synonym u32 = "32 word"
type_synonym u64 = "64 word"
type_synonym bytes = "u8 list"

text \<open>
  Sizes and offsets (\<open>usize\<close>, \<open>u64\<close>) that the code computes with are \<open>nat\<close>; where a
  computation can leave the range of its Rust type the definition compares with one of these
  bounds. The crate is built with \<open>overflow-checks = true\<close>, so leaving the range unwinds.
\<close>

abbreviation u32_max :: nat where "u32_max \<equiv> 4294967295"
abbreviation u64_max :: nat where "u64_max \<equiv> 18446744073709551615"
abbreviation i64_min :: int where "i64_min \<equiv> - 9223372036854775808"
abbreviation i64_max :: int where "i64_max \<equiv> 9223372036854775807"

definition ascii :: "string \<Rightarrow> bytes" where
  "ascii s = map of_char s"

lemma of_char_u8_eq_iff: "(of_char c :: u8) = of_char d \<longleftrightarrow> c = d"
proof
  assume "(of_char c :: u8) = of_char d"
  then have "unat (of_nat (of_char c) :: u8) = unat (of_nat (of_char d) :: u8)"
    by (simp add: of_nat_of_char)
  then have "(of_char c :: nat) mod 256 = of_char d mod 256" by (simp add: unat_of_nat)
  then show "c = d" by simp
qed simp

lemma ascii_eq_iff [simp]: "ascii s = ascii t \<longleftrightarrow> s = t"
  by (auto simp: ascii_def of_char_u8_eq_iff inj_def dest!: map_injective)

lemma length_ascii [simp]: "length (ascii s) = length s"
  by (simp add: ascii_def)

section \<open>Errors and results\<close>

text \<open>
  \<open>Error\<close> of \<open>error.rs\<close>. Messages keep the fixed text of the source's format string up to its
  first interpolated value. \<open>Panic\<close> is not a variant of the Rust type: it stands for a panic
  of the thread (a checked overflow, a failed \<open>assert!\<close>).
\<close>

datatype error =
    Bencode string
  | Tracker string
  | Handshake string
  | VerifyFailed nat
  | Io string
  | Network string
  | Protocol string
  | Crypto string
  | Panic string

type_synonym 'a res = "error + 'a"

definition rbind :: "'a res \<Rightarrow> ('a \<Rightarrow> 'b res) \<Rightarrow> 'b res" where
  "rbind m f = (case m of Inl e \<Rightarrow> Inl e | Inr x \<Rightarrow> f x)"

definition ok_or :: "'a option \<Rightarrow> error \<Rightarrow> 'a res" where
  "ok_or m e = (case m of None \<Rightarrow> Inl e | Some x \<Rightarrow> Inr x)"

definition map_err :: "'a res \<Rightarrow> (error \<Rightarrow> error) \<Rightarrow> 'a res" where
  "map_err m f = (case m of Inl e \<Rightarrow> Inl (f e) | Inr x \<Rightarrow> Inr x)"

definition ensure :: "bool \<Rightarrow> error \<Rightarrow> unit res" where
  "ensure b e = (if b then Inr () else Inl e)"

definition res_ok :: "'a res \<Rightarrow> 'a option" where
  "res_ok m = (case m of Inl _ \<Rightarrow> None | Inr x \<Rightarrow> Some x)"

primrec rmapM :: "('a \<Rightarrow> 'b res) \<Rightarrow> 'a list \<Rightarrow> 'b list res" where
  "rmapM f [] = Inr []"
| "rmapM f (x # xs) = rbind (f x) (\<lambda>y. rbind (rmapM f xs) (\<lambda>ys. Inr (y # ys)))"

lemma rbind_Inl [simp, res_simps]: "rbind (Inl e) f = Inl e"
  by (simp add: rbind_def)

lemma rbind_Inr [simp, res_simps]: "rbind (Inr x) f = f x"
  by (simp add: rbind_def)

lemma rbind_eq_Inr [simp, res_simps]:
  "rbind m f = Inr y \<longleftrightarrow> (\<exists>x. m = Inr x \<and> f x = Inr y)"
  by (cases m) auto

lemma Inr_eq_rbind [simp, res_simps]:
  "Inr y = rbind m f \<longleftrightarrow> (\<exists>x. m = Inr x \<and> f x = Inr y)"
  by (cases m) auto

lemma rbind_eq_Inl:
  "rbind m f = Inl e \<longleftrightarrow> m = Inl e \<or> (\<exists>x. m = Inr x \<and> f x = Inl e)"
  by (cases m) auto

lemma rbind_assoc: "rbind (rbind m f) g = rbind m (\<lambda>x. rbind (f x) g)"
  by (cases m) auto

lemma rbind_cong [fundef_cong]:
  "m = m' \<Longrightarrow> (\<And>x. m' = Inr x \<Longrightarrow> f x = f' x) \<Longrightarrow> rbind m f = rbind m' f'"
  by (cases m') auto

lemma ok_or_None [simp, res_simps]: "ok_or None e = Inl e"
  by (simp add: ok_or_def)

lemma ok_or_Some [simp, res_simps]: "ok_or (Some x) e = Inr x"
  by (simp add: ok_or_def)

lemma ok_or_eq_Inr [simp, res_simps]: "ok_or m e = Inr x \<longleftrightarrow> m = Some x"
  by (cases m) auto

lemma map_err_Inr [simp, res_simps]: "map_err (Inr x) f = Inr x"
  by (simp add: map_err_def)

lemma map_err_Inl [simp, res_simps]: "map_err (Inl e) f = Inl (f e)"
  by (simp add: map_err_def)

lemma map_err_eq_Inr [simp, res_simps]: "map_err m f = Inr x \<longleftrightarrow> m = Inr x"
  by (cases m) auto

lemma ensure_True [simp, res_simps]: "ensure True e = Inr ()"
  by (simp add: ensure_def)

lemma ensure_False [simp, res_simps]: "ensure False e = Inl e"
  by (simp add: ensure_def)

lemma ensure_eq_Inr [simp, res_simps]: "ensure b e = Inr u \<longleftrightarrow> b"
  by (simp add: ensure_def)

lemma res_ok_simps [simp, res_simps]: "res_ok (Inr x) = Some x" "res_ok (Inl e) = None"
  by (simp_all add: res_ok_def)

lemma res_ok_eq_Some [simp]: "res_ok m = Some x \<longleftrightarrow> m = Inr x"
  by (cases m) auto

lemma rmapM_Inr_iff: "rmapM f xs = Inr ys \<longleftrightarrow> list_all2 (\<lambda>x y. f x = Inr y) xs ys"
  by (induction xs arbitrary: ys) (auto simp: list_all2_Cons1)

section \<open>Steps with effects\<close>

text \<open>
  A step on an environment (a byte stream, the files on a disk) returns a result and the environment it
  leaves, also when it fails, so that the effects before an error are visible.
\<close>

type_synonym ('s, 'e, 'a) estep = "'s \<Rightarrow> ('e + 'a) \<times> 's"
type_synonym ('s, 'a) step = "('s, error, 'a) estep"

named_theorems io_simps \<open>successful runs of steps\<close>

definition io_return :: "'a \<Rightarrow> ('s, 'e, 'a) estep" where
  "io_return x s = (Inr x, s)"

definition io_fail :: "'e \<Rightarrow> ('s, 'e, 'a) estep" where
  "io_fail e s = (Inl e, s)"

definition io_bind :: "('s, 'e, 'a) estep \<Rightarrow> ('a \<Rightarrow> ('s, 'e, 'b) estep) \<Rightarrow> ('s, 'e, 'b) estep" where
  "io_bind m f s = (case m s of (Inl e, s') \<Rightarrow> (Inl e, s') | (Inr x, s') \<Rightarrow> f x s')"

definition io_lift :: "'e + 'a \<Rightarrow> ('s, 'e, 'a) estep" where
  "io_lift r s = (r, s)"

lemma io_bind_Inr [io_simps]:
  "io_bind m f s = (Inr y, s'') \<longleftrightarrow> (\<exists>x s'. m s = (Inr x, s') \<and> f x s' = (Inr y, s''))"
  by (auto simp: io_bind_def split: prod.splits sum.splits)

lemma io_bind_eq:
  "io_bind m f s = (r, s'') \<longleftrightarrow>
     (\<exists>e. m s = (Inl e, s'') \<and> r = Inl e) \<or> (\<exists>x s'. m s = (Inr x, s') \<and> f x s' = (r, s''))"
  by (auto simp: io_bind_def split: prod.splits sum.splits)

lemma io_bind_step: "m s = (Inr x, s') \<Longrightarrow> io_bind m f s = f x s'"
  by (simp add: io_bind_def)

lemma io_bind_fail: "m s = (Inl e, s') \<Longrightarrow> io_bind m f s = (Inl e, s')"
  by (simp add: io_bind_def)

lemma io_return_eq [io_simps]: "io_return x s = (r, s') \<longleftrightarrow> r = Inr x \<and> s' = s"
  by (auto simp: io_return_def)

lemma io_fail_eq [io_simps]: "io_fail e s = (r, s') \<longleftrightarrow> r = Inl e \<and> s' = s"
  by (auto simp: io_fail_def)

lemma io_lift_eq [io_simps]: "io_lift m s = (r, s') \<longleftrightarrow> m = r \<and> s' = s"
  by (auto simp: io_lift_def)

section \<open>Big-endian integers\<close>

definition be16 :: "u16 \<Rightarrow> bytes" where
  "be16 w = [ucast (drop_bit 8 w), ucast w]"

definition be32 :: "u32 \<Rightarrow> bytes" where
  "be32 w = [ucast (drop_bit 24 w), ucast (drop_bit 16 w), ucast (drop_bit 8 w), ucast w]"

definition be64 :: "u64 \<Rightarrow> bytes" where
  "be64 w = be32 (ucast (drop_bit 32 w)) @ be32 (ucast w)"

definition of_be16 :: "u8 \<Rightarrow> u8 \<Rightarrow> u16" where
  "of_be16 a b = push_bit 8 (ucast a) OR ucast b"

definition of_be32 :: "u8 \<Rightarrow> u8 \<Rightarrow> u8 \<Rightarrow> u8 \<Rightarrow> u32" where
  "of_be32 a b c d =
     push_bit 24 (ucast a) OR push_bit 16 (ucast b) OR push_bit 8 (ucast c) OR ucast d"

text \<open>A \<open>u64\<close> is read as its two \<open>u32\<close> halves.\<close>

definition of_be64 :: "u32 \<Rightarrow> u32 \<Rightarrow> u64" where
  "of_be64 hi lo = push_bit 32 (ucast hi) OR ucast lo"

text \<open>Reading a big-endian \<open>u32\<close> at an index of a buffer that is long enough.\<close>

definition be32_at :: "bytes \<Rightarrow> nat \<Rightarrow> u32" where
  "be32_at p i = of_be32 (p ! i) (p ! (i + 1)) (p ! (i + 2)) (p ! (i + 3))"

definition be16_at :: "bytes \<Rightarrow> nat \<Rightarrow> u16" where
  "be16_at p i = of_be16 (p ! i) (p ! (i + 1))"

lemma length_be [simp, be_simps]:
  "length (be16 v) = 2" "length (be32 w) = 4" "length (be64 x) = 8"
  by (simp_all add: be16_def be32_def be64_def)

lemma of_be16_be16 [simp, be_simps]: "of_be16 (ucast (drop_bit 8 w)) (ucast w) = w"
  by (rule bit_word_eqI) (auto simp: of_be16_def bit_simps)

lemma of_be64_be64 [simp, be_simps]: "of_be64 (ucast (drop_bit 32 w)) (ucast w) = w"
  by (rule bit_word_eqI) (auto simp: of_be64_def bit_simps)

lemma of_be32_be32 [simp, be_simps]:
  "of_be32 (ucast (drop_bit 24 w)) (ucast (drop_bit 16 w)) (ucast (drop_bit 8 w)) (ucast w) = w"
proof (rule bit_word_eqI)
  fix n :: nat
  assume "n < LENGTH(32)"
  then consider "n < 8" | "8 \<le> n \<and> n < 16" | "16 \<le> n \<and> n < 24" | "24 \<le> n \<and> n < 32"
    by fastforce
  then show "bit (of_be32 (ucast (drop_bit 24 w)) (ucast (drop_bit 16 w)) (ucast (drop_bit 8 w))
      (ucast w)) n = bit w n"
    by cases (auto simp: of_be32_def bit_simps)
qed

lemma bit_u8_beyond [simp]: "8 \<le> n \<Longrightarrow> \<not> bit (a :: u8) n"
  using bit_imp_le_length [of a n] by auto

lemma be16_of_be16 [simp, be_simps]: "be16 (of_be16 a b) = [a, b]"
  by (auto simp: be16_def of_be16_def bit_simps intro!: bit_word_eqI)

lemma be32_of_be32 [simp, be_simps]: "be32 (of_be32 a b c d) = [a, b, c, d]"
  by (auto simp: be32_def of_be32_def bit_simps intro!: bit_word_eqI)

lemma be32_at_be32 [simp, be_simps]: "be32_at (be32 w @ xs) 0 = w"
  by (simp add: be32_at_def be32_def)

lemma be16_at_be16 [simp, be_simps]: "be16_at (be16 w @ xs) 0 = w"
  by (simp add: be16_at_def be16_def)

lemma be32_at_append [be_simps]:
  "length xs = n \<Longrightarrow> be32_at (xs @ ys) (n + i) = be32_at ys i"
  by (simp add: be32_at_def nth_append)

lemma be16_at_append [be_simps]:
  "length xs = n \<Longrightarrow> be16_at (xs @ ys) (n + i) = be16_at ys i"
  by (simp add: be16_at_def nth_append)

lemma be32_be32_at:
  assumes "length p \<ge> 4"
  shows "be32 (be32_at p 0) = take 4 p"
proof -
  obtain a b c d q where "p = a # b # c # d # q"
    using assms by (auto simp: numeral_eq_Suc Suc_le_length_iff)
  then show ?thesis by (simp add: be32_at_def)
qed

section \<open>Lists and slices\<close>

text \<open>\<open>iter().position(p)\<close>: the index of the first element that satisfies \<open>p\<close>.\<close>

primrec position :: "('a \<Rightarrow> bool) \<Rightarrow> 'a list \<Rightarrow> nat option" where
  "position p [] = None"
| "position p (x # xs) = (if p x then Some 0 else map_option Suc (position p xs))"

lemma position_None [simp]: "position p xs = None \<longleftrightarrow> (\<forall>x \<in> set xs. \<not> p x)"
  by (induction xs) auto

lemma position_SomeD:
  "position p xs = Some i \<Longrightarrow> i < length xs \<and> p (xs ! i) \<and> (\<forall>j < i. \<not> p (xs ! j))"
proof (induction xs arbitrary: i)
  case (Cons x xs)
  show ?case
  proof (cases "p x")
    case False
    then obtain k where k: "position p xs = Some k" "i = Suc k"
      using Cons.prems by auto
    then show ?thesis using Cons.IH [of k] False by (auto simp: less_Suc_eq_0_disj)
  qed (use Cons.prems in auto)
qed simp

lemma position_append:
  "\<forall>x \<in> set xs. \<not> p x \<Longrightarrow> p y \<Longrightarrow> position p (xs @ y # ys) = Some (length xs)"
  by (induction xs) auto

lemma position_split:
  "position p xs = Some i \<Longrightarrow>
     \<exists>y ys. xs = take i xs @ y # ys \<and> p y \<and> (\<forall>x \<in> set (take i xs). \<not> p x)"
  by (induction xs arbitrary: i) (auto split: if_splits)

text \<open>\<open>as_chunks::<n>().0\<close>: the full chunks of length \<open>n\<close>, the remainder dropped.\<close>

function chunks :: "nat \<Rightarrow> 'a list \<Rightarrow> 'a list list" where
  "chunks n xs = (if n = 0 \<or> length xs < n then [] else take n xs # chunks n (drop n xs))"
  by pat_completeness auto
termination
  by (relation "measure (\<lambda>(n, xs). length xs)") auto

declare chunks.simps [simp del]

lemma chunks_short [simp]: "length xs < n \<Longrightarrow> chunks n xs = []"
  by (simp add: chunks.simps)

lemma chunks_append:
  "length x = n \<Longrightarrow> 0 < n \<Longrightarrow> chunks n (x @ xs) = x # chunks n xs"
  by (simp add: chunks.simps [of n "x @ xs"])

lemma chunks_concat:
  "0 < n \<Longrightarrow> \<forall>x \<in> set xss. length x = n \<Longrightarrow> chunks n (concat xss) = xss"
  by (induction xss) (simp_all add: chunks_append)

lemma chunks_length: "x \<in> set (chunks n xs) \<Longrightarrow> length x = n"
proof (induction n xs rule: chunks.induct)
  case (1 n xs)
  then show ?case by (cases "n = 0 \<or> length xs < n") (auto simp: chunks.simps [of n xs])
qed

lemma length_chunks: "0 < n \<Longrightarrow> length (chunks n xs) = length xs div n"
proof (induction n xs rule: chunks.induct)
  case (1 n xs)
  then show ?case
    by (cases "length xs < n") (auto simp: chunks.simps [of n xs] le_div_geq)
qed

lemma concat_chunks:
  "0 < n \<Longrightarrow> n dvd length xs \<Longrightarrow> concat (chunks n xs) = xs"
proof (induction n xs rule: chunks.induct)
  case (1 n xs)
  show ?case
  proof (cases "length xs < n")
    case True
    with "1.prems" have "xs = []"
      by (metis dvd_imp_le length_greater_0_conv not_le)
    with True show ?thesis by simp
  next
    case False
    then have "n dvd length (drop n xs)" using "1.prems" by (simp add: dvd_minus_self)
    with False "1.IH" "1.prems" show ?thesis by (simp add: chunks.simps [of n xs])
  qed
qed

section \<open>Decimal integers\<close>

text \<open>\<open>to_string()\<close> of an unsigned and of a signed integer.\<close>

fun show_nat :: "nat \<Rightarrow> bytes" where
  "show_nat n =
     (if n < 10 then [48 + of_nat n] else show_nat (n div 10) @ [48 + of_nat (n mod 10)])"

declare show_nat.simps [simp del]

definition show_int :: "int \<Rightarrow> bytes" where
  "show_int i = (if i < 0 then 45 # show_nat (nat (- i)) else show_nat (nat i))"

definition is_digit :: "u8 \<Rightarrow> bool" where
  "is_digit b \<longleftrightarrow> 48 \<le> b \<and> b \<le> 57"

definition digits_value :: "bytes \<Rightarrow> nat" where
  "digits_value ds = foldl (\<lambda>acc b. 10 * acc + (unat b - 48)) 0 ds"

text \<open>
  \<open>str::parse\<close> for \<open>usize\<close> and \<open>i64\<close>: an optional \<open>+\<close> (for \<open>i64\<close> also \<open>-\<close>), at least one
  digit, nothing else, and the value within the range of the type.
\<close>

definition parse_digits :: "bytes \<Rightarrow> nat option" where
  "parse_digits ds = (if ds \<noteq> [] \<and> list_all is_digit ds then Some (digits_value ds) else None)"

definition parse_usize :: "bytes \<Rightarrow> nat option" where
  "parse_usize s =
     (case parse_digits (case s of b # ds \<Rightarrow> if b = 43 then ds else s | [] \<Rightarrow> s) of
        None \<Rightarrow> None
      | Some n \<Rightarrow> if n \<le> u64_max then Some n else None)"

definition parse_i64 :: "bytes \<Rightarrow> int option" where
  "parse_i64 s =
     (case s of
        [] \<Rightarrow> None
      | b # ds \<Rightarrow>
          (case (if b = 45 then map_option (\<lambda>n. - int n) (parse_digits ds)
                 else if b = 43 then map_option int (parse_digits ds)
                 else map_option int (parse_digits s)) of
             None \<Rightarrow> None
           | Some i \<Rightarrow> if i64_min \<le> i \<and> i \<le> i64_max then Some i else None))"

lemma digit_byte:
  assumes "d < 10"
  shows "unat (48 + of_nat d :: u8) = 48 + d" and "is_digit (48 + of_nat d)"
proof -
  show *: "unat (48 + of_nat d :: u8) = 48 + d"
    using assms by (simp add: unat_word_ariths unat_of_nat)
  show "is_digit (48 + of_nat d)"
    using assms * by (simp add: is_digit_def word_le_nat_alt)
qed

lemma is_digit_not [simp]:
  "is_digit b \<Longrightarrow> b \<noteq> 43" "is_digit b \<Longrightarrow> b \<noteq> 45" "is_digit b \<Longrightarrow> b \<noteq> 58"
  "is_digit b \<Longrightarrow> b \<noteq> 101" "is_digit b \<Longrightarrow> b \<noteq> 105" "is_digit b \<Longrightarrow> b \<noteq> 108"
  "is_digit b \<Longrightarrow> b \<noteq> 100"
  by (auto simp: is_digit_def)

lemma show_nat_nonempty [simp]: "show_nat n \<noteq> []"
  by (subst show_nat.simps) simp

lemma show_nat_digits: "list_all is_digit (show_nat n)"
proof (induction n rule: show_nat.induct)
  case (1 n)
  then show ?case
    by (cases "n < 10") (simp_all add: show_nat.simps [of n] digit_byte)
qed

lemma show_nat_no_delim [simp]: "58 \<notin> set (show_nat n)" "101 \<notin> set (show_nat n)"
  using show_nat_digits [of n] by (auto simp: list_all_iff is_digit_def)

lemma digits_value_snoc: "digits_value (ds @ [b]) = 10 * digits_value ds + (unat b - 48)"
  by (simp add: digits_value_def)

lemma digits_value_show_nat [simp]: "digits_value (show_nat n) = n"
proof (induction n rule: show_nat.induct)
  case (1 n)
  show ?case
  proof (cases "n < 10")
    case True
    then show ?thesis by (simp add: show_nat.simps [of n] digits_value_def digit_byte)
  next
    case False
    then show ?thesis
      using "1.IH" by (simp add: show_nat.simps [of n] digits_value_snoc digit_byte)
  qed
qed

lemma hd_show_nat: "0 < n \<Longrightarrow> hd (show_nat n) \<noteq> 48"
proof (induction n rule: show_nat.induct)
  case (1 n)
  show ?case
  proof (cases "n < 10")
    case True
    then have "unat (48 + of_nat n :: u8) \<noteq> unat (48 :: u8)"
      using "1.prems" by (simp add: digit_byte)
    then show ?thesis using True by (auto simp: show_nat.simps [of n])
  next
    case False
    then show ?thesis using "1.IH" by (simp add: show_nat.simps [of n])
  qed
qed

lemma show_nat_0 [simp]: "show_nat 0 = [48]"
  by (simp add: show_nat.simps)

lemma parse_digits_show_nat [simp]: "parse_digits (show_nat n) = Some n"
  by (simp add: parse_digits_def show_nat_digits)

lemma show_nat_Cons: "\<exists>b ds. show_nat n = b # ds \<and> is_digit b"
  using show_nat_digits [of n] show_nat_nonempty [of n] by (cases "show_nat n") auto

lemma parse_usize_show_nat: "n \<le> u64_max \<Longrightarrow> parse_usize (show_nat n) = Some n"
proof -
  assume n: "n \<le> u64_max"
  obtain b ds where *: "show_nat n = b # ds" "is_digit b" using show_nat_Cons by blast
  then have "(case show_nat n of b # ds \<Rightarrow> if b = 43 then ds else show_nat n | [] \<Rightarrow> show_nat n)
      = show_nat n" by simp
  then show ?thesis using n by (simp add: parse_usize_def)
qed

lemma parse_usize_bound: "parse_usize s = Some n \<Longrightarrow> n \<le> u64_max"
  by (auto simp: parse_usize_def split: option.splits if_splits)

lemma parse_i64_bounds: "parse_i64 s = Some i \<Longrightarrow> i64_min \<le> i \<and> i \<le> i64_max"
  by (auto simp: parse_i64_def split: list.splits option.splits if_splits)

lemma parse_i64_show_int:
  assumes "i64_min \<le> i" "i \<le> i64_max"
  shows "parse_i64 (show_int i) = Some i"
proof (cases "i < 0")
  case True
  then show ?thesis using assms by (simp add: parse_i64_def show_int_def)
next
  case False
  obtain b ds where *: "show_nat (nat i) = b # ds" "is_digit b" using show_nat_Cons by blast
  have "parse_digits (b # ds) = Some (nat i)" using parse_digits_show_nat [of "nat i"] * by simp
  then show ?thesis using False assms * by (simp add: parse_i64_def show_int_def)
qed

section \<open>Byte strings as numbers\<close>

lemma octet_less: "unat (a :: u8) < 256"
proof -
  have "unat a < 2 ^ LENGTH(8)" by (rule unsigned_less)
  then show ?thesis by simp
qed

definition be_nat :: "bytes \<Rightarrow> nat" where
  "be_nat bs = foldl (\<lambda>n b. n * 256 + unat b) 0 bs"

lemma be_nat_Cons: "be_nat (b # bs) = unat b * 256 ^ length bs + be_nat bs"
proof -
  have "foldl (\<lambda>n b. n * 256 + unat b) x bs = x * 256 ^ length bs + foldl (\<lambda>n b. n * 256 + unat b) 0 bs" for x and bs :: bytes
  proof (induction bs arbitrary: x)
    case (Cons c bs)
    show ?case using Cons [of "x * 256 + unat c"] Cons [of "unat c"] by (simp add: algebra_simps)
  qed simp
  from this [of "unat b" bs] show ?thesis by (simp add: be_nat_def)
qed

lemma be_nat_less: "be_nat bs < 256 ^ length bs"
proof (induction bs)
  case (Cons b bs)
  have "unat b + 1 \<le> 256" using octet_less [of b] by simp
  then have "(unat b + 1) * 256 ^ length bs \<le> 256 * 256 ^ length bs" by (rule mult_le_mono1)
  then have "unat b * 256 ^ length bs + 256 ^ length bs \<le> 256 ^ length (b # bs)" by (simp add: algebra_simps)
  then show ?case using Cons unfolding be_nat_Cons by linarith
qed (simp add: be_nat_def)

section \<open>Time\<close>

lemma be_nat_inj: "length xs = length ys \<Longrightarrow> be_nat xs = be_nat ys \<Longrightarrow> xs = ys"
proof (induction xs ys rule: list_induct2)
  case (Cons x xs y ys)
  let ?m = "256 ^ length ys :: nat"
  have eq: "unat x * ?m + be_nat xs = unat y * ?m + be_nat ys"
    using Cons.prems Cons.hyps by (simp add: be_nat_Cons)
  have lt: "be_nat xs < ?m" "be_nat ys < ?m" using be_nat_less [of xs] be_nat_less [of ys] Cons.hyps by auto
  have "unat x = (unat x * ?m + be_nat xs) div ?m" "unat y = (unat y * ?m + be_nat ys) div ?m"
    using lt by auto
  then have "unat x = unat y" using eq by metis
  then show ?case using eq Cons.IH by (simp add: word_unat_eq_iff)
qed simp

lemma be_nat_snoc: "be_nat (xs @ [b]) = be_nat xs * 256 + unat b"
  by (simp add: be_nat_def)

text \<open>Instants are milliseconds; \<open>Instant::duration_since\<close> is zero when the other instant is later.\<close>

definition duration_since :: "int \<Rightarrow> int \<Rightarrow> int" where
  "duration_since now t = max 0 (now - t)"

section \<open>UTF-8\<close>

text \<open>\<open>std::str::from_utf8(b).is_ok()\<close>: well-formed UTF-8 in the sense of the Unicode standard.\<close>

definition utf8_cont :: "u8 \<Rightarrow> bool" where
  "utf8_cont b \<longleftrightarrow> 128 \<le> b \<and> b \<le> 191"

fun utf8_valid :: "bytes \<Rightarrow> bool" where
  "utf8_valid [] = True"
| "utf8_valid (a # xs) =
     (if a < 128 then utf8_valid xs
      else if 194 \<le> a \<and> a \<le> 223 then
        (case xs of b # ys \<Rightarrow> utf8_cont b \<and> utf8_valid ys | _ \<Rightarrow> False)
      else if 224 \<le> a \<and> a \<le> 239 then
        (case xs of
           b # c # ys \<Rightarrow>
             utf8_cont b \<and> utf8_cont c \<and> (a = 224 \<longrightarrow> 160 \<le> b) \<and> (a = 237 \<longrightarrow> b \<le> 159) \<and>
             utf8_valid ys
         | _ \<Rightarrow> False)
      else if 240 \<le> a \<and> a \<le> 244 then
        (case xs of
           b # c # d # ys \<Rightarrow>
             utf8_cont b \<and> utf8_cont c \<and> utf8_cont d \<and>
             (a = 240 \<longrightarrow> 144 \<le> b) \<and> (a = 244 \<longrightarrow> b \<le> 143) \<and> utf8_valid ys
         | _ \<Rightarrow> False)
      else False)"

lemma utf8_ascii: "list_all (\<lambda>b. b < 128) xs \<Longrightarrow> utf8_valid xs"
  by (induction xs) auto

lemma is_digit_ascii: "is_digit b \<Longrightarrow> b < 128"
  unfolding is_digit_def by (auto intro: le_less_trans)

lemma utf8_digits: "list_all is_digit xs \<Longrightarrow> utf8_valid xs"
  by (rule utf8_ascii) (auto simp: list_all_iff is_digit_ascii)

lemma utf8_show_nat [simp]: "utf8_valid (show_nat n)"
  by (rule utf8_digits) (rule show_nat_digits)

lemma utf8_show_int [simp]: "utf8_valid (show_int i)"
  by (simp add: show_int_def)

section \<open>Rounding up\<close>

text \<open>\<open>usize::div_ceil\<close>, for a divisor that is not 0.\<close>

definition div_ceil :: "nat \<Rightarrow> nat \<Rightarrow> nat" where
  "div_ceil a b = (if a mod b = 0 then a div b else a div b + 1)"

lemma div_ceil_le_iff: "0 < b \<Longrightarrow> div_ceil a b \<le> k \<longleftrightarrow> a \<le> k * b"
proof -
  assume b: "0 < b"
  have ab: "a = a div b * b + a mod b" by simp
  show ?thesis
  proof (cases "a mod b = 0")
    case True
    then show ?thesis using b by (auto simp: div_ceil_def less_eq_div_iff_mult_less_eq)
  next
    case False
    have "a div b + 1 \<le> k \<longleftrightarrow> a < k * b" using b by (simp add: Suc_le_eq less_mult_imp_div_less div_less_iff_less_mult)
    moreover have "a \<noteq> k * b" using False by auto
    ultimately show ?thesis using False by (auto simp: div_ceil_def)
  qed
qed

lemma less_div_ceil_iff: "0 < b \<Longrightarrow> k < div_ceil a b \<longleftrightarrow> k * b < a"
  using div_ceil_le_iff [of b a k] by linarith

lemma div_less_div_ceil: "i < a \<Longrightarrow> i div b < div_ceil a b" if "0 < b"
proof -
  assume "i < a"
  then have "i div b * b < a" using div_times_less_eq_dividend le_less_trans by blast
  then show "i div b < div_ceil a b" using that by (simp add: less_div_ceil_iff)
qed

section \<open>Checked sums\<close>

text \<open>\<open>iter().sum()\<close> over \<open>u64\<close> values, which panics on overflow.\<close>

fun sum_u64 :: "nat \<Rightarrow> nat list \<Rightarrow> nat res" where
  "sum_u64 acc [] = Inr acc"
| "sum_u64 acc (x # xs) =
     (if acc + x > u64_max then Inl (Panic ''attempt to add with overflow'')
      else sum_u64 (acc + x) xs)"

lemma sum_u64_bound: "sum_u64 acc xs = Inr n \<Longrightarrow> acc \<le> u64_max \<Longrightarrow> n = acc + sum_list xs \<and> n \<le> u64_max"
  by (induction acc xs rule: sum_u64.induct) (auto split: if_splits)

section \<open>Loops that update a vector by index\<close>

lemma length_foldl_update_if [simp]:
  "length (foldl (\<lambda>r b. if P b then r[b := f b] else r) xs [0..<n]) = length xs"
  by (induction n) auto

lemma nth_foldl_update_if:
  "j < length xs \<Longrightarrow>
     foldl (\<lambda>r b. if P b then r[b := f b] else r) xs [0..<n] ! j = (if j < n \<and> P j then f j else xs ! j)"
  by (induction n) (auto simp: nth_list_update less_Suc_eq)

lemma length_foldl_update [simp]: "length (foldl (\<lambda>r b. r[b := f b]) xs [0..<n]) = length xs"
  using length_foldl_update_if [where P = "\<lambda>_. True"] by simp

lemma nth_foldl_update:
  "j < length xs \<Longrightarrow> foldl (\<lambda>r b. r[b := f b]) xs [0..<n] ! j = (if j < n then f j else xs ! j)"
  using nth_foldl_update_if [of j xs "\<lambda>_. True" f n] by simp

lemma foldl_update_all: "length xs = n \<Longrightarrow> foldl (\<lambda>r b. r[b := f b]) xs [0..<n] = map f [0..<n]"
  by (rule nth_equalityI) (simp_all add: nth_foldl_update)

section \<open>Contracts shared by the codecs\<close>

text \<open>
  An encoder and a decoder that agree on the well-formed values, and a parser that reads one
  value off the front of its input. The wire formats below interpret both.
\<close>

locale codec =
  fixes enc :: "'a \<Rightarrow> bytes"
    and dec :: "bytes \<Rightarrow> 'a res"
    and ok :: "'a \<Rightarrow> bool"
  assumes roundtrip: "ok m \<Longrightarrow> dec (enc m) = Inr m"
begin

lemma enc_inj: "ok m \<Longrightarrow> ok m' \<Longrightarrow> enc m = enc m' \<Longrightarrow> m = m'"
  by (metis roundtrip sum.inject(2))

lemma dec_enc_map: "list_all ok ms \<Longrightarrow> rmapM dec (map enc ms) = Inr ms"
  by (induction ms) (auto simp: roundtrip)

end

locale prefix_parser =
  fixes p :: "bytes \<Rightarrow> ('a \<times> bytes) res"
  assumes consumes:
    "p i = Inr (v, r) \<Longrightarrow> \<exists>x. x \<noteq> [] \<and> i = x @ r \<and> (\<forall>r'. p (x @ r') = Inr (v, r'))"
begin

lemma shorter: "p i = Inr (v, r) \<Longrightarrow> length r < length i"
  by (auto dest!: consumes)

lemma slice:
  assumes "p i = Inr (v, r)"
  shows "i = take (length i - length r) i @ r" and "p (take (length i - length r) i) = Inr (v, [])"
proof -
  obtain x where x: "i = x @ r" "\<forall>r'. p (x @ r') = Inr (v, r')" using consumes [OF assms] by blast
  then have "take (length i - length r) i = x" by simp
  then show "i = take (length i - length r) i @ r" "p (take (length i - length r) i) = Inr (v, [])"
    using x spec [OF x(2), of "[]"] by simp_all
qed

lemma extend: "p i = Inr (v, r) \<Longrightarrow> p (i @ z) = Inr (v, r @ z)"
  using consumes [of i v r] by auto

end

end
