(* ===== verification/RT_Maps.thy ===== *)
theory RT_Maps
  imports RT_Prelude
begin

text \<open>
  The ordered map of the Rust standard library, \<open>BTreeMap\<close>, which the bencode dictionaries, the
  KRPC messages and the \<mu>TP reorder buffer use. A map is the list of its entries in iteration
  order, that is with strictly increasing keys. The interface the clients rely on is the locale
  \<open>ordered_map\<close>; the list operations below interpret it.
\<close>

type_synonym ('k, 'v) btree = "('k \<times> 'v) list"

definition btree_get :: "('k, 'v) btree \<Rightarrow> 'k \<Rightarrow> 'v option" where
  "btree_get m k = map_of m k"

fun btree_insert :: "'k::linorder \<Rightarrow> 'v \<Rightarrow> ('k, 'v) btree \<Rightarrow> ('k, 'v) btree" where
  "btree_insert k v [] = [(k, v)]"
| "btree_insert k v ((k', v') # m) =
     (if k < k' then (k, v) # (k', v') # m
      else if k = k' then (k, v) # m
      else (k', v') # btree_insert k v m)"

definition btree_remove :: "'k \<Rightarrow> ('k, 'v) btree \<Rightarrow> ('k, 'v) btree" where
  "btree_remove k m = filter (\<lambda>(k', _). k' \<noteq> k) m"

definition btree_ok :: "('k::linorder, 'v) btree \<Rightarrow> bool" where
  "btree_ok m \<longleftrightarrow> sorted_wrt (<) (map fst m)"

lemma sorted_wrt_set_unique:
  assumes "\<And>x y. R x y \<Longrightarrow> \<not> R y x" "sorted_wrt R xs" "sorted_wrt R ys" "set xs = set ys"
  shows "xs = ys"
  using assms(2-4)
proof (induction xs arbitrary: ys)
  case (Cons x xs)
  then obtain y zs where ys: "ys = y # zs" by (cases ys) auto
  have xy: "x = y"
    using Cons.prems assms(1) ys by (metis list.set_intros(1) set_ConsD sorted_wrt.simps(2))
  have irrefl: "\<not> R x x" using assms(1) by blast
  then have "x \<notin> set xs" "x \<notin> set zs"
    using Cons.prems ys xy by auto
  then have "set xs = set zs" using Cons.prems(3) ys xy by auto
  then show ?case using Cons.IH [of zs] Cons.prems ys xy by simp
qed simp

section \<open>The interface\<close>

locale ordered_map =
  fixes empty :: "'m"
    and ins :: "'k::linorder \<Rightarrow> 'v \<Rightarrow> 'm \<Rightarrow> 'm"
    and rem :: "'k \<Rightarrow> 'm \<Rightarrow> 'm"
    and get :: "'m \<Rightarrow> 'k \<Rightarrow> 'v option"
    and entries :: "'m \<Rightarrow> ('k \<times> 'v) list"
    and ok :: "'m \<Rightarrow> bool"
  assumes ok_empty: "ok empty"
    and ok_ins: "ok m \<Longrightarrow> ok (ins k v m)"
    and ok_rem: "ok m \<Longrightarrow> ok (rem k m)"
    and get_empty: "get empty k = None"
    and get_ins: "ok m \<Longrightarrow> get (ins k v m) k' = (if k' = k then Some v else get m k')"
    and get_rem: "ok m \<Longrightarrow> get (rem k m) k' = (if k' = k then None else get m k')"
    and entries_sorted: "ok m \<Longrightarrow> sorted_wrt (<) (map fst (entries m))"
    and entries_get: "ok m \<Longrightarrow> (k, v) \<in> set (entries m) \<longleftrightarrow> get m k = Some v"
begin

lemma get_ins_fold:
  "ok m \<Longrightarrow> ok (fold (\<lambda>(k, v). ins k v) kvs m) \<and>
     get (fold (\<lambda>(k, v). ins k v) kvs m) k = (case map_of (rev kvs) k of None \<Rightarrow> get m k | s \<Rightarrow> s)"
proof (induction kvs arbitrary: m)
  case (Cons kv kvs)
  obtain k' v' where kv: "kv = (k', v')" by fastforce
  have "ok (ins k' v' m)" using Cons.prems by (rule ok_ins)
  then show ?case
    using Cons.IH [of "ins k' v' m"] Cons.prems kv
    by (auto simp: get_ins map_add_def split: option.splits)
qed simp

lemma get_commute:
  assumes "ok m" "k \<noteq> k'"
  shows "get (ins k v (ins k' v' m)) = get (ins k' v' (ins k v m))"
  by (rule ext) (use assms in \<open>auto simp: get_ins ok_ins\<close>)

lemma distinct_keys: "ok m \<Longrightarrow> distinct (map fst (entries m))"
  using entries_sorted [of m] by (simp add: strict_sorted_iff)

lemma entries_ext:
  assumes "ok m" "ok m'" "get m = get m'"
  shows "entries m = entries m'"
proof (rule sorted_wrt_set_unique [where R = "\<lambda>a b. fst a < fst b"])
  show "set (entries m) = set (entries m')"
    using assms entries_get [OF assms(1)] entries_get [OF assms(2)] by auto
qed (use assms entries_sorted in \<open>auto simp: sorted_wrt_map\<close>)

end

section \<open>The list model interprets it\<close>

lemma btree_ok_Nil [simp]: "btree_ok []"
  by (simp add: btree_ok_def)

lemma btree_ok_Cons [simp]:
  "btree_ok ((k, v) # m) \<longleftrightarrow> (\<forall>k' \<in> fst ` set m. k < k') \<and> btree_ok m"
  by (simp add: btree_ok_def)

lemma keys_btree_insert [simp]: "fst ` set (btree_insert k v m) = insert k (fst ` set m)"
  by (induction k v m rule: btree_insert.induct) auto

lemma btree_ok_insert [simp]: "btree_ok m \<Longrightarrow> btree_ok (btree_insert k v m)"
  by (induction k v m rule: btree_insert.induct) force+

lemma btree_get_insert:
  "btree_ok m \<Longrightarrow> btree_get (btree_insert k v m) k' = (if k' = k then Some v else btree_get m k')"
  unfolding btree_get_def
proof (induction k v m rule: btree_insert.induct)
  case (2 k v k1 v1 m)
  then show ?case by (auto dest: map_of_SomeD)
qed simp

lemma btree_ok_filter: "btree_ok m \<Longrightarrow> btree_ok (filter P m)"
  by (induction m) auto

lemma btree_get_remove: "btree_get (btree_remove k m) k' = (if k' = k then None else btree_get m k')"
  unfolding btree_get_def btree_remove_def by (induction m) auto

lemma btree_get_iff:
  "btree_ok m \<Longrightarrow> btree_get m k = Some v \<longleftrightarrow> (k, v) \<in> set m"
  by (simp add: btree_get_def btree_ok_def map_of_eq_Some_iff strict_sorted_iff)

interpretation btree: ordered_map "[]" btree_insert btree_remove btree_get "\<lambda>m. m" btree_ok
proof (unfold_locales, goal_cases)
  case (3 m k)
  then show ?case by (simp add: btree_remove_def btree_ok_filter)
next
  case (6 m k k')
  then show ?case by (simp add: btree_get_remove)
next
  case (7 m)
  then show ?case by (simp add: btree_ok_def)
next
  case (4 k)
  then show ?case by (simp add: btree_get_def)
qed (simp_all add: btree_get_insert btree_get_iff)

lemma btree_insert_snoc:
  "\<forall>k' \<in> fst ` set m. k' < k \<Longrightarrow> btree_insert k v m = m @ [(k, v)]"
  by (induction m) auto

end
