(* ===== verification/RT_Bencode.thy ===== *)
theory RT_Bencode
  imports RT_Maps
begin

text \<open>
  The bencode reader and writer, \<open>src/src/metainfo/bencode.rs\<close>. Byte slices are lists, a
  successful parser returns the value and the unread rest, every \<open>Err\<close> of the source is an
  \<open>Inl\<close>. The two loops of \<open>parse_list\<close> and \<open>parse_dict\<close> are recursive functions of their own,
  mutually recursive with \<open>parse_value_depth\<close>.
\<close>

section \<open>Values and accessors\<close>

definition MAX_DEPTH :: nat where
  "MAX_DEPTH = 100"

datatype bvalue =
    BInt int
  | BBytes bytes
  | BList "bvalue list"
  | BDict "(bytes \<times> bvalue) list"

fun as_int :: "bvalue \<Rightarrow> int res" where
  "as_int (BInt i) = Inr i"
| "as_int _ = Inl (Bencode ''expected integer'')"

fun as_bytes :: "bvalue \<Rightarrow> bytes res" where
  "as_bytes (BBytes b) = Inr b"
| "as_bytes _ = Inl (Bencode ''expected byte string'')"

definition as_str :: "bvalue \<Rightarrow> bytes res" where
  "as_str v = rbind (as_bytes v) (\<lambda>b.
     if utf8_valid b then Inr b else Inl (Bencode ''invalid utf-8''))"

fun as_list :: "bvalue \<Rightarrow> bvalue list res" where
  "as_list (BList v) = Inr v"
| "as_list _ = Inl (Bencode ''expected list'')"

fun as_dict :: "bvalue \<Rightarrow> (bytes, bvalue) btree res" where
  "as_dict (BDict d) = Inr d"
| "as_dict _ = Inl (Bencode ''expected dict'')"

definition dict_get :: "bvalue \<Rightarrow> bytes \<Rightarrow> bvalue res" where
  "dict_get v key = rbind (as_dict v) (\<lambda>d. ok_or (btree_get d key) (Bencode ''missing key: ''))"

section \<open>The writer\<close>

fun write_into :: "bvalue \<Rightarrow> bytes"
  and write_items :: "bvalue list \<Rightarrow> bytes"
  and write_entries :: "(bytes \<times> bvalue) list \<Rightarrow> bytes" where
  "write_into (BInt i) = 105 # show_int i @ [101]"
| "write_into (BBytes b) = show_nat (length b) @ 58 # b"
| "write_into (BList items) = 108 # write_items items @ [101]"
| "write_into (BDict m) = 100 # write_entries m @ [101]"
| "write_items [] = []"
| "write_items (v # items) = write_into v @ write_items items"
| "write_entries [] = []"
| "write_entries ((k, v) # m) = show_nat (length k) @ 58 # k @ write_into v @ write_entries m"

definition to_bytes :: "bvalue \<Rightarrow> bytes" where
  "to_bytes v = write_into v"

section \<open>The reader\<close>

definition parse_int :: "bytes \<Rightarrow> (bvalue \<times> bytes) res" where
  "parse_int input =
     (let body = tl input in
      rbind (ok_or (position (\<lambda>b. b = 101) body) (Bencode ''unterminated integer'')) (\<lambda>end'.
      let s = take end' body in
      if s = [] then Inl (Bencode ''empty integer'')
      else if \<not> utf8_valid s then Inl (Bencode ''int utf-8'')
      else if s = ascii ''-0'' then Inl (Bencode ''negative zero'')
      else if length s > 1 \<and> (take 1 s = ascii ''0'' \<or> take 2 s = ascii ''-0'')
        then Inl (Bencode ''leading zero'')
      else rbind (ok_or (parse_i64 s) (Bencode ''int parse'')) (\<lambda>n.
      Inr (BInt n, drop (end' + 1) body))))"

definition parse_bytes :: "bytes \<Rightarrow> (bvalue \<times> bytes) res" where
  "parse_bytes input =
     rbind (ok_or (position (\<lambda>b. b = 58) input) (Bencode ''byte string missing colon'')) (\<lambda>colon.
     if \<not> utf8_valid (take colon input) then Inl (Bencode ''len utf-8'')
     else rbind (ok_or (parse_usize (take colon input)) (Bencode ''byte string len'')) (\<lambda>len.
     let rest = drop (colon + 1) input in
     if length rest < len then Inl (Bencode ''byte string too short'')
     else Inr (BBytes (take len rest), drop len rest)))"

function (sequential) parse_value_depth :: "bytes \<Rightarrow> nat \<Rightarrow> (bvalue \<times> bytes) res"
  and parse_list_loop :: "bytes \<Rightarrow> nat \<Rightarrow> bvalue list \<Rightarrow> (bvalue \<times> bytes) res"
  and parse_dict_loop ::
    "bytes \<Rightarrow> nat \<Rightarrow> (bytes, bvalue) btree \<Rightarrow> bytes option \<Rightarrow> (bvalue \<times> bytes) res" where
  "parse_value_depth input depth =
     (if depth > MAX_DEPTH then Inl (Bencode ''nesting exceeds max depth'')
      else case input of
        [] \<Rightarrow> Inl (Bencode ''unexpected EOF'')
      | first # body \<Rightarrow>
          if first = 105 then parse_int input
          else if first = 108 then parse_list_loop body depth []
          else if first = 100 then parse_dict_loop body depth [] None
          else if is_digit first then parse_bytes input
          else Inl (Bencode ''unexpected byte''))"
| "parse_list_loop rest depth items =
     (case rest of
        [] \<Rightarrow> Inl (Bencode ''unterminated list'')
      | b # tail \<Rightarrow>
          if b = 101 then Inr (BList items, tail)
          else rbind (parse_value_depth rest (depth + 1)) (\<lambda>(v, r).
            parse_list_loop r depth (items @ [v])))"
| "parse_dict_loop rest depth m prev_key =
     (case rest of
        [] \<Rightarrow> Inl (Bencode ''unterminated dict'')
      | b # tail \<Rightarrow>
          if b = 101 then Inr (BDict m, tail)
          else rbind (parse_bytes rest) (\<lambda>(k, r).
            case k of
              BBytes key \<Rightarrow>
                if (case prev_key of Some pk \<Rightarrow> key \<le> pk | None \<Rightarrow> False)
                then Inl (Bencode ''dict keys not sorted or duplicated'')
                else rbind (parse_value_depth r (depth + 1)) (\<lambda>(v, r').
                  parse_dict_loop r' depth (btree_insert key v m) (Some key))
            | _ \<Rightarrow> Inl (Panic ''unreachable'')))"
  by pat_completeness auto

lemma parse_int_shorter: "parse_int input = Inr (v, r) \<Longrightarrow> length r < length input"
  by (cases input) (auto simp: parse_int_def Let_def split: if_splits)

lemma parse_bytes_shorter: "parse_bytes input = Inr (v, r) \<Longrightarrow> length r < length input"
  by (auto simp: parse_bytes_def Let_def split: if_splits dest!: position_SomeD)

lemma parse_bytes_BBytes: "parse_bytes input = Inr (v, r) \<Longrightarrow> \<exists>b. v = BBytes b"
  by (auto simp: parse_bytes_def Let_def split: if_splits)

lemma parse_shorter_dom:
  "parse_value_depth_parse_list_loop_parse_dict_loop_dom (Inl (input, depth)) \<Longrightarrow>
     \<forall>v r. parse_value_depth input depth = Inr (v, r) \<longrightarrow> length r < length input"
  "parse_value_depth_parse_list_loop_parse_dict_loop_dom (Inr (Inl (rest, depth, items))) \<Longrightarrow>
     \<forall>v r. parse_list_loop rest depth items = Inr (v, r) \<longrightarrow> length r < length rest"
  "parse_value_depth_parse_list_loop_parse_dict_loop_dom (Inr (Inr (rest, depth, m, prev_key))) \<Longrightarrow>
     \<forall>v r. parse_dict_loop rest depth m prev_key = Inr (v, r) \<longrightarrow> length r < length rest"
proof (induction rule: parse_value_depth_parse_list_loop_parse_dict_loop.pinduct)
  case (1 input depth)
  show ?case
    using "1.IH"
    by (auto simp: parse_value_depth.psimps [OF "1.hyps"] split: list.splits if_splits
        dest!: parse_int_shorter parse_bytes_shorter)
next
  case (2 rest depth items)
  show ?case
  proof (intro allI impI)
    fix v r
    assume ret: "parse_list_loop rest depth items = Inr (v, r)"
    show "length r < length rest"
    proof (cases "\<exists>tail. rest = 101 # tail")
      case True
      with ret parse_list_loop.psimps [OF "2.hyps"] show ?thesis by auto
    next
      case False
      then obtain b tail where rest: "rest = b # tail" "b \<noteq> 101"
        using ret parse_list_loop.psimps [OF "2.hyps"] by (cases rest) auto
      obtain v' r' where v': "parse_value_depth rest (depth + 1) = Inr (v', r')"
        and loop: "parse_list_loop r' depth (items @ [v']) = Inr (v, r)"
        using ret rest parse_list_loop.psimps [OF "2.hyps"] by auto
      have "length r' < length rest" using "2.IH"(1) [OF rest] v' by simp
      moreover have "length r < length r'"
        using "2.IH"(2) [OF rest v'] loop by simp
      ultimately show ?thesis by simp
    qed
  qed
next
  case (3 rest depth m prev_key)
  show ?case
  proof (intro allI impI)
    fix v r
    assume ret: "parse_dict_loop rest depth m prev_key = Inr (v, r)"
    show "length r < length rest"
    proof (cases "\<exists>tail. rest = 101 # tail")
      case True
      with ret parse_dict_loop.psimps [OF "3.hyps"] show ?thesis by auto
    next
      case False
      then obtain b tail where rest: "rest = b # tail" "b \<noteq> 101"
        using ret parse_dict_loop.psimps [OF "3.hyps"] by (cases rest) auto
      then obtain k0 r1 where k0: "parse_bytes rest = Inr (k0, r1)"
        using ret parse_dict_loop.psimps [OF "3.hyps"] by auto
      then obtain key where key: "k0 = BBytes key" using parse_bytes_BBytes by blast
      then have k: "parse_bytes rest = Inr (BBytes key, r1)" using k0 by simp
      obtain v' r' where ord: "\<not> (case prev_key of Some pk \<Rightarrow> key \<le> pk | None \<Rightarrow> False)"
        and v': "parse_value_depth r1 (depth + 1) = Inr (v', r')"
        and loop: "parse_dict_loop r' depth (btree_insert key v' m) (Some key) = Inr (v, r)"
        using ret rest parse_dict_loop.psimps [OF "3.hyps"] k by (auto split: if_splits)
      have "length r1 < length rest" using k by (rule parse_bytes_shorter)
      moreover have "length r' < length r1"
        using "3.IH"(1) [OF rest k _ _ ord] v' by simp
      moreover have "length r < length r'"
        using "3.IH"(2) [OF rest k _ _ ord v'] loop by simp
      ultimately show ?thesis by simp
    qed
  qed
qed

termination parse_value_depth
  by (relation "measure (\<lambda>x. case x of
        Inl (input, _) \<Rightarrow> 2 * length input
      | Inr (Inl (rest, _, _)) \<Rightarrow> 2 * length rest + 1
      | Inr (Inr (rest, _, _, _)) \<Rightarrow> 2 * length rest + 1)")
    (auto dest!: parse_bytes_shorter dest: parse_shorter_dom)

declare parse_value_depth.simps [simp del]
  and parse_list_loop.simps [simp del]
  and parse_dict_loop.simps [simp del]

definition parse_value :: "bytes \<Rightarrow> (bvalue \<times> bytes) res" where
  "parse_value input = parse_value_depth input 0"

definition parse_all :: "bytes \<Rightarrow> bvalue res" where
  "parse_all input = rbind (parse_value input) (\<lambda>(v, rest).
     if rest \<noteq> [] then Inl (Bencode ''trailing bytes after root value'') else Inr v)"

definition skip_value :: "bytes \<Rightarrow> nat res" where
  "skip_value input = rbind (parse_value input) (\<lambda>(_, rest). Inr (length input - length rest))"

section \<open>The grammar the reader accepts\<close>

text \<open>
  \<open>bencodes d x v\<close>: the byte string \<open>x\<close> is one accepted encoding of \<open>v\<close> at nesting depth \<open>d\<close>.
  \<open>int_lit\<close> and \<open>len_lit\<close> are the accepted spellings of an integer body and of a length.
\<close>

definition int_lit :: "bytes \<Rightarrow> int \<Rightarrow> bool" where
  "int_lit s i \<longleftrightarrow> s \<noteq> [] \<and> 101 \<notin> set s \<and> utf8_valid s \<and> parse_i64 s = Some i \<and>
     s \<noteq> [45, 48] \<and> \<not> (length s > 1 \<and> (take 1 s = [48] \<or> take 2 s = [45, 48]))"

definition len_lit :: "bytes \<Rightarrow> nat \<Rightarrow> bool" where
  "len_lit s n \<longleftrightarrow> 58 \<notin> set s \<and> utf8_valid s \<and> parse_usize s = Some n"

inductive bencodes :: "nat \<Rightarrow> bytes \<Rightarrow> bvalue \<Rightarrow> bool"
  and bencodes_items :: "nat \<Rightarrow> bytes \<Rightarrow> bvalue list \<Rightarrow> bool"
  and bencodes_entries :: "nat \<Rightarrow> bytes option \<Rightarrow> bytes \<Rightarrow> (bytes \<times> bvalue) list \<Rightarrow> bool" where
  bencodes_int: "d \<le> MAX_DEPTH \<Longrightarrow> int_lit s i \<Longrightarrow> bencodes d (105 # s @ [101]) (BInt i)"
| bencodes_bytes: "d \<le> MAX_DEPTH \<Longrightarrow> len_lit s (length b) \<Longrightarrow> is_digit (hd s) \<Longrightarrow>
     bencodes d (s @ 58 # b) (BBytes b)"
| bencodes_list: "d \<le> MAX_DEPTH \<Longrightarrow> bencodes_items (Suc d) x vs \<Longrightarrow>
     bencodes d (108 # x @ [101]) (BList vs)"
| bencodes_dict: "d \<le> MAX_DEPTH \<Longrightarrow> bencodes_entries (Suc d) None x kvs \<Longrightarrow>
     bencodes d (100 # x @ [101]) (BDict kvs)"
| items_Nil: "bencodes_items d [] []"
| items_Cons: "bencodes d x v \<Longrightarrow> bencodes_items d y vs \<Longrightarrow> bencodes_items d (x @ y) (v # vs)"
| entries_Nil: "bencodes_entries d prev [] []"
| entries_Cons: "len_lit s (length k) \<Longrightarrow> (\<forall>pk. prev = Some pk \<longrightarrow> pk < k) \<Longrightarrow>
     bencodes d x v \<Longrightarrow> bencodes_entries d (Some k) y kvs \<Longrightarrow>
     bencodes_entries d prev (s @ 58 # k @ x @ y) ((k, v) # kvs)"

lemmas bencodes_intros = bencodes_bencodes_items_bencodes_entries.intros

lemma parse_usize_first: "parse_usize s = Some n \<Longrightarrow> \<exists>b ds. s = b # ds \<and> (b = 43 \<or> is_digit b)"
  by (cases s) (auto simp: parse_usize_def parse_digits_def split: if_splits option.splits)

lemma parse_bytes_lit:
  "parse_bytes input = Inr (BBytes b, r) \<longleftrightarrow>
     (\<exists>s. input = s @ 58 # b @ r \<and> len_lit s (length b))"
proof
  assume "parse_bytes input = Inr (BBytes b, r)"
  then obtain colon len where pos: "position (\<lambda>b. b = 58) input = Some colon"
    and utf: "utf8_valid (take colon input)" and len: "parse_usize (take colon input) = Some len"
    and le: "\<not> length (drop (colon + 1) input) < len"
    and b: "b = take len (drop (colon + 1) input)" and r: "r = drop len (drop (colon + 1) input)"
    by (auto simp: parse_bytes_def Let_def split: if_splits)
  obtain ys where inp: "input = take colon input @ 58 # ys"
    and no: "58 \<notin> set (take colon input)"
    using position_split [OF pos] by auto
  have "length (take colon input) = colon" using position_SomeD [OF pos] by simp
  then have "drop (colon + 1) input = ys" by (subst inp) simp
  then have "ys = b @ r" "length b = len" using b r le by simp_all
  then show "\<exists>s. input = s @ 58 # b @ r \<and> len_lit s (length b)"
    using inp no utf len by (intro exI [of _ "take colon input"]) (simp add: len_lit_def)
next
  assume "\<exists>s. input = s @ 58 # b @ r \<and> len_lit s (length b)"
  then obtain s where s: "input = s @ 58 # b @ r" "len_lit s (length b)" by blast
  then have "position (\<lambda>b. b = 58) input = Some (length s)"
    by (auto simp: len_lit_def intro: position_append)
  then show "parse_bytes input = Inr (BBytes b, r)"
    using s by (simp add: parse_bytes_def len_lit_def)
qed

lemma parse_int_lit:
  "parse_int (105 # body) = Inr (v, r) \<longleftrightarrow>
     (\<exists>s i. body = s @ 101 # r \<and> v = BInt i \<and> int_lit s i)"
proof
  assume "parse_int (105 # body) = Inr (v, r)"
  then obtain e i where pos: "position (\<lambda>b. b = 101) body = Some e"
    and lit: "take e body \<noteq> []" "utf8_valid (take e body)" "parse_i64 (take e body) = Some i"
      "take e body \<noteq> [45, 48]"
      "\<not> (length (take e body) > 1 \<and> (take 1 (take e body) = [48] \<or> take 2 (take e body) = [45, 48]))"
    and v: "v = BInt i" and r: "r = drop (e + 1) body"
    by (auto simp: parse_int_def Let_def ascii_def split: if_splits)
  obtain ys where inp: "body = take e body @ 101 # ys" and no: "101 \<notin> set (take e body)"
    using position_split [OF pos] by auto
  have "length (take e body) = e" using position_SomeD [OF pos] by simp
  then have "r = ys" unfolding r by (subst inp) simp
  then show "\<exists>s i. body = s @ 101 # r \<and> v = BInt i \<and> int_lit s i"
    using inp no lit v by (intro exI [of _ "take e body"] exI [of _ i]) (simp add: int_lit_def)
next
  assume "\<exists>s i. body = s @ 101 # r \<and> v = BInt i \<and> int_lit s i"
  then obtain s i where s: "body = s @ 101 # r" "v = BInt i" "int_lit s i" by blast
  then have "position (\<lambda>b. b = 101) body = Some (length s)"
    by (auto simp: int_lit_def intro: position_append)
  then show "parse_int (105 # body) = Inr (v, r)"
    using s by (auto simp: parse_int_def int_lit_def ascii_def)
qed

lemma bencodes_first: "bencodes d x v \<Longrightarrow> \<exists>b y. x = b # y \<and> b \<noteq> 101"
proof (induction rule: bencodes.cases)
  case (bencodes_bytes d s b)
  then obtain c ds where "s = c # ds" by (auto simp: len_lit_def dest!: parse_usize_first)
  with bencodes_bytes show ?case by auto
qed auto

text \<open>Keys already in the dictionary lie at or below the previous key.\<close>

definition keys_upto :: "(bytes, bvalue) btree \<Rightarrow> bytes option \<Rightarrow> bool" where
  "keys_upto m prev \<longleftrightarrow> (\<forall>k \<in> fst ` set m. \<exists>pk. prev = Some pk \<and> k \<le> pk)"

lemma keys_upto_insert:
  assumes "keys_upto m prev" "\<forall>pk. prev = Some pk \<longrightarrow> pk < k"
  shows "btree_insert k v m = m @ [(k, v)]" and "keys_upto (m @ [(k, v)]) (Some k)"
proof -
  have "\<forall>k' \<in> fst ` set m. k' < k"
    using assms by (fastforce simp: keys_upto_def)
  then show "btree_insert k v m = m @ [(k, v)]" "keys_upto (m @ [(k, v)]) (Some k)"
    by (auto simp: btree_insert_snoc keys_upto_def intro: less_imp_le)
qed

lemma parse_list_loop_Cons:
  assumes "x = b # y" "b \<noteq> 101" "parse_value_depth x (Suc d) = Inr (v, r)"
  shows "parse_list_loop x d items = parse_list_loop r d (items @ [v])"
  using assms by (subst parse_list_loop.simps) simp

lemma parse_dict_loop_Cons:
  assumes "x = b # y" "b \<noteq> 101" "parse_bytes x = Inr (BBytes k, r)"
    and "\<forall>pk. prev = Some pk \<longrightarrow> pk < k" "parse_value_depth r (Suc d) = Inr (v, r')"
  shows "parse_dict_loop x d m prev = parse_dict_loop r' d (btree_insert k v m) (Some k)"
  using assms by (subst parse_dict_loop.simps) (auto split: option.splits)

lemma bencodes_parse:
  "bencodes d x v \<Longrightarrow> \<forall>r. parse_value_depth (x @ r) d = Inr (v, r)"
  "bencodes_items d1 x1 vs \<Longrightarrow> \<forall>r d' acc. d1 = Suc d' \<longrightarrow>
     parse_list_loop (x1 @ 101 # r) d' acc = Inr (BList (acc @ vs), r)"
  "bencodes_entries d2 prev x2 kvs \<Longrightarrow> \<forall>r d' acc. d2 = Suc d' \<and> keys_upto acc prev \<longrightarrow>
     parse_dict_loop (x2 @ 101 # r) d' acc prev = Inr (BDict (acc @ kvs), r)"
proof (induction rule: bencodes_bencodes_items_bencodes_entries.inducts)
  case (bencodes_int d s i)
  then show ?case by (auto simp: parse_value_depth.simps parse_int_lit)
next
  case (bencodes_bytes d s b)
  then obtain c ds where "s = c # ds" by (auto simp: len_lit_def dest!: parse_usize_first)
  then show ?case
    using bencodes_bytes parse_bytes_lit [of "s @ 58 # b @ r" b r for r]
    by (auto simp: parse_value_depth.simps)
next
  case (bencodes_list d x vs)
  then show ?case by (auto simp: parse_value_depth.simps)
next
  case (bencodes_dict d x kvs)
  then show ?case by (auto simp: parse_value_depth.simps keys_upto_def)
next
  case (items_Nil d)
  then show ?case by (simp add: parse_list_loop.simps)
next
  case (items_Cons d x v y vs)
  obtain b z where bz: "x = b # z" "b \<noteq> 101" using bencodes_first items_Cons.hyps(1) by blast
  show ?case
    using items_Cons.IH bz
    by (auto simp: parse_list_loop_Cons [where b = b and y = "z @ y @ 101 # r" for r])
next
  case (entries_Nil d prev)
  then show ?case by (simp add: parse_dict_loop.simps)
next
  case (entries_Cons s k prev d x v y kvs)
  obtain b ds where b: "s = b # ds" "b \<noteq> 101"
    using entries_Cons.hyps(1) by (auto simp: len_lit_def dest!: parse_usize_first)
  show ?case
  proof (intro allI impI, elim conjE)
    fix r d' acc
    assume d: "d = Suc d'" and acc: "keys_upto acc prev"
    have k: "parse_bytes (s @ 58 # k @ x @ y @ 101 # r) = Inr (BBytes k, x @ y @ 101 # r)"
      using entries_Cons.hyps(1) by (subst parse_bytes_lit) auto
    have "parse_dict_loop (s @ 58 # k @ x @ y @ 101 # r) d' acc prev =
        parse_dict_loop (y @ 101 # r) d' (btree_insert k v acc) (Some k)"
      using entries_Cons.IH(1) entries_Cons.hyps(2) b d k
      by (intro parse_dict_loop_Cons [where b = b]) auto
    also have "\<dots> = Inr (BDict ((acc @ [(k, v)]) @ kvs), r)"
      using entries_Cons.IH(2) d keys_upto_insert [OF acc entries_Cons.hyps(2)] by simp
    finally show "parse_dict_loop ((s @ 58 # k @ x @ y) @ 101 # r) d' acc prev =
        Inr (BDict (acc @ (k, v) # kvs), r)" by simp
  qed
qed

lemma parse_list_loop_InrD:
  assumes "parse_list_loop rest d items = Inr (v, r)"
  shows "(rest = 101 # r \<and> v = BList items) \<or>
    (\<exists>b tail v' r'. rest = b # tail \<and> b \<noteq> 101 \<and> parse_value_depth rest (Suc d) = Inr (v', r') \<and>
       parse_list_loop r' d (items @ [v']) = Inr (v, r))"
  using assms parse_list_loop.simps [of rest d items]
  by (auto split: list.splits if_splits)

lemma parse_dict_loop_InrD:
  assumes "parse_dict_loop rest d m prev = Inr (v, r)"
  shows "(rest = 101 # r \<and> v = BDict m) \<or>
    (\<exists>b tail k r1 v' r'. rest = b # tail \<and> b \<noteq> 101 \<and> parse_bytes rest = Inr (BBytes k, r1) \<and>
       \<not> (case prev of Some pk \<Rightarrow> k \<le> pk | None \<Rightarrow> False) \<and>
       parse_value_depth r1 (Suc d) = Inr (v', r') \<and>
       parse_dict_loop r' d (btree_insert k v' m) (Some k) = Inr (v, r))"
proof (cases "\<exists>tail. rest = 101 # tail")
  case True
  then show ?thesis using assms parse_dict_loop.simps [of rest d m prev] by auto
next
  case False
  then obtain b tail where rest: "rest = b # tail" "b \<noteq> 101"
    using assms parse_dict_loop.simps [of rest d m prev] by (cases rest) auto
  then obtain k0 r1 where k0: "parse_bytes rest = Inr (k0, r1)"
    using assms parse_dict_loop.simps [of rest d m prev] by auto
  then obtain k where "k0 = BBytes k" using parse_bytes_BBytes by blast
  with k0 rest assms parse_dict_loop.simps [of rest d m prev] show ?thesis
    by (auto split: if_splits)
qed

lemma parse_bencodes:
  "\<forall>v r. parse_value_depth input depth = Inr (v, r) \<longrightarrow> (\<exists>x. input = x @ r \<and> bencodes depth x v)"
  "\<forall>v r. parse_list_loop rest d items = Inr (v, r) \<longrightarrow>
     (\<exists>x vs. rest = x @ 101 # r \<and> v = BList (items @ vs) \<and> bencodes_items (Suc d) x vs)"
  "\<forall>v r. keys_upto m prev \<longrightarrow> parse_dict_loop rest' d' m prev = Inr (v, r) \<longrightarrow>
     (\<exists>x kvs. rest' = x @ 101 # r \<and> v = BDict (m @ kvs) \<and> bencodes_entries (Suc d') prev x kvs)"
proof (induction input depth and rest d items and rest' d' m prev
    rule: parse_value_depth_parse_list_loop_parse_dict_loop.induct)
  case (1 input depth)
  show ?case
  proof (intro allI impI)
    fix v r
    assume ret: "parse_value_depth input depth = Inr (v, r)"
    then obtain first body where inp: "input = first # body" and d: "depth \<le> MAX_DEPTH"
      using parse_value_depth.simps [of input depth] by (cases input) (auto split: if_splits)
    have unf: "(if first = 105 then parse_int (first # body)
       else if first = 108 then parse_list_loop body depth []
       else if first = 100 then parse_dict_loop body depth [] None
       else if is_digit first then parse_bytes (first # body)
       else Inl (Bencode ''unexpected byte'')) = Inr (v, r)"
      using ret d inp parse_value_depth.simps [of "first # body" depth] by simp
    consider "first = 105" | "first = 108" | "first = 100" | "is_digit first"
      "first \<noteq> 105" "first \<noteq> 108" "first \<noteq> 100"
      using unf by (auto split: if_splits)
    then show "\<exists>x. input = x @ r \<and> bencodes depth x v"
    proof cases
      case 1
      then obtain s i where "body = s @ 101 # r" "v = BInt i" "int_lit s i"
        using unf parse_int_lit by auto
      then show ?thesis
        using inp d 1 by (intro exI [of _ "105 # s @ [101]"]) (auto intro: bencodes_intros)
    next
      case 2
      then obtain x vs where "body = x @ 101 # r" "v = BList vs" "bencodes_items (Suc depth) x vs"
        using unf inp d "1.IH"(1) [of first body] by fastforce
      then show ?thesis
        using inp d 2 by (intro exI [of _ "108 # x @ [101]"]) (auto intro: bencodes_intros)
    next
      case 3
      then obtain x kvs where "body = x @ 101 # r" "v = BDict kvs"
          "bencodes_entries (Suc depth) None x kvs"
        using unf inp d "1.IH"(2) [of first body] by (fastforce simp: keys_upto_def)
      then show ?thesis
        using inp d 3 by (intro exI [of _ "100 # x @ [101]"]) (auto intro: bencodes_intros)
    next
      case 4
      then have pb: "parse_bytes input = Inr (v, r)" using unf inp by simp
      then obtain b where b: "v = BBytes b" "parse_bytes input = Inr (BBytes b, r)"
        using parse_bytes_BBytes by blast
      then obtain s where s: "input = s @ 58 # b @ r" "len_lit s (length b)"
        using parse_bytes_lit by blast
      then have "hd s = first" using inp parse_usize_first by (force simp: len_lit_def)
      then show ?thesis
        using d b s 4 by (intro exI [of _ "s @ 58 # b"]) (auto intro: bencodes_intros)
    qed
  qed
next
  case (2 rest depth items)
  show ?case
  proof (intro allI impI)
    fix v r
    assume "parse_list_loop rest depth items = Inr (v, r)"
    from parse_list_loop_InrD [OF this]
    show "\<exists>x vs. rest = x @ 101 # r \<and> v = BList (items @ vs) \<and> bencodes_items (Suc depth) x vs"
    proof (elim disjE exE conjE)
      assume "rest = 101 # r" "v = BList items"
      then show ?thesis by (intro exI [of _ "[]"]) (auto intro: bencodes_intros)
    next
      fix b tail v' r'
      assume rest: "rest = b # tail" "b \<noteq> 101"
        and v': "parse_value_depth rest (Suc depth) = Inr (v', r')"
        and loop: "parse_list_loop r' depth (items @ [v']) = Inr (v, r)"
      obtain x where x: "rest = x @ r'" "bencodes (Suc depth) x v'"
        using "2.IH"(1) [OF rest] v' by auto
      obtain y vs where "r' = y @ 101 # r" "v = BList ((items @ [v']) @ vs)"
          "bencodes_items (Suc depth) y vs"
        using "2.IH"(2) [OF rest] v' loop by fastforce
      then show ?thesis
        using x by (intro exI [of _ "x @ y"] exI [of _ "v' # vs"]) (auto intro: bencodes_intros)
    qed
  qed
next
  case (3 rest depth m prev)
  show ?case
  proof (intro allI impI)
    fix v r
    assume upto: "keys_upto m prev" and "parse_dict_loop rest depth m prev = Inr (v, r)"
    from parse_dict_loop_InrD [OF this(2)]
    show "\<exists>x kvs. rest = x @ 101 # r \<and> v = BDict (m @ kvs) \<and> bencodes_entries (Suc depth) prev x kvs"
    proof (elim disjE exE conjE)
      assume "rest = 101 # r" "v = BDict m"
      then show ?thesis by (intro exI [of _ "[]"]) (auto intro: bencodes_intros)
    next
      fix b tail k r1 v' r'
      assume rest: "rest = b # tail" "b \<noteq> 101"
        and k: "parse_bytes rest = Inr (BBytes k, r1)"
        and ord: "\<not> (case prev of Some pk \<Rightarrow> k \<le> pk | None \<Rightarrow> False)"
        and v': "parse_value_depth r1 (Suc depth) = Inr (v', r')"
        and loop: "parse_dict_loop r' depth (btree_insert k v' m) (Some k) = Inr (v, r)"
      have lt: "\<forall>pk. prev = Some pk \<longrightarrow> pk < k" using ord by (auto split: option.splits)
      note ins = keys_upto_insert [OF upto lt, of v']
      obtain s where s: "rest = s @ 58 # k @ r1" "len_lit s (length k)"
        using k parse_bytes_lit by blast
      obtain x where x: "r1 = x @ r'" "bencodes (Suc depth) x v'"
        using "3.IH"(1) [OF rest k _ _ ord] v' by auto
      obtain y kvs where "r' = y @ 101 # r" "v = BDict ((m @ [(k, v')]) @ kvs)"
          "bencodes_entries (Suc depth) (Some k) y kvs"
        using "3.IH"(2) [OF rest k _ _ ord] v' loop ins by fastforce
      then show ?thesis
        using x s lt
        by (intro exI [of _ "s @ 58 # k @ x @ y"] exI [of _ "(k, v') # kvs"])
          (auto intro: bencodes_intros)
    qed
  qed
qed

lemma parse_value_depth_bencodes:
  "parse_value_depth input d = Inr (v, r) \<longleftrightarrow> (\<exists>x. input = x @ r \<and> bencodes d x v)"
  using parse_bencodes(1) [of input d] bencodes_parse(1) [of d _ v] by blast

section \<open>Depth\<close>

lemma bencodes_shallower:
  "bencodes d x v \<Longrightarrow> \<forall>d'. d' \<le> d \<longrightarrow> bencodes d' x v"
  "bencodes_items d1 x1 vs \<Longrightarrow> \<forall>d'. d' \<le> d1 \<longrightarrow> bencodes_items d' x1 vs"
  "bencodes_entries d2 prev x2 kvs \<Longrightarrow> \<forall>d'. d' \<le> d2 \<longrightarrow> bencodes_entries d' prev x2 kvs"
  by (induction rule: bencodes_bencodes_items_bencodes_entries.inducts)
    (auto intro: bencodes_intros)

fun bdepth :: "bvalue \<Rightarrow> nat"
  and bdepth_items :: "bvalue list \<Rightarrow> nat"
  and bdepth_entries :: "(bytes \<times> bvalue) list \<Rightarrow> nat" where
  "bdepth (BInt i) = 0"
| "bdepth (BBytes b) = 0"
| "bdepth (BList items) = bdepth_items items"
| "bdepth (BDict m) = bdepth_entries m"
| "bdepth_items [] = 0"
| "bdepth_items (v # items) = max (Suc (bdepth v)) (bdepth_items items)"
| "bdepth_entries [] = 0"
| "bdepth_entries ((k, v) # m) = max (Suc (bdepth v)) (bdepth_entries m)"

section \<open>Well-formed values and the round trip\<close>

text \<open>
  What the types of the source guarantee of a \<open>BencodeValue\<close>: integers fit \<open>i64\<close>, byte strings
  have a \<open>usize\<close> length, and a dictionary is a \<open>BTreeMap\<close>, so its keys increase.
\<close>

fun wf_bvalue :: "bvalue \<Rightarrow> bool"
  and wf_items :: "bvalue list \<Rightarrow> bool"
  and wf_entries :: "bytes option \<Rightarrow> (bytes \<times> bvalue) list \<Rightarrow> bool" where
  "wf_bvalue (BInt i) = (i64_min \<le> i \<and> i \<le> i64_max)"
| "wf_bvalue (BBytes b) = (length b \<le> u64_max)"
| "wf_bvalue (BList items) = wf_items items"
| "wf_bvalue (BDict m) = wf_entries None m"
| "wf_items [] = True"
| "wf_items (v # items) = (wf_bvalue v \<and> wf_items items)"
| "wf_entries prev [] = True"
| "wf_entries prev ((k, v) # m) =
     ((case prev of None \<Rightarrow> True | Some pk \<Rightarrow> pk < k) \<and> length k \<le> u64_max \<and> wf_bvalue v \<and>
      wf_entries (Some k) m)"

lemma wf_entries_btree_ok: "wf_entries prev m \<Longrightarrow>
    btree_ok m \<and> (\<forall>pk. prev = Some pk \<longrightarrow> (\<forall>k \<in> fst ` set m. pk < k))"
proof (induction m arbitrary: prev)
  case (Cons kv m)
  obtain k v where "kv = (k, v)" by fastforce
  with Cons.prems Cons.IH [of "Some k"] show ?case
    by (auto split: option.splits intro: less_trans)
qed simp

lemma bencodes_wf:
  "bencodes d x v \<Longrightarrow> wf_bvalue v \<and> d + bdepth v \<le> MAX_DEPTH"
  "bencodes_items d1 x1 vs \<Longrightarrow> wf_items vs \<and> (vs \<noteq> [] \<longrightarrow> d1 + bdepth_items vs \<le> Suc MAX_DEPTH)"
  "bencodes_entries d2 prev x2 kvs \<Longrightarrow>
     wf_entries prev kvs \<and> (kvs \<noteq> [] \<longrightarrow> d2 + bdepth_entries kvs \<le> Suc MAX_DEPTH)"
proof (induction rule: bencodes_bencodes_items_bencodes_entries.inducts)
  case (bencodes_list d x vs)
  then show ?case by (cases vs) auto
next
  case (bencodes_dict d x kvs)
  then show ?case by (cases kvs) auto
next
  case (items_Cons d x v y vs)
  then show ?case by (cases vs) auto
next
  case (entries_Cons s k prev d x v y kvs)
  then show ?case
    by (cases kvs) (auto simp: len_lit_def dest: parse_usize_bound split: option.splits)
qed (auto simp: int_lit_def len_lit_def dest: parse_i64_bounds parse_usize_bound)

lemma len_lit_show_nat: "n \<le> u64_max \<Longrightarrow> len_lit (show_nat n) n"
  by (simp add: len_lit_def parse_usize_show_nat)

lemma int_lit_show_int:
  assumes "i64_min \<le> i" "i \<le> i64_max"
  shows "int_lit (show_int i) i"
proof -
  let ?n = "nat \<bar>i\<bar>"
  obtain b ds where bds: "show_nat ?n = b # ds" "is_digit b" using show_nat_Cons by blast
  show ?thesis
  proof (cases "i = 0")
    case True
    then show ?thesis using parse_i64_show_int [OF assms] by (simp add: int_lit_def show_int_def)
  next
    case False
    then have "b \<noteq> 48" using hd_show_nat [of ?n] bds by auto
    then show ?thesis
      using False bds show_nat_no_delim(2) [of ?n] parse_i64_show_int [OF assms] utf8_show_int [of i]
      by (auto simp: int_lit_def show_int_def split: if_splits)
  qed
qed

lemma write_bencodes:
  "wf_bvalue v \<Longrightarrow> \<forall>d. d + bdepth v \<le> MAX_DEPTH \<longrightarrow> bencodes d (write_into v) v"
  "wf_items vs \<Longrightarrow> \<forall>d. d + bdepth_items vs \<le> Suc MAX_DEPTH \<longrightarrow> bencodes_items d (write_items vs) vs"
  "wf_entries prev kvs \<Longrightarrow> \<forall>d. d + bdepth_entries kvs \<le> Suc MAX_DEPTH \<longrightarrow>
     bencodes_entries d prev (write_entries kvs) kvs"
proof (induction v and vs and prev kvs rule: wf_bvalue_wf_items_wf_entries.induct)
  case (1 i)
  then show ?case by (auto intro: bencodes_intros int_lit_show_int)
next
  case (2 b)
  have "is_digit (hd (show_nat (length b)))" using show_nat_Cons [of "length b"] by auto
  with 2 show ?case by (auto intro!: bencodes_bytes len_lit_show_nat)
next
  case (8 prev k v m)
  then show ?case
    by (auto intro!: bencodes_intros len_lit_show_nat split: option.splits)
qed (auto intro: bencodes_intros)

lemma bencodes_nonempty: "bencodes d x v \<Longrightarrow> x \<noteq> []"
  using bencodes_first by blast

lemma parse_value_bencodes: "parse_value input = Inr (v, r) \<longleftrightarrow> (\<exists>x. input = x @ r \<and> bencodes 0 x v)"
  by (simp add: parse_value_def parse_value_depth_bencodes)

lemma parse_all_bencodes: "parse_all input = Inr v \<longleftrightarrow> bencodes 0 input v"
  by (auto simp: parse_all_def parse_value_bencodes split: if_splits)

lemma parse_to_bytes: "wf_bvalue v \<Longrightarrow> bdepth v \<le> MAX_DEPTH \<Longrightarrow> parse_all (to_bytes v) = Inr v"
  using write_bencodes(1) [of v] by (simp add: parse_all_bencodes to_bytes_def)

interpretation bencode: codec to_bytes parse_all "\<lambda>v. wf_bvalue v \<and> bdepth v \<le> MAX_DEPTH"
  by unfold_locales (simp add: parse_to_bytes)

interpretation bencode_value: prefix_parser parse_value
  by unfold_locales (auto simp: parse_value_bencodes dest: bencodes_nonempty)

lemma skip_value_bencodes:
  "skip_value input = Inr n \<longleftrightarrow> (\<exists>x r v. input = x @ r \<and> bencodes 0 x v \<and> n = length x)"
proof
  assume "skip_value input = Inr n"
  then show "\<exists>x r v. input = x @ r \<and> bencodes 0 x v \<and> n = length x"
    by (auto simp: skip_value_def parse_value_bencodes)
next
  assume "\<exists>x r v. input = x @ r \<and> bencodes 0 x v \<and> n = length x"
  then obtain x r v where "input = x @ r" "parse_value input = Inr (v, r)" "n = length x"
    by (auto simp: parse_value_bencodes)
  then show "skip_value input = Inr n" by (simp add: skip_value_def)
qed

section \<open>Properties\<close>

text \<open>
  C1: the reader of \<open>bencode.rs\<close> is correct and complete for its grammar: it succeeds with value
  \<open>v\<close> and rest \<open>r\<close> at nesting depth \<open>d\<close> exactly when its input is one accepted encoding of \<open>v\<close>
  at that depth followed by \<open>r\<close>.
\<close>

theorem parse_value_depth_iff:
  "parse_value_depth input d = Inr (v, r) \<longleftrightarrow> (\<exists>x. input = x @ r \<and> bencodes d x v)"
  by (rule parse_value_depth_bencodes)

text \<open>
  Reading back what \<open>to_bytes\<close> writes gives the value again, for every value whose integers,
  lengths and key order are those of the Rust type and whose nesting is within \<open>MAX_DEPTH\<close>.
\<close>

theorem bencode_roundtrip:
  assumes "wf_bvalue v" "bdepth v \<le> MAX_DEPTH"
  shows "parse_all (to_bytes v) = Inr v"
  using bencode.roundtrip assms by blast

theorem bencode_roundtrip_witness:
  "parse_all (to_bytes (BDict [([109], BList [BInt (-7), BBytes [0, 255]])])) =
     Inr (BDict [([109], BList [BInt (-7), BBytes [0, 255]])])"
  by (rule bencode_roundtrip) (simp_all add: MAX_DEPTH_def)

text \<open>
  Whatever bytes a peer sends, an accepted value is well formed (\<open>i64\<close> integers, strictly
  increasing dictionary keys, at most \<open>MAX_DEPTH\<close> levels), and writing it gives an encoding that
  reads back as the same value.
\<close>

theorem parse_all_wf:
  assumes "parse_all input = Inr v"
  shows "wf_bvalue v \<and> bdepth v \<le> MAX_DEPTH \<and> parse_all (to_bytes v) = Inr v"
  using assms bencodes_wf(1) [of 0 input v] parse_to_bytes [of v]
  by (auto simp: parse_all_bencodes)

lemma plus_sign_accepted: "parse_all (ascii ''i+05e'') = Inr (BInt 5)"
  by (simp add: parse_all_def parse_value_def parse_value_depth.simps MAX_DEPTH_def ascii_def
      parse_int_def parse_i64_def parse_digits_def is_digit_def digits_value_def)

theorem parse_all_wf_witness:
  "wf_bvalue (BInt 5) \<and> bdepth (BInt 5) \<le> MAX_DEPTH \<and> parse_all (to_bytes (BInt 5)) = Inr (BInt 5)"
  using parse_all_wf [OF plus_sign_accepted] .

end
