(* ===== verification/RT_Path.thy ===== *)
theory RT_Path
  imports RT_Prelude
begin

text \<open>
  The part of \<open>std::path\<close> (on Unix, where \<open>/\<close> is the only separator and there are no prefixes)
  that the metainfo decoder and the storage layout use: \<open>Path::components\<close>, \<open>PathBuf::push\<close> and
  \<open>Path::join\<close>, \<open>Path::starts_with\<close>. A path is its byte string.
\<close>

type_synonym path = bytes

datatype component = RootDir | CurDir | ParentDir | Normal bytes

text \<open>\<open>str::split\<close> at a one-byte separator: always at least one segment.\<close>

fun split_on :: "u8 \<Rightarrow> bytes \<Rightarrow> bytes list" where
  "split_on c [] = [[]]"
| "split_on c (b # bs) =
     (if b = c then [] # split_on c bs
      else case split_on c bs of s # ss \<Rightarrow> (b # s) # ss | [] \<Rightarrow> [[b]])"

definition seg_component :: "bytes \<Rightarrow> component list" where
  "seg_component s =
     (if s = [] \<or> s = [46] then [] else if s = [46, 46] then [ParentDir] else [Normal s])"

definition components :: "path \<Rightarrow> component list" where
  "components p =
     (if take 1 p = [47] then [RootDir] else if hd (split_on 47 p) = [46] then [CurDir] else [])
     @ concat (map seg_component (split_on 47 p))"

definition path_join :: "path \<Rightarrow> path \<Rightarrow> path" where
  "path_join base rel =
     (if take 1 rel = [47] then rel
      else if base = [] \<or> last base = 47 then base @ rel
      else base @ 47 # rel)"

definition path_starts_with :: "path \<Rightarrow> path \<Rightarrow> bool" where
  "path_starts_with p base \<longleftrightarrow>
     take (length (components base)) (components p) = components base"

lemma split_on_nonempty [simp]: "split_on c bs \<noteq> []"
  by (induction bs) (auto split: list.splits)

lemma split_on_append: "split_on c (xs @ c # ys) = split_on c xs @ split_on c ys"
  by (induction xs) (auto split: list.splits)

lemma split_on_plain: "c \<notin> set xs \<Longrightarrow> split_on c xs = [xs]"
  by (induction xs) auto

lemma hd_split_append: "hd (split_on c (xs @ c # ys)) = hd (split_on c xs)"
  by (simp add: split_on_append hd_append)

lemma components_append:
  assumes "base \<noteq> []"
  shows "components (base @ 47 # rel) = components base @ concat (map seg_component (split_on 47 rel))"
  using assms by (cases base) (simp_all add: components_def hd_split_append split_on_append
      del: split_on.simps append_Cons flip: append_Cons)

lemma components_join:
  assumes "take 1 rel \<noteq> [47]" "base \<noteq> []"
  shows "components (path_join base rel) =
    components base @ concat (map seg_component (split_on 47 rel))"
proof (cases "last base = 47")
  case False
  then show ?thesis using assms by (simp add: path_join_def components_append)
next
  case True
  then obtain q where q: "base = q @ [47]" using assms(2) by (metis append_butlast_last_id)
  then have join: "path_join base rel = q @ 47 # rel" using assms True by (simp add: path_join_def)
  show ?thesis
  proof (cases "q = []")
    case True
    then show ?thesis
      using q join by (simp add: components_def seg_component_def)
  next
    case False
    have "components base = components q"
      using components_append [OF False, of "[]"] q by (simp add: seg_component_def)
    then show ?thesis using components_append [OF False, of rel] join by simp
  qed
qed

lemma components_relative:
  assumes "list_all (\<lambda>c. \<exists>n. c = Normal n) (components rel)"
  shows "take 1 rel \<noteq> [47]" and "components rel = concat (map seg_component (split_on 47 rel))"
  using assms by (auto simp: components_def split: if_splits)

lemma components_join_normal:
  assumes "list_all (\<lambda>c. \<exists>n. c = Normal n) (components rel)"
  shows "components (path_join base rel) = components base @ components rel"
proof (cases "base = []")
  case True
  then show ?thesis
    using components_relative [OF assms]
    by (auto simp: path_join_def components_def [of "[]"] seg_component_def)
next
  case False
  then show ?thesis using components_join components_relative [OF assms] by simp
qed

text \<open>A segment that is one plain component.\<close>

lemma components_plain:
  assumes "s \<noteq> []" "s \<noteq> [46]" "s \<noteq> [46, 46]" "47 \<notin> set s"
  shows "components s = [Normal s]"
  using assms by (cases s) (auto simp: components_def split_on_plain seg_component_def)

lemma starts_with_join:
  assumes "list_all (\<lambda>c. \<exists>n. c = Normal n) (components rel)"
  shows "path_starts_with (path_join base rel) base"
  using components_join_normal [OF assms, of base] by (simp add: path_starts_with_def)

end
