(* ===== verification/RT_Metainfo.thy ===== *)
theory RT_Metainfo
  imports RT_Bencode RT_Path
begin

text \<open>
  The \<open>.torrent\<close> decoder, \<open>src/src/metainfo/torrent.rs\<close>. The SHA-1 function comes from the
  \<open>sha1\<close> crate and is a parameter. Lengths are \<open>u64\<close> values modelled as \<open>nat\<close>; the sum of the
  file lengths is the one place where they can leave the type's range, which unwinds.
\<close>

record file_entry =
  fe_length :: nat
  fe_path :: path

datatype torrent_files = Single nat | Multi "file_entry list"

record info =
  ti_name :: bytes
  ti_piece_length :: nat
  ti_piece_hashes :: "bytes list"
  ti_files :: torrent_files
  ti_private :: bool

record torrent_file =
  tf_info_hash :: bytes
  tf_announce :: "bytes option"
  tf_announce_list :: "bytes list list"
  tf_info :: info

section \<open>The info dictionary\<close>

definition is_unsafe_path_component :: "bytes \<Rightarrow> bool" where
  "is_unsafe_path_component s \<longleftrightarrow> s = [] \<or> s = ascii ''.'' \<or> s = ascii ''..'' \<or> 47 \<in> set s \<or> 92 \<in> set s"

definition u64_try_from :: "int \<Rightarrow> string \<Rightarrow> nat res" where
  "u64_try_from i msg = (if 0 \<le> i then Inr (nat i) else Inl (Bencode msg))"

fun files_total :: "torrent_files \<Rightarrow> nat res" where
  "files_total (Single len) = Inr len"
| "files_total (Multi fs) = sum_u64 0 (map fe_length fs)"

definition MAX_PIECE_LENGTH :: nat where
  "MAX_PIECE_LENGTH = 2 ^ 30"

fun path_segments :: "path \<Rightarrow> bvalue list \<Rightarrow> path res" where
  "path_segments p [] = Inr p"
| "path_segments p (seg # segs) = rbind (as_str seg) (\<lambda>s.
     if is_unsafe_path_component s then Inl (Bencode ''unsafe path segment: '')
     else path_segments (path_join p s) segs)"

definition file_entry_from :: "bvalue \<Rightarrow> file_entry res" where
  "file_entry_from fv =
     rbind (as_dict fv) (\<lambda>fd.
     rbind (ok_or (btree_get fd (ascii ''length'')) (Bencode ''file missing length'')) (\<lambda>lv.
     rbind (as_int lv) (\<lambda>li.
     rbind (u64_try_from li ''file length negative'') (\<lambda>len.
     rbind (ok_or (btree_get fd (ascii ''path'')) (Bencode ''file missing path'')) (\<lambda>pv.
     rbind (as_list pv) (\<lambda>path_list.
     rbind (path_segments [] path_list) (\<lambda>p.
     Inr \<lparr>fe_length = len, fe_path = p\<rparr>)))))))"

definition files_from :: "(bytes, bvalue) btree \<Rightarrow> torrent_files res" where
  "files_from d =
     (case btree_get d (ascii ''files'') of
        Some files_v \<Rightarrow>
          rbind (as_list files_v) (\<lambda>list.
          rbind (rmapM file_entry_from list) (\<lambda>entries. Inr (Multi entries)))
      | None \<Rightarrow>
          rbind (ok_or (btree_get d (ascii ''length'')) (Bencode ''info missing length'')) (\<lambda>lv.
          rbind (as_int lv) (\<lambda>li.
          rbind (u64_try_from li ''length negative'') (\<lambda>len. Inr (Single len)))))"

definition private_from :: "(bytes, bvalue) btree \<Rightarrow> bool" where
  "private_from d =
     (case btree_get d (ascii ''private'') of
        None \<Rightarrow> False
      | Some v \<Rightarrow> (case res_ok (as_int v) of None \<Rightarrow> False | Some n \<Rightarrow> n \<noteq> 0))"

definition info_from_value :: "bvalue \<Rightarrow> info res" where
  "info_from_value v =
     rbind (as_dict v) (\<lambda>d.
     rbind (ok_or (btree_get d (ascii ''name'')) (Bencode ''info missing name'')) (\<lambda>nv.
     rbind (as_str nv) (\<lambda>name.
     rbind (ensure (\<not> is_unsafe_path_component name) (Bencode ''unsafe torrent name: '')) (\<lambda>_.
     rbind (ok_or (btree_get d (ascii ''piece length'')) (Bencode ''info missing piece length'')) (\<lambda>plv.
     rbind (as_int plv) (\<lambda>pli.
     rbind (u64_try_from pli ''piece length negative'') (\<lambda>piece_length.
     rbind (ensure (\<not> (piece_length = 0 \<or> piece_length > MAX_PIECE_LENGTH))
       (Bencode ''implausible piece length: '')) (\<lambda>_.
     rbind (ok_or (btree_get d (ascii ''pieces'')) (Bencode ''info missing pieces'')) (\<lambda>pv.
     rbind (as_bytes pv) (\<lambda>pieces_raw.
     rbind (ensure (length pieces_raw mod 20 = 0) (Bencode ''pieces length'')) (\<lambda>_.
     let piece_hashes = chunks 20 pieces_raw in
     rbind (files_from d) (\<lambda>files.
     rbind (files_total files) (\<lambda>total_length.
     rbind (ensure (total_length \<noteq> 0) (Bencode ''torrent total length is zero (nothing to download)'')) (\<lambda>_.
     rbind (ensure (length piece_hashes = div_ceil total_length piece_length)
       (Bencode ''piece hash count mismatch: torrent has'')) (\<lambda>_.
     Inr \<lparr>ti_name = name, ti_piece_length = piece_length, ti_piece_hashes = piece_hashes,
          ti_files = files, ti_private = private_from d\<rparr>)))))))))))))))"

section \<open>The torrent file\<close>

definition parse_bytes_inline :: "bytes \<Rightarrow> bytes res" where
  "parse_bytes_inline input = rbind (parse_value input) (\<lambda>(v, rest).
     if rest \<noteq> [] then Inl (Bencode ''trailing bytes after key'')
     else case v of BBytes b \<Rightarrow> Inr b | _ \<Rightarrow> Inl (Bencode ''dict key is not bytes''))"

lemma skip_value_pos: "skip_value input = Inr n \<Longrightarrow> 0 < n"
  by (auto simp: skip_value_bencodes dest: bencodes_nonempty)

text \<open>The \<open>while\<close> loop of \<open>find_info_slice\<close>, from position \<open>cursor\<close>.\<close>

function find_info_loop :: "bytes \<Rightarrow> nat \<Rightarrow> bytes res" where
  "find_info_loop input cursor =
     (if cursor < length input then
        if input ! cursor = 101 then Inl (Bencode ''no info dict in root'')
        else rbind (skip_value (drop cursor input)) (\<lambda>key_len.
          rbind (parse_bytes_inline (take key_len (drop cursor input))) (\<lambda>key.
          rbind (skip_value (drop (cursor + key_len) input)) (\<lambda>value_len.
          if key = ascii ''info'' then Inr (take value_len (drop (cursor + key_len) input))
          else find_info_loop input (cursor + key_len + value_len))))
      else Inl (Bencode ''malformed top-level dict''))"
  by pat_completeness auto
termination
  by (relation "measure (\<lambda>(input, cursor). length input - cursor)") (auto dest: skip_value_pos)

declare find_info_loop.simps [simp del]

definition find_info_slice :: "bytes \<Rightarrow> bytes res" where
  "find_info_slice input =
     (if take 1 input \<noteq> ascii ''d'' then Inl (Bencode ''torrent root is not a dict'')
      else find_info_loop input 1)"

definition compute_info_hash :: "(bytes \<Rightarrow> bytes) \<Rightarrow> bytes \<Rightarrow> bytes res" where
  "compute_info_hash sha1 input = rbind (find_info_slice input) (\<lambda>s. Inr (sha1 s))"

definition announce_from :: "(bytes, bvalue) btree \<Rightarrow> bytes option res" where
  "announce_from d =
     (case btree_get d (ascii ''announce'') of
        None \<Rightarrow> Inr None
      | Some v \<Rightarrow> rbind (as_str v) (\<lambda>s. Inr (Some s)))"

definition announce_list_from :: "(bytes, bvalue) btree \<Rightarrow> bytes list list res" where
  "announce_list_from d =
     (case btree_get d (ascii ''announce-list'') of
        None \<Rightarrow> Inr []
      | Some v \<Rightarrow> rbind (as_list v) (rmapM (\<lambda>tier. rbind (as_list tier) (rmapM as_str))))"

definition torrent_from_value :: "bvalue \<Rightarrow> bytes \<Rightarrow> torrent_file res" where
  "torrent_from_value root info_hash =
     rbind (as_dict root) (\<lambda>d.
     rbind (announce_from d) (\<lambda>announce.
     rbind (announce_list_from d) (\<lambda>announce_list.
     rbind (ok_or (btree_get d (ascii ''info'')) (Bencode ''missing info dict'')) (\<lambda>info_v.
     rbind (info_from_value info_v) (\<lambda>info.
     Inr \<lparr>tf_info_hash = info_hash, tf_announce = announce, tf_announce_list = announce_list,
          tf_info = info\<rparr>)))))"

definition torrent_from_bytes :: "(bytes \<Rightarrow> bytes) \<Rightarrow> bytes \<Rightarrow> torrent_file res" where
  "torrent_from_bytes sha1 input =
     rbind (parse_all input) (\<lambda>root.
     rbind (compute_info_hash sha1 input) (\<lambda>info_hash.
     torrent_from_value root info_hash))"

definition from_info_dict_bytes ::
    "(bytes \<Rightarrow> bytes) \<Rightarrow> bytes \<Rightarrow> bytes \<Rightarrow> bytes list \<Rightarrow> torrent_file res" where
  "from_info_dict_bytes sha1 info_bytes info_hash trackers =
     (if sha1 info_bytes \<noteq> info_hash then Inl (Bencode ''info dict sha1'')
      else rbind (parse_all info_bytes) (\<lambda>info_v.
        rbind (info_from_value info_v) (\<lambda>info.
        Inr \<lparr>tf_info_hash = info_hash, tf_announce = None,
             tf_announce_list = (if trackers = [] then [] else [trackers]), tf_info = info\<rparr>)))"

definition total_length :: "torrent_file \<Rightarrow> nat res" where
  "total_length t = files_total (ti_files (tf_info t))"

definition num_pieces :: "torrent_file \<Rightarrow> nat" where
  "num_pieces t = length (ti_piece_hashes (tf_info t))"

definition push_new :: "bytes list \<Rightarrow> bytes \<Rightarrow> bytes list" where
  "push_new out url = (if url \<in> set out then out else out @ [url])"

definition trackers :: "torrent_file \<Rightarrow> bytes list" where
  "trackers t =
     (let out = foldl (foldl push_new) [] (tf_announce_list t)
      in case tf_announce t of None \<Rightarrow> out | Some a \<Rightarrow> push_new out a)"

section \<open>The hashed slice is the info dictionary\<close>

inductive_cases entries_NilE: "bencodes_entries d prev x []"
inductive_cases entries_ConsE: "bencodes_entries d prev x ((k, v) # kvs)"
inductive_cases bencodes_DictE: "bencodes d x (BDict kvs)"

lemma bencodes_parse_value: "bencodes d x v \<Longrightarrow> parse_value (x @ r) = Inr (v, r)"
  using bencodes_shallower(1) [of d x v] parse_value_bencodes by blast

lemma bencodes_skip_value: "bencodes d x v \<Longrightarrow> skip_value (x @ r) = Inr (length x)"
  by (simp add: skip_value_def bencodes_parse_value)

text \<open>One round of the loop over a key and a value that the dictionary reader accepted.\<close>

lemma find_info_loop_step:
  assumes key: "len_lit s (length k)" and dig: "is_digit (hd s)" and val: "bencodes d y v"
    and inp: "input = pre @ s @ 58 # k @ y @ z"
  shows "find_info_loop input (length pre) = (if k = ascii ''info'' then Inr y
      else find_info_loop input (length (pre @ s @ 58 # k @ y)))"
proof -
  obtain b ds where s: "s = b # ds" "b \<noteq> 101"
    using key by (auto simp: len_lit_def dest!: parse_usize_first)
  have rest: "drop (length pre) input = (s @ 58 # k) @ y @ z" using inp by simp
  have here: "length pre < length input" "input ! length pre \<noteq> 101"
    using inp s by (auto simp: nth_append)
  have k: "bencodes 0 (s @ 58 # k) (BBytes k)"
    using bencodes_bytes [of 0 s k] key dig by simp
  then have skip_k: "skip_value ((s @ 58 # k) @ y @ z) = Inr (length (s @ 58 # k))"
    by (rule bencodes_skip_value)
  have inline: "parse_bytes_inline (s @ 58 # k) = Inr k"
    using bencodes_parse_value [OF k, of "[]"] by (simp add: parse_bytes_inline_def)
  have rest': "drop (length pre + length (s @ 58 # k)) input = y @ z" using inp by simp
  have skip_y: "skip_value (y @ z) = Inr (length y)"
    using val by (rule bencodes_skip_value)
  have key_slice: "take (length (s @ 58 # k)) ((s @ 58 # k) @ y @ z) = s @ 58 # k" by simp
  have "find_info_loop input (length pre) = (if k = ascii ''info'' then Inr y
      else find_info_loop input (length pre + length (s @ 58 # k) + length y))"
    by (subst find_info_loop.simps, simp only: here rest rest' skip_k skip_y key_slice inline
        rbind_Inr if_True if_False) simp
  then show ?thesis by (simp add: add.assoc)
qed

lemma find_info_loop_key_digit:
  assumes key: "len_lit s (length k)" and inp: "input = pre @ s @ 58 # k @ yz"
    and ret: "find_info_loop input (length pre) = Inr sl"
  shows "is_digit (hd s)"
proof (rule ccontr)
  obtain b ds where s: "s = b # ds" "b \<noteq> 101" "b = 43 \<or> is_digit b"
    using key by (auto simp: len_lit_def dest!: parse_usize_first)
  have here: "length pre < length input" "input ! length pre \<noteq> 101"
      "drop (length pre) input = s @ 58 # k @ yz"
    using inp s by (auto simp: nth_append)
  obtain n where n: "skip_value (s @ 58 # k @ yz) = Inr n"
    using ret here find_info_loop.simps [of input "length pre"] by auto
  assume "\<not> is_digit (hd s)"
  then have "b = 43" using s by auto
  then show False
    using n s by (simp add: skip_value_def parse_value_def parse_value_depth.simps is_digit_def)
qed

lemma find_info_loop_slice:
  assumes "bencodes_entries d prev x kvs"
    and "input = pre @ x @ [101]" "find_info_loop input (length pre) = Inr sl"
  shows "\<exists>v p q. (ascii ''info'', v) \<in> set kvs \<and> bencodes d sl v \<and> input = p @ sl @ q"
  using assms
proof (induction kvs arbitrary: prev x pre rule: list.induct)
  case Nil
  then have "input ! length pre = 101" "length pre < length input"
    by (auto elim: entries_NilE)
  with Nil.prems(3) show ?case by (simp add: find_info_loop.simps [of input "length pre"])
next
  case (Cons kv kvs)
  obtain k v where kv: "kv = (k, v)" by fastforce
  from Cons.prems(1) obtain s y z where x: "x = s @ 58 # k @ y @ z"
    and s: "len_lit s (length k)" and y: "bencodes d y v" and z: "bencodes_entries d (Some k) z kvs"
    unfolding kv by (auto elim: entries_ConsE)
  have inp: "input = pre @ s @ 58 # k @ y @ z @ [101]" using Cons.prems(2) x by simp
  note round = find_info_loop_step [OF s find_info_loop_key_digit [OF s inp Cons.prems(3)] y inp]
  show ?case
  proof (cases "k = ascii ''info''")
    case True
    then show ?thesis using round y inp kv Cons.prems(3)
      by (intro exI [of _ v] exI [of _ "pre @ s @ 58 # k"] exI [of _ "z @ [101]"]) auto
  next
    case False
    have "input = (pre @ s @ 58 # k @ y) @ z @ [101]" using inp by simp
    from Cons.IH [OF z this] round False Cons.prems(3) show ?thesis by (auto simp: kv)
  qed
qed

lemma compute_info_hash_slice:
  assumes "parse_all input = Inr (BDict kvs)" "compute_info_hash sha1 input = Inr h"
  shows "\<exists>v sl p q. btree_get kvs (ascii ''info'') = Some v \<and> input = p @ sl @ q \<and>
    parse_all sl = Inr v \<and> h = sha1 sl"
proof -
  obtain x where x: "input = [100] @ x @ [101]" "bencodes_entries (Suc 0) None x kvs"
    using assms(1) by (auto simp: parse_all_bencodes elim: bencodes_DictE)
  obtain sl where sl: "find_info_loop input 1 = Inr sl" "h = sha1 sl"
    using assms(2) by (auto simp: compute_info_hash_def find_info_slice_def split: if_splits)
  obtain v p q where v: "(ascii ''info'', v) \<in> set kvs" "bencodes (Suc 0) sl v"
      "input = p @ sl @ q"
    using find_info_loop_slice [OF x(2,1)] sl by auto
  have "wf_entries None kvs"
    using assms(1) bencodes_wf(1) [of 0 input "BDict kvs"] by (simp add: parse_all_bencodes)
  then have "btree_get kvs (ascii ''info'') = Some v"
    using v(1) wf_entries_btree_ok [of None kvs] by (simp add: btree_get_iff)
  moreover have "parse_all sl = Inr v"
    using bencodes_shallower(1) [OF v(2)] by (simp add: parse_all_bencodes)
  ultimately show ?thesis using v(3) sl(2) by blast
qed

text \<open>On canonically written entries the loop finds the \<open>info\<close> value.\<close>

lemma find_info_loop_write:
  assumes "wf_entries prev kvs" "bdepth_entries kvs \<le> MAX_DEPTH"
    and "btree_get kvs (ascii ''info'') = Some v"
  shows "find_info_loop (pre @ write_entries kvs @ r) (length pre) = Inr (write_into v)"
  using assms
proof (induction kvs arbitrary: prev pre)
  case Nil
  then show ?case by (simp add: btree_get_def)
next
  case (Cons kv kvs)
  obtain k w where kv: "kv = (k, w)" by fastforce
  have w: "bencodes 0 (write_into w) w"
    using write_bencodes(1) [of w] Cons.prems(1,2) by (simp add: kv)
  have lit: "len_lit (show_nat (length k)) (length k)" "is_digit (hd (show_nat (length k)))"
    using Cons.prems(1) show_nat_Cons [of "length k"]
    by (auto simp: kv len_lit_def parse_usize_show_nat)
  have "find_info_loop (pre @ write_entries (kv # kvs) @ r) (length pre) =
      (if k = ascii ''info'' then Inr (write_into w)
       else find_info_loop ((pre @ show_nat (length k) @ 58 # k @ write_into w) @ write_entries kvs @ r)
         (length (pre @ show_nat (length k) @ 58 # k @ write_into w)))"
    by (subst find_info_loop_step [OF lit w, where pre = pre and z = "write_entries kvs @ r"])
      (simp_all add: kv)
  then show ?case
    using Cons.prems Cons.IH [of "Some k" "pre @ show_nat (length k) @ 58 # k @ write_into w"]
    by (auto simp: kv btree_get_def split: if_splits)
qed

lemma torrent_from_bytes_to_bytes:
  assumes "wf_bvalue (BDict kvs)" "bdepth (BDict kvs) \<le> MAX_DEPTH"
    and "btree_get kvs (ascii ''info'') = Some v"
  shows "torrent_from_bytes sha1 (to_bytes (BDict kvs)) = torrent_from_value (BDict kvs) (sha1 (to_bytes v))"
  using find_info_loop_write [of None kvs v "[100]" "[101]"] assms parse_to_bytes [of "BDict kvs"]
  by (simp add: torrent_from_bytes_def compute_info_hash_def find_info_slice_def to_bytes_def ascii_def)

section \<open>Accepted metainfo is well formed\<close>

definition normal_path :: "path \<Rightarrow> bool" where
  "normal_path p \<longleftrightarrow> list_all (\<lambda>c. \<exists>n. c = Normal n) (components p)"

fun safe_files :: "torrent_files \<Rightarrow> bool" where
  "safe_files (Single _) = True"
| "safe_files (Multi fs) = list_all (\<lambda>f. normal_path (fe_path f)) fs"

definition wf_info :: "info \<Rightarrow> bool" where
  "wf_info i \<longleftrightarrow>
     0 < ti_piece_length i \<and> ti_piece_length i \<le> MAX_PIECE_LENGTH \<and>
     \<not> is_unsafe_path_component (ti_name i) \<and> safe_files (ti_files i) \<and>
     list_all (\<lambda>h. length h = 20) (ti_piece_hashes i) \<and>
     (\<exists>total. files_total (ti_files i) = Inr total \<and> 0 < total \<and> total \<le> u64_max \<and>
        length (ti_piece_hashes i) = div_ceil total (ti_piece_length i))"

lemma safe_component: "\<not> is_unsafe_path_component s \<Longrightarrow> components s = [Normal s]"
  by (rule components_plain) (auto simp: is_unsafe_path_component_def ascii_def)

lemma normal_path_Nil [simp]: "normal_path []"
  by (simp add: normal_path_def components_def seg_component_def)

lemma normal_path_join:
  "normal_path p \<Longrightarrow> \<not> is_unsafe_path_component s \<Longrightarrow> normal_path (path_join p s)"
  using components_join_normal [of s p] by (simp add: normal_path_def safe_component)

lemma path_segments_normal: "path_segments p segs = Inr q \<Longrightarrow> normal_path p \<Longrightarrow> normal_path q"
  by (induction p segs rule: path_segments.induct) (auto split: if_splits intro: normal_path_join)

lemma file_entry_from_normal: "file_entry_from fv = Inr f \<Longrightarrow> normal_path (fe_path f)"
  by (auto simp: file_entry_from_def dest: path_segments_normal)

lemma files_from_safe: "files_from d = Inr fs \<Longrightarrow> safe_files fs"
  by (auto simp: files_from_def rmapM_Inr_iff list_all2_conv_all_nth list_all_length
      split: option.splits dest!: file_entry_from_normal)

lemma wf_entries_value: "wf_entries prev m \<Longrightarrow> (k, v) \<in> set m \<Longrightarrow> wf_bvalue v"
  by (induction m arbitrary: prev) auto

lemma wf_dict_get: "wf_bvalue (BDict d) \<Longrightarrow> btree_get d k = Some v \<Longrightarrow> wf_bvalue v"
  by (auto simp: btree_get_def dest!: map_of_SomeD dest: wf_entries_value)

lemma as_dict_Inr [simp]: "as_dict v = Inr d \<longleftrightarrow> v = BDict d"
  by (cases v) auto

lemma as_int_Inr [simp]: "as_int v = Inr i \<longleftrightarrow> v = BInt i"
  by (cases v) auto

lemma as_bytes_Inr [simp]: "as_bytes v = Inr b \<longleftrightarrow> v = BBytes b"
  by (cases v) auto

lemma as_list_Inr [simp]: "as_list v = Inr xs \<longleftrightarrow> v = BList xs"
  by (cases v) auto

lemma files_total_bound:
  assumes "files_from d = Inr fs" "wf_bvalue (BDict d)" "files_total fs = Inr n"
  shows "n \<le> u64_max"
proof (cases fs)
  case (Single len)
  then show ?thesis
    using assms wf_dict_get [OF assms(2), of "ascii ''length''"]
    by (auto simp: files_from_def u64_try_from_def split: option.splits if_splits)
next
  case (Multi es)
  then show ?thesis using assms(3) sum_u64_bound by fastforce
qed

lemma info_from_value_wf:
  assumes "info_from_value v = Inr i" "wf_bvalue v"
  shows "wf_info i"
  using assms
  by (auto simp: info_from_value_def wf_info_def Let_def list_all_iff chunks_length
      files_from_safe files_total_bound)

lemma parse_all_wf_bvalue: "parse_all input = Inr v \<Longrightarrow> wf_bvalue v"
  using bencodes_wf(1) [of 0 input v] by (simp add: parse_all_bencodes)

lemma push_new_props:
  "distinct out \<Longrightarrow> distinct (push_new out u)" "set (push_new out u) = insert u (set out)"
  by (auto simp: push_new_def)

lemma foldl_push_new:
  "distinct out \<Longrightarrow> distinct (foldl push_new out us) \<and> set (foldl push_new out us) = set out \<union> set us"
  by (induction us arbitrary: out) (auto simp: push_new_props)

lemma foldl_foldl_push_new:
  "distinct out \<Longrightarrow> distinct (foldl (foldl push_new) out tiers) \<and>
     set (foldl (foldl push_new) out tiers) = set out \<union> (\<Union>tier \<in> set tiers. set tier)"
  by (induction tiers arbitrary: out) (auto simp: foldl_push_new)

lemma torrent_from_bytes_slice:
  assumes "torrent_from_bytes sha1 input = Inr t"
  obtains p sl q v where "input = p @ sl @ q" "parse_all sl = Inr v"
    "tf_info_hash t = sha1 sl" "info_from_value v = Inr (tf_info t)"
proof -
  obtain kvs h where root: "parse_all input = Inr (BDict kvs)"
      and h: "compute_info_hash sha1 input = Inr h"
      and t: "torrent_from_value (BDict kvs) h = Inr t"
    using assms by (auto simp: torrent_from_bytes_def torrent_from_value_def)
  obtain v sl p q where "btree_get kvs (ascii ''info'') = Some v" "input = p @ sl @ q"
      "parse_all sl = Inr v" "h = sha1 sl"
    using compute_info_hash_slice [OF root h] by blast
  moreover from this(1) t have "tf_info_hash t = h" "info_from_value v = Inr (tf_info t)"
    by (auto simp: torrent_from_value_def)
  ultimately show thesis using that by blast
qed

text \<open>A one-file torrent, for the examples below.\<close>

definition sample_info :: bvalue where
  "sample_info = BDict [(ascii ''length'', BInt 5), (ascii ''name'', BBytes (ascii ''a'')),
     (ascii ''piece length'', BInt 4), (ascii ''pieces'', BBytes (replicate 40 7))]"

definition sample_root :: bvalue where
  "sample_root = BDict [(ascii ''announce'', BBytes (ascii ''u:1'')), (ascii ''info'', sample_info)]"

definition toy_sha1 :: "bytes \<Rightarrow> bytes" where
  "toy_sha1 b = replicate 20 (of_nat (length b))"

definition sample_decoded :: info where
  "sample_decoded = \<lparr>ti_name = ascii ''a'', ti_piece_length = 4,
     ti_piece_hashes = [replicate 20 7, replicate 20 7], ti_files = Single 5, ti_private = False\<rparr>"

lemma sample_info_ok: "info_from_value sample_info = Inr sample_decoded"
proof -
  have "replicate 40 7 = replicate 20 (7 :: u8) @ replicate 20 7 @ []"
    by (simp flip: replicate_add)
  then have "chunks 20 (replicate 40 (7 :: u8)) = [replicate 20 7, replicate 20 7]"
    by (simp only: chunks_append length_replicate) simp
  moreover have "\<not> is_unsafe_path_component (ascii ''a'')" "utf8_valid (ascii ''a'')" by code_simp+
  ultimately show ?thesis
    by (simp add: info_from_value_def sample_info_def sample_decoded_def files_from_def as_str_def
        private_from_def btree_get_def u64_try_from_def MAX_PIECE_LENGTH_def div_ceil_def)
qed

lemma sample_root_ok:
  "torrent_from_bytes toy_sha1 (to_bytes sample_root) = Inr
     \<lparr>tf_info_hash = toy_sha1 (to_bytes sample_info), tf_announce = Some (ascii ''u:1''),
      tf_announce_list = [], tf_info = sample_decoded\<rparr>"
proof -
  have "wf_bvalue sample_root" "bdepth sample_root \<le> MAX_DEPTH"
    by (simp_all add: sample_root_def sample_info_def ascii_def MAX_DEPTH_def)
  moreover have "utf8_valid (ascii ''u:1'')" by code_simp
  ultimately show ?thesis
    using torrent_from_bytes_to_bytes [of _ sample_info toy_sha1] sample_info_ok
    by (simp add: sample_root_def btree_get_def torrent_from_value_def announce_from_def
        announce_list_from_def as_str_def)
qed

lemma sample_info_bytes:
  "from_info_dict_bytes toy_sha1 (to_bytes sample_info) (toy_sha1 (to_bytes sample_info)) [] = Inr
     \<lparr>tf_info_hash = toy_sha1 (to_bytes sample_info), tf_announce = None,
      tf_announce_list = [], tf_info = sample_decoded\<rparr>"
proof -
  have "wf_bvalue sample_info" "bdepth sample_info \<le> MAX_DEPTH"
    by (simp_all add: sample_info_def ascii_def MAX_DEPTH_def)
  then show ?thesis by (simp add: from_info_dict_bytes_def parse_to_bytes sample_info_ok)
qed

text \<open>
  Three files of the largest length bencode can spell: a parseable \<open>info\<close> dictionary on which the
  sum of the lengths, taken before any check of the piece count, overflows \<open>u64\<close>.
\<close>

definition overflow_info :: bvalue where
  "overflow_info =
     (let f = BDict [(ascii ''length'', BInt i64_max), (ascii ''path'', BList [BBytes (ascii ''f'')])]
      in BDict [(ascii ''files'', BList [f, f, f]), (ascii ''name'', BBytes (ascii ''a'')),
        (ascii ''piece length'', BInt 4), (ascii ''pieces'', BBytes [])])"

lemma overflow_info_panics:
  "parse_all (to_bytes overflow_info) = Inr overflow_info"
  "info_from_value overflow_info = Inl (Panic ''attempt to add with overflow'')"
proof -
  have "wf_bvalue overflow_info" "bdepth overflow_info \<le> MAX_DEPTH"
    by (simp_all add: overflow_info_def Let_def ascii_def MAX_DEPTH_def)
  then show "parse_all (to_bytes overflow_info) = Inr overflow_info" by (rule parse_to_bytes)
  have "\<not> is_unsafe_path_component (ascii ''a'')" "\<not> is_unsafe_path_component (ascii ''f'')"
    "utf8_valid (ascii ''a'')" "utf8_valid (ascii ''f'')" by code_simp+
  then show "info_from_value overflow_info = Inl (Panic ''attempt to add with overflow'')"
    by (simp add: info_from_value_def overflow_info_def Let_def files_from_def as_str_def
        file_entry_from_def btree_get_def u64_try_from_def MAX_PIECE_LENGTH_def)
qed

section \<open>Properties\<close>

text \<open>
  C2: when a \<open>.torrent\<close> is accepted, its info-hash is the SHA-1 of a contiguous slice of the input
  bytes that is itself one complete bencoded value, and the decoded \<open>Info\<close> is what that very value
  says: the hash identifies exactly the metadata in use, as the raw bytes spelled it.
\<close>

theorem torrent_info_hash_slice:
  assumes "torrent_from_bytes sha1 input = Inr t"
  shows "\<exists>p sl q v. input = p @ sl @ q \<and> parse_all sl = Inr v \<and>
    tf_info_hash t = sha1 sl \<and> info_from_value v = Inr (tf_info t)"
  by (rule torrent_from_bytes_slice [OF assms]) blast

theorem torrent_info_hash_slice_witness:
  "\<exists>p sl q v. to_bytes sample_root = p @ sl @ q \<and> parse_all sl = Inr v \<and>
     toy_sha1 (to_bytes sample_info) = toy_sha1 sl \<and> info_from_value v = Inr sample_decoded"
  using torrent_info_hash_slice [OF sample_root_ok] by (simp only: torrent_file.select_convs)

text \<open>
  C3: every accepted \<open>.torrent\<close> has a piece length between 1 byte and 1 GiB, 20-byte piece hashes, as
  many of them as the total length needs, a total length that is positive and fits \<open>u64\<close>, and a name
  and file paths made of plain components only, so that no path leaves the download directory.
\<close>

theorem torrent_from_bytes_wf:
  assumes "torrent_from_bytes sha1 input = Inr t"
  shows "wf_info (tf_info t)"
  by (rule torrent_from_bytes_slice [OF assms]) (auto intro: info_from_value_wf parse_all_wf_bvalue)

theorem torrent_from_bytes_wf_witness:
  "wf_info sample_decoded"
  using torrent_from_bytes_wf [OF sample_root_ok] by (simp only: torrent_file.select_convs)

text \<open>
  Metadata fetched from peers for a magnet link is accepted only when its SHA-1 is the info-hash
  the link named; the torrent it then yields carries that info-hash and a well-formed \<open>Info\<close>.
\<close>

theorem from_info_dict_bytes_authentic:
  assumes "from_info_dict_bytes sha1 b expected trs = Inr t"
  shows "sha1 b = expected \<and> tf_info_hash t = expected \<and> wf_info (tf_info t)"
  using assms
  by (auto simp: from_info_dict_bytes_def split: if_splits intro: info_from_value_wf parse_all_wf_bvalue)

theorem from_info_dict_bytes_authentic_witness:
  "toy_sha1 (to_bytes sample_info) = toy_sha1 (to_bytes sample_info) \<and> wf_info sample_decoded"
  using from_info_dict_bytes_authentic [OF sample_info_bytes] by simp

text \<open>
  The tracker list of a torrent holds every URL of the announce list and the main announce URL,
  each exactly once.
\<close>

theorem trackers_complete:
  "distinct (trackers t) \<and>
   set (trackers t) = (\<Union>tier \<in> set (tf_announce_list t). set tier) \<union> set_option (tf_announce t)"
  using foldl_foldl_push_new [of "[]" "tf_announce_list t"]
  by (cases "tf_announce t") (simp_all add: trackers_def Let_def push_new_props)

end
