(* ===== verification/RT_Stream.thy ===== *)
theory RT_Stream
  imports RT_Prelude
begin

text \<open>
  One end of a byte stream (\<open>AsyncRead + AsyncWrite\<close>): the bytes the other side will have sent before
  it closes, the bytes written so far, and whether the connection still accepts writes.
\<close>

record stream =
  s_in :: bytes
  s_out :: bytes
  s_writable :: bool

type_synonym 'a io = "(stream, 'a) step"

definition read_exact :: "'e \<Rightarrow> nat \<Rightarrow> (stream, 'e, bytes) estep" where
  "read_exact e n s =
     (if length (s_in s) < n then (Inl e, s\<lparr>s_in := []\<rparr>)
      else (Inr (take n (s_in s)), s\<lparr>s_in := drop n (s_in s)\<rparr>))"

definition write_all :: "'e \<Rightarrow> bytes \<Rightarrow> (stream, 'e, unit) estep" where
  "write_all e bs s =
     (if s_writable s then (Inr (), s\<lparr>s_out := s_out s @ bs\<rparr>) else (Inl e, s))"

lemma read_exact_Inr [io_simps]:
  "read_exact e n s = (Inr x, s') \<longleftrightarrow>
     (\<exists>r. s_in s = x @ r \<and> length x = n \<and> s' = s\<lparr>s_in := r\<rparr>)"
proof
  assume "read_exact e n s = (Inr x, s')"
  then show "\<exists>r. s_in s = x @ r \<and> length x = n \<and> s' = s\<lparr>s_in := r\<rparr>"
    by (intro exI [of _ "drop n (s_in s)"]) (auto simp: read_exact_def split: if_splits)
qed (auto simp: read_exact_def)

lemma write_all_Inr [io_simps]:
  "write_all e bs s = (Inr u, s') \<longleftrightarrow> s_writable s \<and> s' = s\<lparr>s_out := s_out s @ bs\<rparr>"
  by (auto simp: write_all_def)

lemma read_exact_append:
  "s_in s = x @ r \<Longrightarrow> length x = n \<Longrightarrow> read_exact e n s = (Inr x, s\<lparr>s_in := r\<rparr>)"
  by (simp add: read_exact_def)

text \<open>Steps that only read leave what was written alone.\<close>

definition reads_only :: "'a io \<Rightarrow> bool" where
  "reads_only m \<longleftrightarrow> (\<forall>s. s_out (snd (m s)) = s_out s \<and> s_writable (snd (m s)) = s_writable s)"

lemma reads_only_basic [simp, intro]:
  "reads_only (io_return x)" "reads_only (io_fail e)" "reads_only (io_lift r)"
  "reads_only (read_exact e n)"
  by (simp_all add: reads_only_def io_return_def io_fail_def io_lift_def read_exact_def)

lemma reads_only_bind [intro]:
  "reads_only m \<Longrightarrow> (\<And>x. reads_only (f x)) \<Longrightarrow> reads_only (io_bind m f)"
  unfolding reads_only_def
proof
  fix s
  assume m: "\<forall>s. s_out (snd (m s)) = s_out s \<and> s_writable (snd (m s)) = s_writable s"
    and f: "\<And>x. \<forall>s. s_out (snd (f x s)) = s_out s \<and> s_writable (snd (f x s)) = s_writable s"
  obtain r s' where "m s = (r, s')" by fastforce
  with m [THEN spec, of s] f show
    "s_out (snd (io_bind m f s)) = s_out s \<and> s_writable (snd (io_bind m f s)) = s_writable s"
    by (cases r) (simp_all add: io_bind_def)
qed

end
