(* ===== verification/RT_Message.thy ===== *)
theory RT_Message
  imports RT_Stream
begin

text \<open>
  The peer wire protocol of \<open>peer/message.rs\<close>: the messages, their encoder and decoder, the framing
  over a byte stream, and the bitfield conversion. The bit vector of the \<open>bitvec\<close> crate is a list of
  booleans; \<open>BitVec::from_slice\<close> is a parameter with its documented most-significant-bit-first layout
  as a hypothesis.
\<close>

definition BLOCK_SIZE :: nat where
  "BLOCK_SIZE = 16384"

datatype message =
    KeepAlive
  | Choke
  | Unchoke
  | Interested
  | NotInterested
  | Have u32
  | Bitfield bytes
  | Request u32 u32 u32
  | Piece u32 u32 bytes
  | Cancel u32 u32 u32
  | Extended u8 bytes
  | HaveAll
  | HaveNone
  | RejectRequest u32 u32 u32
  | AllowedFast u32
  | SuggestPiece u32

definition ID_CHOKE :: u8 where "ID_CHOKE = 0"
definition ID_UNCHOKE :: u8 where "ID_UNCHOKE = 1"
definition ID_INTERESTED :: u8 where "ID_INTERESTED = 2"
definition ID_NOT_INTERESTED :: u8 where "ID_NOT_INTERESTED = 3"
definition ID_HAVE :: u8 where "ID_HAVE = 4"
definition ID_BITFIELD :: u8 where "ID_BITFIELD = 5"
definition ID_REQUEST :: u8 where "ID_REQUEST = 6"
definition ID_PIECE :: u8 where "ID_PIECE = 7"
definition ID_CANCEL :: u8 where "ID_CANCEL = 8"
definition ID_EXTENDED :: u8 where "ID_EXTENDED = 20"
definition ID_SUGGEST :: u8 where "ID_SUGGEST = 13"
definition ID_HAVE_ALL :: u8 where "ID_HAVE_ALL = 14"
definition ID_HAVE_NONE :: u8 where "ID_HAVE_NONE = 15"
definition ID_REJECT :: u8 where "ID_REJECT = 16"
definition ID_ALLOWED_FAST :: u8 where "ID_ALLOWED_FAST = 17"

lemmas message_ids =
  ID_CHOKE_def ID_UNCHOKE_def ID_INTERESTED_def ID_NOT_INTERESTED_def ID_HAVE_def ID_BITFIELD_def
  ID_REQUEST_def ID_PIECE_def ID_CANCEL_def ID_EXTENDED_def ID_SUGGEST_def ID_HAVE_ALL_def
  ID_HAVE_NONE_def ID_REJECT_def ID_ALLOWED_FAST_def

section \<open>Encoding and decoding\<close>

text \<open>The length is cast with \<open>as u32\<close>, which keeps the low 32 bits.\<close>

definition tag :: "u8 \<Rightarrow> bytes \<Rightarrow> bytes" where
  "tag id' payload = be32 (of_nat (1 + length payload)) @ id' # payload"

fun msg_encode :: "message \<Rightarrow> bytes" where
  "msg_encode KeepAlive = be32 0"
| "msg_encode Choke = tag ID_CHOKE []"
| "msg_encode Unchoke = tag ID_UNCHOKE []"
| "msg_encode Interested = tag ID_INTERESTED []"
| "msg_encode NotInterested = tag ID_NOT_INTERESTED []"
| "msg_encode (Have i) = tag ID_HAVE (be32 i)"
| "msg_encode (Bitfield b) = tag ID_BITFIELD b"
| "msg_encode (Request index begin' length') = tag ID_REQUEST (be32 index @ be32 begin' @ be32 length')"
| "msg_encode (Piece index begin' data) = tag ID_PIECE (be32 index @ be32 begin' @ data)"
| "msg_encode (Cancel index begin' length') = tag ID_CANCEL (be32 index @ be32 begin' @ be32 length')"
| "msg_encode (Extended ext_id payload) = tag ID_EXTENDED (ext_id # payload)"
| "msg_encode HaveAll = tag ID_HAVE_ALL []"
| "msg_encode HaveNone = tag ID_HAVE_NONE []"
| "msg_encode (RejectRequest index begin' length') =
     tag ID_REJECT (be32 index @ be32 begin' @ be32 length')"
| "msg_encode (AllowedFast i) = tag ID_ALLOWED_FAST (be32 i)"
| "msg_encode (SuggestPiece i) = tag ID_SUGGEST (be32 i)"

definition ensure_empty :: "bytes \<Rightarrow> unit res" where
  "ensure_empty p = (if p \<noteq> [] then Inl (Network ''expected empty payload, got '') else Inr ())"

definition decode_index_begin_length :: "bytes \<Rightarrow> u8 \<Rightarrow> message res" where
  "decode_index_begin_length p id' =
     (if length p \<noteq> 12 then Inl (Network ''request/cancel payload '')
      else let index = be32_at p 0; begin' = be32_at p 4; length' = be32_at p 8 in
        if id' = ID_CANCEL then Inr (Cancel index begin' length')
        else Inr (Request index begin' length'))"

definition msg_decode :: "bytes \<Rightarrow> message res" where
  "msg_decode frame =
     (case frame of
        [] \<Rightarrow> Inr KeepAlive
      | id' # p \<Rightarrow>
          if id' = ID_CHOKE then rbind (ensure_empty p) (\<lambda>_. Inr Choke)
          else if id' = ID_UNCHOKE then rbind (ensure_empty p) (\<lambda>_. Inr Unchoke)
          else if id' = ID_INTERESTED then rbind (ensure_empty p) (\<lambda>_. Inr Interested)
          else if id' = ID_NOT_INTERESTED then rbind (ensure_empty p) (\<lambda>_. Inr NotInterested)
          else if id' = ID_HAVE then
            if length p \<noteq> 4 then Inl (Network ''have payload '') else Inr (Have (be32_at p 0))
          else if id' = ID_BITFIELD then Inr (Bitfield p)
          else if id' = ID_REQUEST then decode_index_begin_length p ID_REQUEST
          else if id' = ID_PIECE then
            if length p < 8 then Inl (Network ''piece short: '')
            else Inr (Piece (be32_at p 0) (be32_at p 4) (drop 8 p))
          else if id' = ID_CANCEL then decode_index_begin_length p ID_CANCEL
          else if id' = ID_EXTENDED then
            case p of [] \<Rightarrow> Inl (Network ''extended payload empty'')
            | ext_id # payload \<Rightarrow> Inr (Extended ext_id payload)
          else if id' = ID_HAVE_ALL then rbind (ensure_empty p) (\<lambda>_. Inr HaveAll)
          else if id' = ID_HAVE_NONE then rbind (ensure_empty p) (\<lambda>_. Inr HaveNone)
          else if id' = ID_REJECT then
            if length p \<noteq> 12 then Inl (Network ''reject payload '')
            else Inr (RejectRequest (be32_at p 0) (be32_at p 4) (be32_at p 8))
          else if id' = ID_ALLOWED_FAST \<or> id' = ID_SUGGEST then
            if length p \<noteq> 4 then Inl (Network ''fast extension piece index payload '')
            else if id' = ID_ALLOWED_FAST then Inr (AllowedFast (be32_at p 0))
            else Inr (SuggestPiece (be32_at p 0))
          else Inl (Network ''unknown message id ''))"

section \<open>Framing\<close>

definition read_frame :: "u32 \<Rightarrow> bytes io" where
  "read_frame max_len =
     io_bind (read_exact (Network ''frame len: '') 4) (\<lambda>len_buf.
     let len = be32_at len_buf 0 in
     if len = 0 then io_return []
     else if len > max_len then io_fail (Network ''frame too large: '')
     else read_exact (Network ''frame body: '') (unat len))"

text \<open>The variant with a buffer of the caller: the result is the buffer on return.\<close>

definition read_frame_into :: "u32 \<Rightarrow> bytes \<Rightarrow> bytes io" where
  "read_frame_into max_len buf =
     io_bind (read_exact (Network ''frame len: '') 4) (\<lambda>len_buf.
     let len = be32_at len_buf 0 in
     if len > max_len then io_fail (Network ''frame too large: '')
     else if len = 0 then io_return (take 0 buf)
     else let buf' = replicate (unat len) (0 :: u8)
       in read_exact (Network ''frame body: '') (length buf'))"

definition write_frame :: "bytes \<Rightarrow> unit io" where
  "write_frame payload =
     write_all (Network ''frame write: '') (be32 (of_nat (length payload)) @ payload)"

definition write_message :: "message \<Rightarrow> unit io" where
  "write_message msg =
     (case msg of
        Piece index begin' data \<Rightarrow>
          let body_len = 1 + 8 + length data in
          write_all (Network ''frame write: '')
            (be32 (of_nat body_len) @ [ID_PIECE] @ be32 index @ be32 begin' @ data)
      | _ \<Rightarrow> write_all (Network ''frame write: '') (msg_encode msg))"

text \<open>One round of the read loop of a connection: a frame, then its decoding.\<close>

definition read_message :: "u32 \<Rightarrow> bytes \<Rightarrow> message io" where
  "read_message max_len buf = io_bind (read_frame_into max_len buf) (\<lambda>frame. io_lift (msg_decode frame))"

section \<open>Bitfields\<close>

definition set_msb0 :: "bytes \<Rightarrow> nat \<Rightarrow> bytes" where
  "set_msb0 bs i = bs[i div 8 := bs ! (i div 8) OR drop_bit (i mod 8) 0x80]"

definition bitfield_to_bytes :: "bool list \<Rightarrow> bytes" where
  "bitfield_to_bytes bf =
     foldl (\<lambda>bs i. if bf ! i then set_msb0 bs i else bs) (replicate (div_ceil (length bf) 8) 0)
       [0..<length bf]"

definition bitfield_from_bytes :: "(bytes \<Rightarrow> bool list) \<Rightarrow> bytes \<Rightarrow> nat \<Rightarrow> bool list res" where
  "bitfield_from_bytes from_slice bs num_pieces =
     (let expected_bytes = div_ceil num_pieces 8 in
      if length bs \<noteq> expected_bytes then Inl (Network ''bitfield '')
      else
        let out = take num_pieces (from_slice bs);
            extra_bits = expected_bytes * 8 - num_pieces in
        if extra_bits > 0 \<and> (bs ! (expected_bytes - 1)) AND (push_bit extra_bits 1 - 1) \<noteq> 0
        then Inl (Network ''bitfield spare bits not zero'')
        else Inr out)"

text \<open>What \<open>bitvec\<close> documents of \<open>BitVec<u8, Msb0>::from_slice\<close>.\<close>

definition msb0_layout :: "(bytes \<Rightarrow> bool list) \<Rightarrow> bool" where
  "msb0_layout from_slice \<longleftrightarrow>
     (\<forall>bs. length (from_slice bs) = 8 * length bs \<and>
       (\<forall>i < 8 * length bs. from_slice bs ! i = bit (bs ! (i div 8)) (7 - i mod 8)))"

section \<open>The decoder inverts the encoder\<close>

lemma be32_split1: "length p = 4 \<Longrightarrow> be32 (be32_at p 0) = p"
  by (simp add: be32_be32_at)

lemma be32_at_drop: "be32_at (drop n p) 0 = be32_at p n" if "n \<le> length p"
  using be32_at_append [of "take n p" n "drop n p" 0] that by simp

lemma be32_split2: "8 \<le> length p \<Longrightarrow> be32 (be32_at p 0) @ be32 (be32_at p 4) @ drop 8 p = p"
proof -
  assume len: "8 \<le> length p"
  have "be32 (be32_at p 0) = take 4 p" "be32 (be32_at p 4) = take 4 (drop 4 p)"
    using len be32_be32_at [of "drop 4 p"] by (simp_all add: be32_be32_at be32_at_drop)
  moreover have "take 4 p @ take 4 (drop 4 p) @ drop 8 p = p"
    by (metis add_numeral_left append_take_drop_id drop_drop numeral_Bit0)
  ultimately show ?thesis by simp
qed

lemma be32_split3:
  "length p = 12 \<Longrightarrow> be32 (be32_at p 0) @ be32 (be32_at p 4) @ be32 (be32_at p 8) = p"
  using be32_split2 [of p] be32_split1 [of "drop 8 p"] be32_at_drop [of 8 p] by simp

lemma be32_at_triple [simp]:
  "be32_at (be32 a @ be32 b @ xs) 4 = b" "be32_at (be32 a @ be32 b @ be32 c) 8 = c"
  using be32_at_append [of "be32 a" 4 "be32 b @ xs" 0] be32_at_append [of "be32 a @ be32 b" 8 "be32 c" 0]
    be32_at_be32 [of c "[]"] by simp_all

lemma be32_at_single [simp]: "be32_at (be32 a) 0 = a"
  using be32_at_be32 [of a "[]"] by simp

lemma msg_decode_encode: "msg_decode (drop 4 (msg_encode m)) = Inr m"
  by (cases m) (simp_all add: msg_decode_def tag_def message_ids ensure_empty_def
      decode_index_begin_length_def Let_def)

lemma ensure_empty_Inr [simp]: "ensure_empty p = Inr u \<longleftrightarrow> p = []"
  by (simp add: ensure_empty_def)

lemma decode_index_begin_length_Inr:
  "decode_index_begin_length p id' = Inr m \<Longrightarrow>
     length p = 12 \<and> (\<exists>a b c. p = be32 a @ be32 b @ be32 c \<and>
       m = (if id' = ID_CANCEL then Cancel a b c else Request a b c))"
  using be32_split3 [of p] by (auto simp: decode_index_begin_length_def Let_def split: if_splits)

lemma msg_decode_canonical:
  assumes "msg_decode frame = Inr m"
  shows "msg_encode m = be32 (of_nat (length frame)) @ frame"
proof (cases frame)
  case Nil
  then show ?thesis using assms by (simp add: msg_decode_def)
next
  case (Cons id' p)
  have "msg_encode m = tag id' p"
    using assms unfolding Cons msg_decode_def list.case
    by (auto simp: be32_split1 be32_split2 be32_split3 split: if_splits list.splits
        dest!: decode_index_begin_length_Inr)
  then show ?thesis using Cons by (simp add: tag_def)
qed

lemma msg_encode_length: "\<exists>body. msg_encode m = be32 (of_nat (length body)) @ body \<and> msg_decode body = Inr m"
  using msg_decode_encode [of m]
  by (intro exI [of _ "drop 4 (msg_encode m)"]) (cases m; simp add: tag_def)

interpretation message: codec msg_encode "\<lambda>b. msg_decode (drop 4 b)" "\<lambda>_. True"
  by unfold_locales (simp add: msg_decode_encode)

section \<open>Frames over a stream\<close>

lemma read_frame_into_eq: "read_frame_into max_len buf = read_frame max_len"
  unfolding read_frame_into_def read_frame_def Let_def
  by (rule arg_cong [where f = "io_bind _"]) (auto simp: fun_eq_iff)

lemma write_message_eq: "write_message m = write_all (Network ''frame write: '') (msg_encode m)"
  by (cases m) (simp_all add: write_message_def tag_def)

lemma unat_of_nat_le: "n \<le> unat (w :: u32) \<Longrightarrow> unat (of_nat n :: u32) = n"
proof -
  assume "n \<le> unat w"
  moreover have "unat w < 2 ^ LENGTH(32)" by (rule unsigned_less)
  ultimately show ?thesis by (simp add: unat_of_nat)
qed

lemma read_frame_Inr:
  "read_frame max_len s = (Inr frame, s') \<longleftrightarrow>
     (\<exists>r. s_in s = be32 (of_nat (length frame)) @ frame @ r \<and> s' = s\<lparr>s_in := r\<rparr> \<and>
       length frame \<le> unat max_len)" (is "?L \<longleftrightarrow> ?R")
proof
  assume ?L
  then obtain lb r where lb: "s_in s = lb @ r" "length lb = 4"
    and rest: "(let len = be32_at lb 0 in if len = 0 then io_return []
      else if len > max_len then io_fail (Network ''frame too large: '')
      else read_exact (Network ''frame body: '') (unat len)) (s\<lparr>s_in := r\<rparr>) = (Inr frame, s')"
    by (auto simp: read_frame_def io_simps)
  have "unat (be32_at lb 0) \<le> unat max_len" if "\<not> be32_at lb 0 > max_len"
    using that by (simp add: word_le_nat_alt [symmetric])
  then show ?R using rest lb be32_split1 [of lb]
    by (auto simp: Let_def io_simps split: if_splits)
next
  assume ?R
  then obtain r where r: "s_in s = be32 (of_nat (length frame)) @ frame @ r" "s' = s\<lparr>s_in := r\<rparr>"
    and le: "length frame \<le> unat max_len" by blast
  have len: "unat (of_nat (length frame) :: u32) = length frame" using le by (rule unat_of_nat_le)
  then have "\<not> (of_nat (length frame) :: u32) > max_len" "of_nat (length frame) = (0 :: u32) \<longleftrightarrow> frame = []"
    using le by (auto simp: word_less_nat_alt unat_eq_0 simp flip: unat_eq_zero)
  then show ?L
    using r len by (simp add: read_frame_def io_bind_def read_exact_def io_return_def Let_def)
qed

lemma read_message_Inr:
  "read_message max_len buf s = (Inr m, s') \<longleftrightarrow>
     (\<exists>r. s_in s = msg_encode m @ r \<and> s' = s\<lparr>s_in := r\<rparr> \<and> length (msg_encode m) \<le> unat max_len + 4)"
proof
  assume "read_message max_len buf s = (Inr m, s')"
  then obtain frame r where "s_in s = be32 (of_nat (length frame)) @ frame @ r" "s' = s\<lparr>s_in := r\<rparr>"
    "length frame \<le> unat max_len" "msg_decode frame = Inr m"
    by (auto simp: read_message_def read_frame_into_eq io_simps read_frame_Inr)
  then show "\<exists>r. s_in s = msg_encode m @ r \<and> s' = s\<lparr>s_in := r\<rparr> \<and>
      length (msg_encode m) \<le> unat max_len + 4"
    by (simp add: msg_decode_canonical)
next
  assume "\<exists>r. s_in s = msg_encode m @ r \<and> s' = s\<lparr>s_in := r\<rparr> \<and>
      length (msg_encode m) \<le> unat max_len + 4"
  moreover obtain body where "msg_encode m = be32 (of_nat (length body)) @ body" "msg_decode body = Inr m"
    using msg_encode_length [of m] by blast
  ultimately have "read_frame max_len s = (Inr body, s')" "msg_decode body = Inr m"
    by (auto simp: read_frame_Inr)
  then show "read_message max_len buf s = (Inr m, s')"
    by (simp add: read_message_def read_frame_into_eq io_bind_def io_lift_def)
qed

text \<open>The writer's and the reader's loops, for a given sequence and count of messages.\<close>

fun send_messages :: "message list \<Rightarrow> unit io" where
  "send_messages [] = io_return ()"
| "send_messages (m # ms) = io_bind (write_message m) (\<lambda>_. send_messages ms)"

fun read_messages :: "u32 \<Rightarrow> nat \<Rightarrow> message list io" where
  "read_messages max_len 0 = io_return []"
| "read_messages max_len (Suc n) =
     io_bind (read_message max_len []) (\<lambda>m. io_bind (read_messages max_len n) (\<lambda>ms. io_return (m # ms)))"

lemma send_messages_out:
  "s_writable s \<Longrightarrow>
     send_messages ms s = (Inr (), s\<lparr>s_out := s_out s @ concat (map msg_encode ms)\<rparr>)"
  by (induction ms arbitrary: s) (simp_all add: io_return_def io_bind_def write_message_eq write_all_def)

lemma read_messages_Inr:
  "read_messages max_len n s = (Inr ms, s') \<longleftrightarrow>
     (\<exists>r. s_in s = concat (map msg_encode ms) @ r \<and> s' = s\<lparr>s_in := r\<rparr> \<and> length ms = n \<and>
       list_all (\<lambda>m. length (msg_encode m) \<le> unat max_len + 4) ms)"
proof (induction n arbitrary: s ms)
  case 0
  then show ?case by (auto simp: io_simps)
next
  case (Suc n)
  then show ?case
    by (cases ms) (fastforce simp: io_simps read_message_Inr)+
qed

section \<open>Bitfield bytes\<close>

lemma bit_msb0_mask: "r < 8 \<Longrightarrow> bit (drop_bit r (0x80 :: u8)) k \<longleftrightarrow> k = 7 - r"
proof -
  assume "r < 8"
  have "(0x80 :: u8) = 2 ^ 7" by simp
  then have "bit (0x80 :: u8) (r + k) \<longleftrightarrow> r + k = 7" by (simp only: bit_exp_iff) auto
  then show ?thesis using \<open>r < 8\<close> by (auto simp: bit_drop_bit_eq)
qed

text \<open>Bit \<open>i\<close> of a byte string, counting from the most significant bit of the first byte.\<close>

definition msb0_bit :: "bytes \<Rightarrow> nat \<Rightarrow> bool" where
  "msb0_bit bs i = bit (bs ! (i div 8)) (7 - i mod 8)"

lemma msb0_index: "r < 8 \<Longrightarrow> msb0_bit bs (8 * j + r) \<longleftrightarrow> bit (bs ! j) (7 - r)"
  by (simp add: msb0_bit_def)

lemma nat_eq_div_mod8: "(i :: nat) = j \<longleftrightarrow> i div 8 = j div 8 \<and> 7 - i mod 8 = 7 - j mod 8"
proof
  assume eq: "i div 8 = j div 8 \<and> 7 - i mod 8 = 7 - j mod 8"
  have "i mod 8 < 8" "j mod 8 < 8" by simp_all
  then have "i mod 8 = j mod 8" using eq by linarith
  then show "i = j" using eq by (metis div_mult_mod_eq)
qed simp

lemma length_set_msb0 [simp]: "length (set_msb0 bs i) = length bs"
  by (simp add: set_msb0_def)

lemma msb0_bit_set:
  "i < 8 * length bs \<Longrightarrow> msb0_bit (set_msb0 bs i) j \<longleftrightarrow> msb0_bit bs j \<or> j = i"
  unfolding nat_eq_div_mod8 [of j i] msb0_bit_def
  by (cases "j div 8 = i div 8") (auto simp: set_msb0_def bit_or_iff bit_msb0_mask less_mult_imp_div_less)

lemma bytes_eq_msb0:
  assumes "length bs = length cs"
  shows "bs = cs \<longleftrightarrow> (\<forall>i < 8 * length cs. msb0_bit bs i \<longleftrightarrow> msb0_bit cs i)"
proof
  assume eq: "\<forall>i < 8 * length cs. msb0_bit bs i \<longleftrightarrow> msb0_bit cs i"
  show "bs = cs"
  proof (rule nth_equalityI [OF assms], rule bit_word_eqI)
    fix j k :: nat
    assume jk: "j < length bs" "k < LENGTH(8)"
    then have "8 * j + (7 - k) < 8 * length cs" using assms by simp
    then show "bit (bs ! j) k \<longleftrightarrow> bit (cs ! j) k"
      using eq msb0_index [of "7 - k" bs j] msb0_index [of "7 - k" cs j] jk by simp
  qed
qed simp

lemma bitfield_loop:
  assumes "m \<le> length bf"
  defines "bs \<equiv> foldl (\<lambda>bs i. if bf ! i then set_msb0 bs i else bs)
    (replicate (div_ceil (length bf) 8) 0) [0..<m]"
  shows "length bs = div_ceil (length bf) 8 \<and>
    (\<forall>i < 8 * length bs. msb0_bit bs i \<longleftrightarrow> i < m \<and> bf ! i)"
  using assms(1) unfolding bs_def
proof (induction m)
  case 0
  then show ?case by (simp add: msb0_bit_def less_mult_imp_div_less mult.commute)
next
  case (Suc m)
  have "m < 8 * div_ceil (length bf) 8"
    using Suc.prems div_ceil_le_iff [of 8 "length bf" "div_ceil (length bf) 8"] by simp
  then show ?case using Suc by (auto simp: msb0_bit_set less_Suc_eq)
qed

lemma length_bitfield_to_bytes [simp]: "length (bitfield_to_bytes bf) = div_ceil (length bf) 8"
  using bitfield_loop [of "length bf" bf] by (simp add: bitfield_to_bytes_def)

lemma msb0_bitfield_to_bytes:
  "i < 8 * div_ceil (length bf) 8 \<Longrightarrow> msb0_bit (bitfield_to_bytes bf) i \<longleftrightarrow> i < length bf \<and> bf ! i"
  using bitfield_loop [of "length bf" bf] by (simp add: bitfield_to_bytes_def)

text \<open>The spare-bit test is true exactly when every bit past the last piece is clear.\<close>

lemma spare_mask: "e \<le> 7 \<Longrightarrow> (b :: u8) AND (push_bit e 1 - 1) = 0 \<longleftrightarrow> (\<forall>k < e. \<not> bit b k)"
proof -
  assume "e \<le> 7"
  have "b AND (push_bit e 1 - 1) = take_bit e b"
    by (simp add: take_bit_eq_mask mask_eq_exp_minus_1 push_bit_eq_mult)
  moreover have "take_bit e b = 0 \<longleftrightarrow> (\<forall>k < e. \<not> bit b k)"
    using \<open>e \<le> 7\<close> by (auto simp: bit_eq_iff bit_take_bit_iff)
  ultimately show ?thesis by simp
qed

lemma spare_bits:
  assumes "L = div_ceil n 8"
  shows "(\<exists>k < L * 8 - n. bit (bs ! (L - 1)) k) \<longleftrightarrow> (\<exists>i. n \<le> i \<and> i < 8 * L \<and> msb0_bit bs i)"
    (is "?A \<longleftrightarrow> ?B")
proof
  assume ?A
  then obtain k where k: "k < L * 8 - n" "bit (bs ! (L - 1)) k" by blast
  have "L \<noteq> 0" using k by (cases L) auto
  have "k < 8" using k bit_u8_beyond [of k "bs ! (L - 1)"] by (cases "k < 8") simp_all
  then have pos: "8 * (L - 1) + (7 - k) = 8 * L - 1 - k" using \<open>L \<noteq> 0\<close> by (cases L) simp_all
  have "msb0_bit bs (8 * (L - 1) + (7 - k))" using k \<open>k < 8\<close> by (subst msb0_index) simp_all
  then show ?B using k unfolding pos by (intro exI [of _ "8 * L - 1 - k"]) simp
next
  assume ?B
  then obtain i where i: "n \<le> i" "i < 8 * L" "msb0_bit bs i" by blast
  have "8 * (L - 1) \<le> i"
    using i assms less_div_ceil_iff [of 8 "L - 1" n] by (cases L) auto
  then have "i div 8 = L - 1" using i by (simp add: div_nat_eqI)
  then have "i mod 8 = i - 8 * (L - 1)" by (simp add: modulo_nat_def)
  then show ?A using i \<open>i div 8 = L - 1\<close> \<open>8 * (L - 1) \<le> i\<close>
    by (intro exI [of _ "7 - i mod 8"]) (auto simp: msb0_bit_def)
qed

lemma bitfield_iff:
  assumes layout: "msb0_layout from_slice"
  shows "bitfield_from_bytes from_slice bs n = Inr bf \<longleftrightarrow> length bf = n \<and> bitfield_to_bytes bf = bs"
proof (cases "length bs = div_ceil n 8")
  case False
  then show ?thesis by (auto simp: bitfield_from_bytes_def Let_def)
next
  case len: True
  have fs: "length (from_slice bs) = 8 * length bs"
    and fs_nth: "\<And>i. i < 8 * length bs \<Longrightarrow> from_slice bs ! i = msb0_bit bs i"
    using layout by (auto simp: msb0_layout_def msb0_bit_def)
  have n_le: "n \<le> 8 * length bs"
    using div_ceil_le_iff [of 8 n "div_ceil n 8"] by (simp add: len mult.commute)
  have e_le: "length bs * 8 - n \<le> 7"
    using less_div_ceil_iff [of 8 "length bs - 1" n] by (cases "length bs") (auto simp: len)
  have "bitfield_from_bytes from_slice bs n = Inr bf \<longleftrightarrow>
      (\<forall>i. n \<le> i \<and> i < 8 * length bs \<longrightarrow> \<not> msb0_bit bs i) \<and> bf = take n (from_slice bs)"
    using spare_mask [OF e_le, of "bs ! (length bs - 1)"] spare_bits [OF len, of bs]
    by (auto simp: bitfield_from_bytes_def Let_def simp flip: len)
  moreover have "bitfield_to_bytes bf = bs \<longleftrightarrow>
      (\<forall>i. n \<le> i \<and> i < 8 * length bs \<longrightarrow> \<not> msb0_bit bs i) \<and> bf = take n (from_slice bs)"
    if "length bf = n"
  proof -
    have "bitfield_to_bytes bf = bs \<longleftrightarrow> (\<forall>i < 8 * length bs. i < n \<and> bf ! i \<longleftrightarrow> msb0_bit bs i)"
      using bytes_eq_msb0 [of "bitfield_to_bytes bf" bs] msb0_bitfield_to_bytes [of _ bf] len that by simp
    also have "\<dots> \<longleftrightarrow> (\<forall>i. n \<le> i \<and> i < 8 * length bs \<longrightarrow> \<not> msb0_bit bs i) \<and>
        (\<forall>i < n. bf ! i \<longleftrightarrow> msb0_bit bs i)"
      using n_le by (metis leD leI less_le_trans)
    also have "(\<forall>i < n. bf ! i \<longleftrightarrow> msb0_bit bs i) \<longleftrightarrow> bf = take n (from_slice bs)"
      using n_le fs fs_nth that by (simp add: list_eq_iff_nth_eq)
    finally show ?thesis .
  qed
  ultimately show ?thesis using n_le fs by auto
qed

definition msb0_bits :: "bytes \<Rightarrow> bool list" where
  "msb0_bits bs = map (msb0_bit bs) [0..<8 * length bs]"

lemma msb0_bits_layout: "msb0_layout msb0_bits"
  by (simp add: msb0_layout_def msb0_bits_def msb0_bit_def)

section \<open>Properties\<close>

text \<open>
  C7: the decoder accepts a frame as message \<open>m\<close> exactly when the length prefix and that frame are the
  encoding of \<open>m\<close>: every message round-trips, and no two frames decode to the same message.
\<close>

theorem msg_decode_iff:
  "msg_decode frame = Inr m \<longleftrightarrow> msg_encode m = be32 (of_nat (length frame)) @ frame"
proof
  assume "msg_encode m = be32 (of_nat (length frame)) @ frame"
  then show "msg_decode frame = Inr m" using msg_decode_encode [of m] by simp
qed (rule msg_decode_canonical)

text \<open>
  One round of the connection's read loop returns \<open>m\<close> exactly when the stream starts with the
  encoding of \<open>m\<close> and the frame is within the limit; it then consumes exactly those bytes.
\<close>

theorem read_message_iff:
  "read_message max_len buf s = (Inr m, s') \<longleftrightarrow>
     (\<exists>r. s_in s = msg_encode m @ r \<and> s' = s\<lparr>s_in := r\<rparr> \<and> length (msg_encode m) \<le> unat max_len + 4)"
  by (rule read_message_Inr)

text \<open>
  A sequence of messages sent with \<open>write_message\<close> is read back by the other side as the same
  sequence, whatever follows in the stream, when each fits the receiver's frame limit.
\<close>

theorem message_transport:
  assumes "list_all (\<lambda>m. length (msg_encode m) \<le> unat max_len + 4) ms"
    and "send_messages ms \<lparr>s_in = i, s_out = [], s_writable = True\<rparr> = (Inr (), a)"
    and "s_in b = s_out a @ rest"
  shows "read_messages max_len (length ms) b = (Inr ms, b\<lparr>s_in := rest\<rparr>)"
  using assms by (auto simp: read_messages_Inr send_messages_out)

theorem message_transport_witness:
  "read_messages 100 (length [Have 7, Piece 1 2 [3, 4]])
     \<lparr>s_in = (msg_encode (Have 7) @ msg_encode (Piece 1 2 [3, 4])) @ [9], s_out = [], s_writable = True\<rparr> =
   (Inr [Have 7, Piece 1 2 [3, 4]], \<lparr>s_in = [9], s_out = [], s_writable = True\<rparr>)"
proof -
  have "list_all (\<lambda>m. length (msg_encode m) \<le> unat (100 :: u32) + 4) [Have 7, Piece 1 2 [3, 4]]"
    by (simp add: tag_def)
  moreover have "send_messages [Have 7, Piece 1 2 [3, 4]] \<lparr>s_in = [], s_out = [], s_writable = True\<rparr> =
      (Inr (), \<lparr>s_in = [], s_out = msg_encode (Have 7) @ msg_encode (Piece 1 2 [3, 4]), s_writable = True\<rparr>)"
    by (simp add: send_messages_out del: send_messages.simps)
  ultimately show ?thesis
    by (rule message_transport [THEN trans]) simp_all
qed

text \<open>
  The fast paths agree with the plain ones: the single-buffer \<open>write_message\<close> sends the bytes of
  \<open>encode\<close>, and reading into a reused buffer gives what \<open>read_frame\<close> gives, errors included.
\<close>

theorem wire_fast_paths:
  "write_message m = write_all (Network ''frame write: '') (msg_encode m) \<and>
   read_frame_into max_len buf = read_frame max_len"
  by (simp add: write_message_eq read_frame_into_eq)

text \<open>
  A wire bitfield is accepted as \<open>bf\<close> for \<open>n\<close> pieces exactly when it is the encoding of \<open>bf\<close> and
  \<open>bf\<close> has \<open>n\<close> bits; in particular spare bits are zero and the two conversions are inverse.
\<close>

theorem bitfield_codec:
  assumes "msb0_layout from_slice"
  shows "bitfield_from_bytes from_slice bs n = Inr bf \<longleftrightarrow> length bf = n \<and> bitfield_to_bytes bf = bs"
  using assms by (rule bitfield_iff)

theorem bitfield_codec_witness:
  "bitfield_from_bytes msb0_bits [0xA0] 3 = Inr [True, False, True] \<longleftrightarrow>
     length [True, False, True] = 3 \<and> bitfield_to_bytes [True, False, True] = [0xA0]"
  by (rule bitfield_codec [OF msb0_bits_layout])

end
