(* ===== verification/RT_Handshake.thy ===== *)
theory RT_Handshake
  imports RT_Stream
begin

text \<open>
  The BitTorrent handshake of \<open>peer/handshake.rs\<close>: its 68-byte encoding, the reserved bits taken from
  the process-wide cell that the engine sets once, and the two directions of the exchange.
\<close>

definition PSTR :: bytes where
  "PSTR = ascii ''BitTorrent protocol''"

definition PSTRLEN :: u8 where
  "PSTRLEN = 19"

definition HANDSHAKE_LEN :: nat where
  "HANDSHAKE_LEN = 1 + 19 + 8 + 20 + 20"

definition RESERVED_BIT_DHT :: u8 where "RESERVED_BIT_DHT = 0x01"
definition RESERVED_BIT_EXTENSION :: u8 where "RESERVED_BIT_EXTENSION = 0x10"
definition RESERVED_BIT_FAST :: u8 where "RESERVED_BIT_FAST = 0x04"

text \<open>The \<open>OnceLock\<close> cell \<open>EXTENSION_BYTES\<close> is an option: the first write wins.\<close>

type_synonym extension_cell = "bytes option"

definition set_extension_bytes :: "bytes \<Rightarrow> extension_cell \<Rightarrow> extension_cell" where
  "set_extension_bytes b cell = (case cell of None \<Rightarrow> Some b | Some c \<Rightarrow> Some c)"

definition extension_bytes_from :: "bool \<Rightarrow> bool \<Rightarrow> bytes" where
  "extension_bytes_from dht_enabled extension_protocol =
     (let r = replicate 8 0;
          r = (if dht_enabled then r[7 := r ! 7 OR RESERVED_BIT_DHT] else r)
      in if extension_protocol then
           let r = r[5 := r ! 5 OR RESERVED_BIT_EXTENSION] in r[7 := r ! 7 OR RESERVED_BIT_FAST]
         else r)"

definition supports_fast_extensions :: "bytes \<Rightarrow> bool" where
  "supports_fast_extensions reserved \<longleftrightarrow> (reserved ! 7) AND RESERVED_BIT_FAST \<noteq> 0"

definition supports_extension_protocol :: "bytes \<Rightarrow> bool" where
  "supports_extension_protocol reserved \<longleftrightarrow> (reserved ! 5) AND RESERVED_BIT_EXTENSION \<noteq> 0"

definition current_extension_bytes :: "extension_cell \<Rightarrow> bytes" where
  "current_extension_bytes cell = (case cell of None \<Rightarrow> replicate 8 0 | Some b \<Rightarrow> b)"

record handshake =
  hs_reserved :: bytes
  hs_info_hash :: bytes
  hs_peer_id :: bytes

text \<open>The array lengths of the Rust type.\<close>

definition wf_handshake :: "handshake \<Rightarrow> bool" where
  "wf_handshake h \<longleftrightarrow>
     length (hs_reserved h) = 8 \<and> length (hs_info_hash h) = 20 \<and> length (hs_peer_id h) = 20"

definition handshake_new :: "extension_cell \<Rightarrow> bytes \<Rightarrow> bytes \<Rightarrow> handshake" where
  "handshake_new cell info_hash peer_id =
     \<lparr>hs_reserved = current_extension_bytes cell, hs_info_hash = info_hash, hs_peer_id = peer_id\<rparr>"

definition handshake_encode :: "handshake \<Rightarrow> bytes" where
  "handshake_encode h = PSTRLEN # PSTR @ hs_reserved h @ hs_info_hash h @ hs_peer_id h"

definition handshake_decode :: "bytes \<Rightarrow> handshake res" where
  "handshake_decode buf =
     (if length buf < HANDSHAKE_LEN then Inl (Handshake ''handshake too short: '')
      else if buf ! 0 \<noteq> PSTRLEN then Inl (Handshake ''bad pstrlen: '')
      else if take 19 (drop 1 buf) \<noteq> PSTR then Inl (Handshake ''bad protocol string'')
      else Inr \<lparr>hs_reserved = take 8 (drop 20 buf), hs_info_hash = take 20 (drop 28 buf),
                hs_peer_id = take 20 (drop 48 buf)\<rparr>)"

definition perform_outgoing :: "extension_cell \<Rightarrow> bytes \<Rightarrow> bytes \<Rightarrow> handshake io" where
  "perform_outgoing cell info_hash peer_id =
     (let ours = handshake_new cell info_hash peer_id in
      io_bind (write_all (Handshake ''write: '') (handshake_encode ours)) (\<lambda>_.
      io_bind (read_exact (Handshake ''read: '') HANDSHAKE_LEN) (\<lambda>buf.
      io_bind (io_lift (handshake_decode buf)) (\<lambda>theirs.
      if hs_info_hash theirs \<noteq> info_hash then io_fail (Handshake ''info_hash mismatch'')
      else io_return theirs))))"

definition perform_incoming :: "extension_cell \<Rightarrow> bytes \<Rightarrow> bytes \<Rightarrow> handshake io" where
  "perform_incoming cell info_hash peer_id =
     io_bind (read_exact (Handshake ''read: '') HANDSHAKE_LEN) (\<lambda>buf.
     io_bind (io_lift (handshake_decode buf)) (\<lambda>theirs.
     if hs_info_hash theirs \<noteq> info_hash then io_fail (Handshake ''info_hash mismatch'')
     else
       let ours = handshake_new cell info_hash peer_id in
       io_bind (write_all (Handshake ''write: '') (handshake_encode ours)) (\<lambda>_. io_return theirs)))"

section \<open>The encoding\<close>

lemma length_PSTR [simp]: "length PSTR = 19"
  by (simp add: PSTR_def)

lemma length_handshake_encode: "wf_handshake h \<Longrightarrow> length (handshake_encode h) = HANDSHAKE_LEN"
  by (simp add: wf_handshake_def handshake_encode_def HANDSHAKE_LEN_def)

lemma handshake_decode_encode: "wf_handshake h \<Longrightarrow> handshake_decode (handshake_encode h @ r) = Inr h"
  by (simp add: wf_handshake_def handshake_decode_def handshake_encode_def HANDSHAKE_LEN_def)

lemma handshake_decode_canonical:
  assumes "handshake_decode buf = Inr h"
  shows "wf_handshake h \<and> take HANDSHAKE_LEN buf = handshake_encode h"
proof -
  have len: "68 \<le> length buf" and hd: "buf ! 0 = PSTRLEN" and ps: "take 19 (drop 1 buf) = PSTR"
    and h: "h = \<lparr>hs_reserved = take 8 (drop 20 buf), hs_info_hash = take 20 (drop 28 buf),
      hs_peer_id = take 20 (drop 48 buf)\<rparr>"
    using assms by (auto simp: handshake_decode_def HANDSHAKE_LEN_def split: if_splits)
  have "take (1 + (19 + (8 + (20 + 20)))) buf = take 1 buf @ take 19 (drop 1 buf) @
      take 8 (drop 20 buf) @ take 20 (drop 28 buf) @ take 20 (drop 48 buf)"
    unfolding take_add drop_drop by simp
  moreover have "take 1 buf = [PSTRLEN]" using len hd by (cases buf) simp_all
  ultimately have "take HANDSHAKE_LEN buf = handshake_encode h"
    by (simp only: HANDSHAKE_LEN_def handshake_encode_def ps h add.assoc) simp
  moreover have "wf_handshake h" using len by (simp add: h wf_handshake_def)
  ultimately show ?thesis by simp
qed

interpretation handshake: codec handshake_encode handshake_decode wf_handshake
  by unfold_locales (use handshake_decode_encode [where r = "[]"] in simp)

lemma handshake_decode_exact:
  "length buf = HANDSHAKE_LEN \<Longrightarrow> handshake_decode buf = Inr h \<longleftrightarrow> wf_handshake h \<and> buf = handshake_encode h"
  using handshake_decode_canonical [of buf h] handshake.roundtrip [of h] by auto

text \<open>Reading and decoding the other side's handshake, as both directions do.\<close>

lemma read_handshake_Inr:
  "io_bind (read_exact e HANDSHAKE_LEN) (\<lambda>buf. io_bind (io_lift (handshake_decode buf)) f) s = (Inr x, s'')
     \<longleftrightarrow> (\<exists>h r. wf_handshake h \<and> s_in s = handshake_encode h @ r \<and> f h (s\<lparr>s_in := r\<rparr>) = (Inr x, s''))"
    (is "?L \<longleftrightarrow> ?R")
proof
  assume ?L
  then show ?R by (auto simp: io_simps handshake_decode_exact)
next
  assume ?R
  then show ?L
    by (auto simp: io_bind_def read_exact_def io_lift_def length_handshake_encode handshake.roundtrip)
qed

lemma read_handshake_Inl:
  "io_bind (read_exact e HANDSHAKE_LEN) (\<lambda>buf. io_bind (io_lift (handshake_decode buf)) f) s = (Inl e', s'')
     \<Longrightarrow> s_out s'' = s_out s \<or>
       (\<exists>h r. wf_handshake h \<and> s_in s = handshake_encode h @ r \<and> f h (s\<lparr>s_in := r\<rparr>) = (Inl e', s''))"
  using handshake_decode_exact [of "take HANDSHAKE_LEN (s_in s)"]
  by (auto simp: io_bind_def read_exact_def io_lift_def split: if_splits sum.splits)
    (metis append_take_drop_id)

section \<open>Properties\<close>

text \<open>
  The outgoing handshake succeeds with the peer's handshake \<open>h\<close> exactly when our bytes could be
  written and the peer answered with the encoding of \<open>h\<close> for the same info-hash; it sends our handshake
  and consumes exactly the peer's.
\<close>

theorem perform_outgoing_iff:
  "perform_outgoing cell ih pid s = (Inr h, s') \<longleftrightarrow>
     s_writable s \<and> wf_handshake h \<and> hs_info_hash h = ih \<and>
     (\<exists>r. s_in s = handshake_encode h @ r \<and>
       s' = s\<lparr>s_in := r, s_out := s_out s @ handshake_encode (handshake_new cell ih pid)\<rparr>)"
proof -
  let ?out = "handshake_encode (handshake_new cell ih pid)"
  have check: "(if hs_info_hash g \<noteq> ih then io_fail (Handshake ''info_hash mismatch'') else io_return g) t =
      (Inr h, s') \<longleftrightarrow> hs_info_hash h = ih \<and> g = h \<and> s' = t" for g t
    by (auto simp: io_simps)
  have "perform_outgoing cell ih pid s = (Inr h, s') \<longleftrightarrow> s_writable s \<and> (\<exists>r. wf_handshake h \<and>
      s_in s = handshake_encode h @ r \<and> hs_info_hash h = ih \<and> s' = s\<lparr>s_out := s_out s @ ?out, s_in := r\<rparr>)"
    unfolding perform_outgoing_def Let_def io_bind_Inr [of "write_all e b" for e b] read_handshake_Inr
      check write_all_Inr
    by (rule iffI; elim exE conjE; simp; blast)
  moreover have "s\<lparr>s_out := s_out s @ ?out, s_in := r\<rparr> = s\<lparr>s_in := r, s_out := s_out s @ ?out\<rparr>" for r
    by simp
  ultimately show ?thesis by simp blast
qed

text \<open>
  The incoming handshake answers only a peer that has already named our info-hash in a complete,
  well-formed handshake: whenever it fails before that point, or for any other reason, nothing is sent.
\<close>

theorem perform_incoming_silent:
  assumes "perform_incoming cell ih pid s = (r, s')" "s_out s' \<noteq> s_out s"
  shows "\<exists>h rest. r = Inr h \<and> wf_handshake h \<and> hs_info_hash h = ih \<and> s_in s = handshake_encode h @ rest \<and>
    s_out s' = s_out s @ handshake_encode (handshake_new cell ih pid)"
proof (cases r)
  case (Inl e)
  then show ?thesis
    using assms read_handshake_Inl [OF assms(1) [unfolded perform_incoming_def Inl]]
    by (auto simp: io_bind_def io_fail_def write_all_def io_return_def Let_def split: if_splits)
next
  case (Inr h)
  show ?thesis using assms(1) unfolding Inr perform_incoming_def read_handshake_Inr
    by (auto simp: io_simps Let_def split: if_splits)
qed

definition sample_handshake :: handshake where
  "sample_handshake = handshake_new (Some (extension_bytes_from True True)) (replicate 20 1) (replicate 20 3)"

theorem perform_incoming_silent_witness:
  "\<exists>h rest. (Inr sample_handshake :: handshake res) = Inr h \<and> wf_handshake h \<and>
     hs_info_hash h = replicate 20 1 \<and>
     s_in \<lparr>s_in = handshake_encode sample_handshake @ [5], s_out = [], s_writable = True\<rparr> =
       handshake_encode h @ rest \<and>
     s_out \<lparr>s_in = [5], s_out = handshake_encode (handshake_new None (replicate 20 1) (replicate 20 2)),
         s_writable = True\<rparr> =
       s_out \<lparr>s_in = handshake_encode sample_handshake @ [5], s_out = [], s_writable = True\<rparr> @
       handshake_encode (handshake_new None (replicate 20 1) (replicate 20 2))"
proof (rule perform_incoming_silent)
  have wf: "wf_handshake sample_handshake" "hs_info_hash sample_handshake = replicate 20 1"
    by (simp_all add: wf_handshake_def sample_handshake_def handshake_new_def current_extension_bytes_def
        extension_bytes_from_def Let_def)
  show "perform_incoming None (replicate 20 1) (replicate 20 2)
      \<lparr>s_in = handshake_encode sample_handshake @ [5], s_out = [], s_writable = True\<rparr> =
      (Inr sample_handshake, \<lparr>s_in = [5],
        s_out = handshake_encode (handshake_new None (replicate 20 1) (replicate 20 2)), s_writable = True\<rparr>)"
    unfolding perform_incoming_def read_handshake_Inr
    using wf by (intro exI [of _ sample_handshake] exI [of _ "[5]"])
      (simp add: io_bind_def write_all_def io_return_def)
qed (simp add: handshake_encode_def)

end
