(* ===== verification/RT_Piece_Manager.thy ===== *)
theory RT_Piece_Manager
  imports RT_Message
begin

text \<open>
  The block-level state machine of \<open>piece/manager.rs\<close>. Bit vectors are lists of booleans, the vectors of
  the struct are lists of the same length; an index out of bounds, a failed assertion and a checked
  overflow are \<open>Panic\<close> results. Sizes are naturals: \<open>new\<close> is only reached with a piece length of at
  most 1 GiB and a total that fits \<open>u64\<close> (theory \<open>RT_Metainfo\<close>), so no product below wraps except
  where it is checked.
\<close>

datatype piece_state = Missing | InProgress | Complete

datatype block_outcome = Duplicate | Stored | Completed bytes

record piece_manager =
  pm_piece_length :: nat
  pm_total_length :: nat
  pm_num_pieces :: nat
  pm_states :: "piece_state list"
  pm_requested :: "bool list list"
  pm_received :: "bool list list"
  pm_buffers :: "bytes option list"
  pm_local :: "bool list"
  pm_wanted :: "bool list"

abbreviation oob :: error where
  "oob \<equiv> Panic ''index out of bounds''"

definition piece_size_for :: "nat \<Rightarrow> nat \<Rightarrow> nat \<Rightarrow> nat \<Rightarrow> nat" where
  "piece_size_for index piece_length total_length num_pieces =
     (if index + 1 = num_pieces then
        let r = total_length mod piece_length in if r = 0 then piece_length else r
      else piece_length)"

definition num_blocks_for_piece :: "nat \<Rightarrow> nat \<Rightarrow> nat \<Rightarrow> nat \<Rightarrow> nat" where
  "num_blocks_for_piece index piece_length total_length num_pieces =
     div_ceil (piece_size_for index piece_length total_length num_pieces) BLOCK_SIZE"

text \<open>
  The constructor visits the last piece, whose size is a remainder by the piece length: a piece length
  of 0 panics there.
\<close>

definition pm_new :: "nat \<Rightarrow> nat \<Rightarrow> nat \<Rightarrow> piece_manager res" where
  "pm_new piece_length total_length num_pieces =
     (if num_pieces = 0 then Inl (Panic ''assertion failed: num_pieces > 0'')
      else if piece_length = 0 then
        Inl (Panic ''attempt to calculate the remainder with a divisor of zero'')
      else
        let nb = (\<lambda>i. num_blocks_for_piece i piece_length total_length num_pieces) in
        Inr \<lparr>pm_piece_length = piece_length, pm_total_length = total_length, pm_num_pieces = num_pieces,
             pm_states = map (\<lambda>_. Missing) [0..<num_pieces],
             pm_requested = map (\<lambda>i. replicate (nb i) False) [0..<num_pieces],
             pm_received = map (\<lambda>i. replicate (nb i) False) [0..<num_pieces],
             pm_buffers = map (\<lambda>_. None) [0..<num_pieces],
             pm_local = replicate num_pieces False,
             pm_wanted = replicate num_pieces True\<rparr>)"

definition set_wanted :: "piece_manager \<Rightarrow> bool list \<Rightarrow> piece_manager" where
  "set_wanted pm new_mask =
     (if length new_mask \<noteq> pm_num_pieces pm then pm
      else pm\<lparr>pm_wanted := foldl (\<lambda>w i. w[i := new_mask ! i]) (pm_wanted pm) [0..<length new_mask]\<rparr>)"

definition is_wanted :: "piece_manager \<Rightarrow> nat \<Rightarrow> bool" where
  "is_wanted pm index = (if index < length (pm_wanted pm) then pm_wanted pm ! index else False)"

definition count_ones :: "bool list \<Rightarrow> nat" where
  "count_ones bs = length (filter (\<lambda>b. b) bs)"

definition wanted_count :: "piece_manager \<Rightarrow> nat" where
  "wanted_count pm = count_ones (pm_wanted pm)"

definition piece_size :: "piece_manager \<Rightarrow> nat \<Rightarrow> nat" where
  "piece_size pm index =
     piece_size_for index (pm_piece_length pm) (pm_total_length pm) (pm_num_pieces pm)"

definition num_blocks :: "piece_manager \<Rightarrow> nat \<Rightarrow> nat" where
  "num_blocks pm index =
     num_blocks_for_piece index (pm_piece_length pm) (pm_total_length pm) (pm_num_pieces pm)"

text \<open>\<open>saturating_sub\<close> is the subtraction of naturals.\<close>

definition block_length :: "piece_manager \<Rightarrow> nat \<Rightarrow> nat \<Rightarrow> nat" where
  "block_length pm index block_index =
     (let remain = piece_size pm index - block_index * BLOCK_SIZE in min remain BLOCK_SIZE)"

definition pm_state :: "piece_manager \<Rightarrow> nat \<Rightarrow> piece_state res" where
  "pm_state pm index = (if index < length (pm_states pm) then Inr (pm_states pm ! index) else Inl oob)"

definition is_complete :: "piece_manager \<Rightarrow> bool" where
  "is_complete pm = list_all (\<lambda>i. \<not> pm_wanted pm ! i \<or> pm_local pm ! i) [0..<pm_num_pieces pm]"

definition complete_count :: "piece_manager \<Rightarrow> nat" where
  "complete_count pm = count_ones (pm_local pm)"

definition wanted_complete_count :: "piece_manager \<Rightarrow> nat" where
  "wanted_complete_count pm =
     length (filter (\<lambda>i. pm_wanted pm ! i \<and> pm_local pm ! i) [0..<pm_num_pieces pm])"

definition missing_count :: "piece_manager \<Rightarrow> nat" where
  "missing_count pm =
     length (filter (\<lambda>i. pm_wanted pm ! i \<and> \<not> pm_local pm ! i) [0..<pm_num_pieces pm])"

definition missing_pieces :: "piece_manager \<Rightarrow> nat list" where
  "missing_pieces pm = filter (\<lambda>i. pm_states pm ! i \<noteq> Complete) [0..<length (pm_states pm)]"

definition mark_complete :: "piece_manager \<Rightarrow> nat \<Rightarrow> piece_manager res" where
  "mark_complete pm index =
     (if index < length (pm_states pm) then
        Inr (pm\<lparr>pm_states := (pm_states pm)[index := Complete],
                pm_local := (pm_local pm)[index := True],
                pm_buffers := (pm_buffers pm)[index := None]\<rparr>)
      else Inl oob)"

definition mark_complete_verified :: "piece_manager \<Rightarrow> nat \<Rightarrow> piece_manager res" where
  "mark_complete_verified pm index =
     (if index < length (pm_states pm) then
        Inr (pm\<lparr>pm_states := (pm_states pm)[index := Complete],
                pm_local := (pm_local pm)[index := True],
                pm_buffers := (pm_buffers pm)[index := None]\<rparr>)
      else Inl oob)"

text \<open>A \<open>Missing\<close> piece becomes \<open>InProgress\<close> with a zeroed assembly buffer.\<close>

definition start_piece :: "piece_manager \<Rightarrow> nat \<Rightarrow> piece_manager" where
  "start_piece pm index =
     (if pm_states pm ! index = Missing then
        pm\<lparr>pm_states := (pm_states pm)[index := InProgress],
           pm_buffers := (pm_buffers pm)[index := Some (replicate (piece_size pm index) 0)]\<rparr>
      else pm)"

text \<open>\<open>(b as u32) * BLOCK_SIZE\<close>: the cast truncates, the product is checked.\<close>

definition block_begin :: "nat \<Rightarrow> nat res" where
  "block_begin b =
     (let x = (b mod (u32_max + 1)) * BLOCK_SIZE in
      if x > u32_max then Inl (Panic ''attempt to multiply with overflow'') else Inr x)"

definition reserve_block :: "piece_manager \<Rightarrow> nat \<Rightarrow> ((nat \<times> nat) option \<times> piece_manager) res" where
  "reserve_block pm index =
     (if \<not> index < length (pm_states pm) then Inl oob
      else if pm_states pm ! index = Complete then Inr (None, pm)
      else
        let pm = start_piece pm index in
        case find (\<lambda>b. \<not> pm_requested pm ! index ! b \<and> \<not> pm_received pm ! index ! b)
               [0..<num_blocks pm index] of
          None \<Rightarrow> Inr (None, pm)
        | Some b \<Rightarrow>
            let pm = pm\<lparr>pm_requested := (pm_requested pm)[index := (pm_requested pm ! index)[b := True]]\<rparr> in
            rbind (block_begin b) (\<lambda>begin'. Inr (Some (begin', block_length pm index b), pm)))"

definition unfinished_blocks :: "piece_manager \<Rightarrow> nat \<Rightarrow> (nat \<times> nat) list res" where
  "unfinished_blocks pm index =
     (if \<not> index < length (pm_received pm) then Inl oob
      else rmapM (\<lambda>b. rbind (block_begin b) (\<lambda>begin'. Inr (begin', block_length pm index b)))
        (filter (\<lambda>b. \<not> pm_received pm ! index ! b) [0..<num_blocks pm index]))"

definition release_block :: "piece_manager \<Rightarrow> nat \<Rightarrow> nat \<Rightarrow> piece_manager res" where
  "release_block pm index begin' =
     (if \<not> index < length (pm_states pm) then Inl oob
      else if pm_states pm ! index = Complete then Inr pm
      else if begin' mod BLOCK_SIZE = 0 then
        let b = begin' div BLOCK_SIZE in
        if b < length (pm_requested pm ! index) then
          Inr (pm\<lparr>pm_requested := (pm_requested pm)[index := (pm_requested pm ! index)[b := False]]\<rparr>)
        else Inr pm
      else Inr pm)"

definition release_piece_inflight :: "piece_manager \<Rightarrow> nat \<Rightarrow> piece_manager res" where
  "release_piece_inflight pm index =
     (if \<not> index < length (pm_states pm) then Inl oob
      else if pm_states pm ! index = Complete then Inr pm
      else Inr (pm\<lparr>pm_requested := (pm_requested pm)[index :=
        foldl (\<lambda>r b. if \<not> pm_received pm ! index ! b then r[b := False] else r) (pm_requested pm ! index)
          [0..<num_blocks pm index]]\<rparr>))"

text \<open>\<open>copy_from_slice\<close> into the range \<open>[from, from + length data)\<close> of a buffer.\<close>

definition copy_at :: "bytes \<Rightarrow> nat \<Rightarrow> bytes \<Rightarrow> bytes res" where
  "copy_at buf from data =
     (if from + length data > length buf then Inl (Panic ''range end index out of range'')
      else Inr (take from buf @ data @ drop (from + length data) buf))"

definition received_block :: "piece_manager \<Rightarrow> nat \<Rightarrow> nat \<Rightarrow> bytes \<Rightarrow> block_outcome res \<times> piece_manager" where
  "received_block pm index begin' data =
     (if index \<ge> pm_num_pieces pm then (Inl (Network ''block for invalid piece ''), pm)
      else if pm_states pm ! index = Complete then (Inr Duplicate, pm)
      else if begin' mod BLOCK_SIZE \<noteq> 0 then (Inl (Network ''block begin ''), pm)
      else
        let block_index = begin' div BLOCK_SIZE in
        if block_index \<ge> num_blocks pm index then (Inl (Network ''block ''), pm)
        else if length data \<noteq> block_length pm index block_index then (Inl (Network ''block size ''), pm)
        else
          let pm = start_piece pm index in
          if pm_received pm ! index ! block_index then (Inr Duplicate, pm)
          else
            case pm_buffers pm ! index of
              None \<Rightarrow> (Inl (Network ''buffer missing''), pm)
            | Some buf \<Rightarrow>
                (case copy_at buf begin' data of
                   Inl e \<Rightarrow> (Inl e, pm)
                 | Inr buf \<Rightarrow>
                     let pm = pm\<lparr>pm_buffers := (pm_buffers pm)[index := Some buf],
                       pm_received := (pm_received pm)[index := (pm_received pm ! index)[block_index := True]],
                       pm_requested := (pm_requested pm)[index := (pm_requested pm ! index)[block_index := True]]\<rparr>
                     in if list_all (\<lambda>b. b) (pm_received pm ! index)
                        then (Inr (Completed buf), pm\<lparr>pm_buffers := (pm_buffers pm)[index := None]\<rparr>)
                        else (Inr Stored, pm)))"

definition reset_piece :: "piece_manager \<Rightarrow> nat \<Rightarrow> piece_manager res" where
  "reset_piece pm index =
     (if \<not> index < length (pm_states pm) then Inl oob
      else
        let nb = num_blocks pm index; clear = foldl (\<lambda>r b. r[b := False]) in
        Inr (pm\<lparr>pm_states := (pm_states pm)[index := Missing],
                pm_buffers := (pm_buffers pm)[index := None],
                pm_requested := (pm_requested pm)[index := clear (pm_requested pm ! index) [0..<nb]],
                pm_received := (pm_received pm)[index := clear (pm_received pm ! index) [0..<nb]]\<rparr>))"

definition verify_piece :: "(bytes \<Rightarrow> bytes) \<Rightarrow> bytes \<Rightarrow> bytes \<Rightarrow> bool" where
  "verify_piece sha1 data expected \<longleftrightarrow> sha1 data = expected"

section \<open>Geometry of pieces and blocks\<close>

lemma BLOCK_SIZE_pos [simp]: "0 < BLOCK_SIZE"
  by (simp add: BLOCK_SIZE_def)

lemma BLOCK_SIZE_nonzero [simp]: "BLOCK_SIZE \<noteq> 0"
  by (simp add: BLOCK_SIZE_def)

lemma piece_size_for_pos: "0 < pl \<Longrightarrow> 0 < piece_size_for i pl tlen np"
  by (simp add: piece_size_for_def Let_def)

lemma piece_size_for_le: "0 < pl \<Longrightarrow> piece_size_for i pl tlen np \<le> pl"
  by (auto simp: piece_size_for_def Let_def intro: less_imp_le)

lemma last_piece_size:
  assumes "0 < pl" "0 < tlen" "np = div_ceil tlen pl"
  shows "(np - 1) * pl + piece_size_for (np - 1) pl tlen np = tlen"
proof (cases "tlen mod pl = 0")
  case True
  then have np: "np = tlen div pl" using assms by (simp add: div_ceil_def)
  moreover have "0 < tlen div pl" using True assms by (auto simp: div_greater_zero_iff intro: dvd_imp_le)
  moreover have "tlen div pl * pl = tlen" using True by auto
  ultimately show ?thesis using True
    by (cases "tlen div pl") (simp_all add: piece_size_for_def Let_def)
next
  case False
  then show ?thesis using assms by (simp add: div_ceil_def piece_size_for_def Let_def)
qed

lemma block_in_piece:
  assumes "b < num_blocks pm i"
  shows "b * BLOCK_SIZE + block_length pm i b \<le> piece_size pm i" "0 < block_length pm i b"
proof -
  have "b * BLOCK_SIZE < piece_size pm i"
    using assms less_div_ceil_iff [of BLOCK_SIZE b "piece_size pm i"]
    by (simp add: num_blocks_def num_blocks_for_piece_def piece_size_def)
  then show "b * BLOCK_SIZE + block_length pm i b \<le> piece_size pm i" "0 < block_length pm i b"
    by (simp_all add: block_length_def Let_def)
qed

lemma offset_in_block:
  assumes "k < piece_size pm i"
  shows "k div BLOCK_SIZE < num_blocks pm i" "k mod BLOCK_SIZE < block_length pm i (k div BLOCK_SIZE)"
proof -
  show "k div BLOCK_SIZE < num_blocks pm i"
    using assms by (simp add: num_blocks_def num_blocks_for_piece_def piece_size_def div_less_div_ceil)
  have "k div BLOCK_SIZE * BLOCK_SIZE + k mod BLOCK_SIZE = k" by simp
  then have "k mod BLOCK_SIZE < piece_size pm i - k div BLOCK_SIZE * BLOCK_SIZE" using assms by linarith
  then show "k mod BLOCK_SIZE < block_length pm i (k div BLOCK_SIZE)"
    by (simp add: block_length_def Let_def)
qed

lemma num_blocks_pos: "0 < pm_piece_length pm \<Longrightarrow> 0 < num_blocks pm i"
  using less_div_ceil_iff [of BLOCK_SIZE 0 "piece_size pm i"]
  by (simp add: num_blocks_def num_blocks_for_piece_def piece_size_def piece_size_for_pos)

section \<open>The invariant\<close>

definition piece_ok :: "piece_manager \<Rightarrow> nat \<Rightarrow> bool" where
  "piece_ok pm i \<longleftrightarrow>
     length (pm_requested pm ! i) = num_blocks pm i \<and> length (pm_received pm ! i) = num_blocks pm i \<and>
     (case pm_states pm ! i of
        Missing \<Rightarrow> pm_buffers pm ! i = None \<and> \<not> pm_local pm ! i \<and>
          pm_requested pm ! i = replicate (num_blocks pm i) False \<and>
          pm_received pm ! i = replicate (num_blocks pm i) False
      | InProgress \<Rightarrow> \<not> pm_local pm ! i \<and>
          (case pm_buffers pm ! i of
             None \<Rightarrow> list_all (\<lambda>b. b) (pm_received pm ! i)
           | Some buf \<Rightarrow> length buf = piece_size pm i \<and> \<not> list_all (\<lambda>b. b) (pm_received pm ! i))
      | Complete \<Rightarrow> pm_buffers pm ! i = None \<and> pm_local pm ! i)"

definition pm_ok :: "piece_manager \<Rightarrow> bool" where
  "pm_ok pm \<longleftrightarrow>
     0 < pm_num_pieces pm \<and> 0 < pm_piece_length pm \<and> pm_piece_length pm \<le> 2 ^ 30 \<and>
     length (pm_states pm) = pm_num_pieces pm \<and> length (pm_requested pm) = pm_num_pieces pm \<and>
     length (pm_received pm) = pm_num_pieces pm \<and> length (pm_buffers pm) = pm_num_pieces pm \<and>
     length (pm_local pm) = pm_num_pieces pm \<and> length (pm_wanted pm) = pm_num_pieces pm \<and>
     (\<forall>i < pm_num_pieces pm. piece_ok pm i)"

lemmas pm_geom = piece_size_def num_blocks_def block_length_def

text \<open>
  Every operation changes one piece: a manager that agrees with an invariant one on the lengths and on
  the other pieces satisfies the invariant when the changed piece does.
\<close>

definition same_but :: "nat \<Rightarrow> piece_manager \<Rightarrow> piece_manager \<Rightarrow> bool" where
  "same_but i pm pm' \<longleftrightarrow>
     pm_piece_length pm' = pm_piece_length pm \<and> pm_total_length pm' = pm_total_length pm \<and>
     pm_num_pieces pm' = pm_num_pieces pm \<and> pm_wanted pm' = pm_wanted pm \<and>
     length (pm_states pm') = length (pm_states pm) \<and> length (pm_requested pm') = length (pm_requested pm) \<and>
     length (pm_received pm') = length (pm_received pm) \<and> length (pm_buffers pm') = length (pm_buffers pm) \<and>
     length (pm_local pm') = length (pm_local pm) \<and>
     (\<forall>j. j \<noteq> i \<longrightarrow> pm_states pm' ! j = pm_states pm ! j \<and> pm_requested pm' ! j = pm_requested pm ! j \<and>
        pm_received pm' ! j = pm_received pm ! j \<and> pm_buffers pm' ! j = pm_buffers pm ! j \<and>
        pm_local pm' ! j = pm_local pm ! j)"

lemma same_but_geom:
  "same_but i pm pm' \<Longrightarrow> piece_size pm' j = piece_size pm j"
  "same_but i pm pm' \<Longrightarrow> num_blocks pm' j = num_blocks pm j"
  "same_but i pm pm' \<Longrightarrow> block_length pm' j b = block_length pm j b"
  by (simp_all add: same_but_def pm_geom)

lemma same_but_piece_ok: "same_but i pm pm' \<Longrightarrow> j \<noteq> i \<Longrightarrow> piece_ok pm' j \<longleftrightarrow> piece_ok pm j"
proof -
  assume sb: "same_but i pm pm'" and "j \<noteq> i"
  then have "pm_states pm' ! j = pm_states pm ! j" "pm_requested pm' ! j = pm_requested pm ! j"
    "pm_received pm' ! j = pm_received pm ! j" "pm_buffers pm' ! j = pm_buffers pm ! j"
    "pm_local pm' ! j = pm_local pm ! j"
    by (simp_all add: same_but_def)
  then show ?thesis by (simp only: piece_ok_def same_but_geom [OF sb])
qed

lemma same_but_ok: "same_but i pm pm' \<Longrightarrow> pm_ok pm \<Longrightarrow> piece_ok pm' i \<Longrightarrow> pm_ok pm'"
proof -
  assume sb: "same_but i pm pm'" and ok: "pm_ok pm" "piece_ok pm' i"
  have "piece_ok pm' j" if "j < pm_num_pieces pm" for j
    using that ok same_but_piece_ok [OF sb, of j] by (cases "j = i") (simp_all add: pm_ok_def)
  then show ?thesis using sb ok(1) unfolding pm_ok_def same_but_def by simp
qed

lemma same_but_refl [simp]: "same_but i pm pm"
  by (simp add: same_but_def)

lemma same_but_trans: "same_but i pm pm' \<Longrightarrow> same_but i pm' pm'' \<Longrightarrow> same_but i pm pm''"
  by (simp add: same_but_def)

lemma pm_okD:
  assumes "pm_ok pm" "i < pm_num_pieces pm"
  shows "i < length (pm_states pm)" "i < length (pm_requested pm)" "i < length (pm_received pm)"
    "i < length (pm_buffers pm)" "i < length (pm_local pm)" "i < length (pm_wanted pm)" "piece_ok pm i"
    "length (pm_requested pm ! i) = num_blocks pm i" "length (pm_received pm ! i) = num_blocks pm i"
  using assms by (simp_all add: pm_ok_def piece_ok_def)

lemma pm_ok_index: "pm_ok pm \<Longrightarrow> i < length (pm_states pm) \<longleftrightarrow> i < pm_num_pieces pm"
  by (simp add: pm_ok_def)

text \<open>What each operation leaves of the piece it works on.\<close>

lemma pm_new_ok: "pm_new pl tlen np = Inr pm \<Longrightarrow> pl \<le> 2 ^ 30 \<Longrightarrow> pm_ok pm"
  by (auto simp: pm_new_def pm_ok_def piece_ok_def pm_geom Let_def split: if_splits)

lemma set_wanted_eq:
  "length m = pm_num_pieces pm \<Longrightarrow> pm_ok pm \<Longrightarrow> set_wanted pm m = pm\<lparr>pm_wanted := m\<rparr>"
  using map_nth [of m] by (simp add: set_wanted_def pm_ok_def foldl_update_all)

lemma set_wanted_ok: "pm_ok pm \<Longrightarrow> pm_ok (set_wanted pm m)"
proof (cases "length m = pm_num_pieces pm")
  case True
  assume "pm_ok pm"
  moreover have "piece_ok (pm\<lparr>pm_wanted := m\<rparr>) i \<longleftrightarrow> piece_ok pm i" for i
    by (simp add: piece_ok_def pm_geom split: piece_state.split option.split)
  ultimately show ?thesis using True by (simp add: set_wanted_eq) (simp add: pm_ok_def)
qed (simp add: set_wanted_def)

lemma start_piece_same: "same_but i pm (start_piece pm i)"
  by (simp add: start_piece_def same_but_def)

lemma start_piece_ok:
  assumes "pm_ok pm" "i < pm_num_pieces pm"
  shows "pm_ok (start_piece pm i)"
proof (rule same_but_ok [OF start_piece_same assms(1)])
  have "0 < num_blocks pm i" using assms by (intro num_blocks_pos) (simp add: pm_ok_def)
  then have "\<not> list_all (\<lambda>b. b) (replicate (num_blocks pm i) False)" by (auto simp: list_all_iff)
  then show "piece_ok (start_piece pm i) i"
    using pm_okD [OF assms] by (simp add: piece_ok_def start_piece_def pm_geom split: piece_state.splits)
qed

lemma start_piece_state:
  "pm_ok pm \<Longrightarrow> i < pm_num_pieces pm \<Longrightarrow> pm_states pm ! i \<noteq> Complete \<Longrightarrow>
     pm_states (start_piece pm i) ! i = InProgress"
  using pm_okD [of pm i] by (cases "pm_states pm ! i") (simp_all add: start_piece_def)

lemma start_piece_fields [simp]:
  "pm_requested (start_piece pm i) = pm_requested pm" "pm_received (start_piece pm i) = pm_received pm"
  "pm_local (start_piece pm i) = pm_local pm" "pm_num_pieces (start_piece pm i) = pm_num_pieces pm"
  "num_blocks (start_piece pm i) = num_blocks pm" "piece_size (start_piece pm i) = piece_size pm"
  "block_length (start_piece pm i) = block_length pm"
  by (simp_all add: start_piece_def fun_eq_iff pm_geom)

lemma set_requested_ok:
  assumes "pm_ok pm" "i < pm_num_pieces pm" "pm_states pm ! i = InProgress"
    and "length r = num_blocks pm i"
  shows "same_but i pm (pm\<lparr>pm_requested := (pm_requested pm)[i := r]\<rparr>)"
    and "pm_ok (pm\<lparr>pm_requested := (pm_requested pm)[i := r]\<rparr>)"
proof -
  show sb: "same_but i pm (pm\<lparr>pm_requested := (pm_requested pm)[i := r]\<rparr>)" by (simp add: same_but_def)
  show "pm_ok (pm\<lparr>pm_requested := (pm_requested pm)[i := r]\<rparr>)"
    using pm_okD [OF assms(1,2)] assms
    by (intro same_but_ok [OF sb assms(1)]) (simp add: piece_ok_def pm_geom split: option.splits)
qed

lemma block_begin_ok:
  assumes "pm_ok pm" "b < num_blocks pm i"
  shows "block_begin b = Inr (b * BLOCK_SIZE)"
proof -
  have "piece_size pm i \<le> 2 ^ 30"
    using assms(1) piece_size_for_le [of "pm_piece_length pm"]
    by (auto simp: pm_ok_def piece_size_def intro: order_trans)
  then have "b * BLOCK_SIZE < 2 ^ 30" using block_in_piece [OF assms(2)] by linarith
  then show ?thesis by (simp add: block_begin_def BLOCK_SIZE_def)
qed

lemma reserve_block_cases:
  assumes "reserve_block pm i = Inr (r, pm')" "pm_ok pm"
  obtains "pm_states pm ! i = Complete" "r = None" "pm' = pm"
  | "i < pm_num_pieces pm" "pm_states pm ! i \<noteq> Complete" "r = None" "pm' = start_piece pm i"
    "\<forall>b < num_blocks pm i. pm_requested pm ! i ! b \<or> pm_received pm ! i ! b"
  | b where "i < pm_num_pieces pm" "pm_states pm ! i \<noteq> Complete"
    "b < num_blocks pm i" "\<not> pm_requested pm ! i ! b" "\<not> pm_received pm ! i ! b"
    "r = Some (b * BLOCK_SIZE, block_length pm i b)"
    "pm' = (start_piece pm i)\<lparr>pm_requested := (pm_requested pm)[i := (pm_requested pm ! i)[b := True]]\<rparr>"
proof -
  have i: "i < pm_num_pieces pm"
    using assms by (auto simp: reserve_block_def pm_ok_index split: if_splits)
  show thesis
  proof (cases "pm_states pm ! i = Complete")
    case True
    then show ?thesis using assms that(1) by (auto simp: reserve_block_def split: if_splits)
  next
    case False
    show ?thesis
    proof (cases "find (\<lambda>b. \<not> pm_requested pm ! i ! b \<and> \<not> pm_received pm ! i ! b) [0..<num_blocks pm i]")
      case None
      then have "r = None" "pm' = start_piece pm i"
        using assms i False by (auto simp: reserve_block_def pm_ok_index Let_def)
      then show ?thesis using None i False that(2) by (simp add: find_None_iff)
    next
      case (Some b)
      then have "b < num_blocks pm i" "\<not> pm_requested pm ! i ! b" "\<not> pm_received pm ! i ! b"
        by (auto simp: find_Some_iff)
      moreover have "block_length (start_piece pm i\<lparr>pm_requested := x\<rparr>) i b = block_length pm i b" for x
        by (simp add: start_piece_def pm_geom)
      ultimately show ?thesis using assms i False Some that(3)
        by (auto simp: reserve_block_def pm_ok_index block_begin_ok Let_def split: if_splits)
    qed
  qed
qed

text \<open>The manager after block \<open>b\<close> of piece \<open>i\<close> was stored and its buffer set to \<open>buf\<close>.\<close>

definition store_block :: "piece_manager \<Rightarrow> nat \<Rightarrow> nat \<Rightarrow> bytes option \<Rightarrow> piece_manager" where
  "store_block pm i b buf = (start_piece pm i)\<lparr>
     pm_buffers := (pm_buffers (start_piece pm i))[i := buf],
     pm_received := (pm_received pm)[i := (pm_received pm ! i)[b := True]],
     pm_requested := (pm_requested pm)[i := (pm_requested pm ! i)[b := True]]\<rparr>"

definition splice_at :: "bytes \<Rightarrow> nat \<Rightarrow> bytes \<Rightarrow> bytes" where
  "splice_at buf from data = take from buf @ data @ drop (from + length data) buf"

lemma not_all_not_received:
  "pm_ok pm \<Longrightarrow> i < pm_num_pieces pm \<Longrightarrow> pm_states pm ! i = InProgress \<Longrightarrow>
     b < num_blocks pm i \<Longrightarrow> \<not> pm_received pm ! i ! b \<Longrightarrow>
     \<exists>buf. pm_buffers pm ! i = Some buf \<and> length buf = piece_size pm i"
  using pm_okD(7) [of pm i] by (auto simp: piece_ok_def list_all_length split: option.splits)

lemma received_block_cases:
  assumes "received_block pm i begin' data = (r, pm')" "pm_ok pm"
  obtains (invalid) msg where "r = Inl (Network msg)" "pm' = pm"
  | (complete) "i < pm_num_pieces pm" "pm_states pm ! i = Complete" "r = Inr Duplicate" "pm' = pm"
  | (duplicate) b where "i < pm_num_pieces pm" "pm_states pm ! i \<noteq> Complete" "b < num_blocks pm i"
    "begin' = b * BLOCK_SIZE" "pm_received pm ! i ! b" "r = Inr Duplicate" "pm' = start_piece pm i"
  | (stored) b buf where "i < pm_num_pieces pm" "pm_states pm ! i \<noteq> Complete" "b < num_blocks pm i"
    "begin' = b * BLOCK_SIZE" "length data = block_length pm i b" "\<not> pm_received pm ! i ! b"
    "pm_buffers (start_piece pm i) ! i = Some buf" "length buf = piece_size pm i"
    "(r, pm') = (if list_all (\<lambda>b. b) ((pm_received pm ! i)[b := True])
      then (Inr (Completed (splice_at buf begin' data)), store_block pm i b None)
      else (Inr Stored, store_block pm i b (Some (splice_at buf begin' data))))"
proof (cases "i < pm_num_pieces pm \<and> pm_states pm ! i \<noteq> Complete \<and> begin' mod BLOCK_SIZE = 0 \<and>
    begin' div BLOCK_SIZE < num_blocks pm i \<and> length data = block_length pm i (begin' div BLOCK_SIZE)")
  case False
  then show thesis using assms(1) invalid complete
    unfolding received_block_def by (auto simp: Let_def split: if_splits)
next
  case True
  define b where "b = begin' div BLOCK_SIZE"
  have b: "b < num_blocks pm i" "begin' = b * BLOCK_SIZE" "length data = block_length pm i b"
    using True by (auto simp: b_def)
  have fields: "i < length (pm_buffers pm)" "i < length (pm_received pm)" "i < length (pm_requested pm)"
    using pm_okD [OF assms(2)] True by simp_all
  show thesis
  proof (cases "pm_received pm ! i ! b")
    case rcv: True
    then have "r = Inr Duplicate" "pm' = start_piece pm i"
      using assms(1) True by (simp_all add: received_block_def Let_def flip: b_def)
    then show thesis using duplicate True b rcv by blast
  next
    case nrcv: False
    have "pm_states (start_piece pm i) ! i = InProgress" "pm_ok (start_piece pm i)"
      using True assms(2) by (simp_all add: start_piece_state start_piece_ok)
    then obtain buf where buf: "pm_buffers (start_piece pm i) ! i = Some buf" "length buf = piece_size pm i"
      using not_all_not_received [of "start_piece pm i" i b] True b nrcv by auto
    have "begin' + length data \<le> length buf" using block_in_piece [OF b(1)] b buf by simp
    then have "(r, pm') = (if list_all (\<lambda>b. b) ((pm_received pm ! i)[b := True])
      then (Inr (Completed (splice_at buf begin' data)), store_block pm i b None)
      else (Inr Stored, store_block pm i b (Some (splice_at buf begin' data))))"
      using assms(1) True nrcv buf fields
      by (auto simp: received_block_def Let_def copy_at_def store_block_def splice_at_def simp flip: b_def)
    then show thesis using stored True b nrcv buf by blast
  qed
qed

lemma length_splice: "from + length data \<le> length buf \<Longrightarrow> length (splice_at buf from data) = length buf"
  by (simp add: splice_at_def)

lemma store_block_same: "same_but i pm (store_block pm i b buf)"
  using start_piece_same [of i pm] by (simp add: store_block_def same_but_def)

lemma store_block_ok:
  assumes ok: "pm_ok pm" and i: "i < pm_num_pieces pm" "pm_states pm ! i \<noteq> Complete"
    and buf: "case buf of None \<Rightarrow> list_all (\<lambda>b. b) ((pm_received pm ! i)[b := True])
      | Some x \<Rightarrow> length x = piece_size pm i \<and> \<not> list_all (\<lambda>b. b) ((pm_received pm ! i)[b := True])"
  shows "pm_ok (store_block pm i b buf)"
proof (rule same_but_ok [OF store_block_same ok])
  have st: "pm_states (start_piece pm i) ! i = InProgress" "piece_ok (start_piece pm i) i"
    using ok i start_piece_state start_piece_ok pm_okD(7) [of "start_piece pm i"] by auto
  have len: "i < length (pm_buffers (start_piece pm i))"
    using pm_okD [OF ok i(1)] by (simp add: start_piece_def)
  have geom: "num_blocks (store_block pm i b buf) i = num_blocks pm i"
    "piece_size (store_block pm i b buf) i = piece_size pm i"
    using same_but_geom [OF store_block_same] by simp_all
  have loc: "\<not> pm_local pm ! i" using st by (simp add: piece_ok_def)
  show "piece_ok (store_block pm i b buf) i"
    unfolding piece_ok_def geom
    using st(1) pm_okD [OF ok i(1)] len loc buf by (simp add: store_block_def split: option.splits)
qed

lemma received_block_ok:
  assumes "received_block pm i begin' data = (r, pm')" "pm_ok pm"
  shows "pm_ok pm'"
  using assms
proof (cases rule: received_block_cases)
  case (stored b buf)
  have "length (splice_at buf begin' data) = piece_size pm i"
    using stored block_in_piece [OF stored(3)] by (simp add: length_splice)
  then show ?thesis using stored(1,2,9) assms(2)
    by (auto intro!: store_block_ok split: if_splits)
qed (use assms(2) start_piece_ok in auto)

lemma release_block_ok:
  assumes "release_block pm i begin' = Inr pm'" "pm_ok pm"
  shows "pm_ok pm'"
proof (cases "pm' = pm")
  case False
  let ?b = "begin' div BLOCK_SIZE"
  have i: "i < pm_num_pieces pm" "pm_states pm ! i \<noteq> Complete"
    and pm': "pm' = pm\<lparr>pm_requested := (pm_requested pm)[i := (pm_requested pm ! i)[?b := False]]\<rparr>"
    using assms False by (auto simp: release_block_def pm_ok_index Let_def split: if_splits)
  have "(replicate n False)[?b := False] = replicate n False" for n
    by (cases "?b < n") (simp_all add: list_update_same_conv list_update_beyond)
  then show ?thesis
    using pm_okD [OF assms(2) i(1)] i unfolding pm'
    by (intro same_but_ok [OF _ assms(2), of i])
      (simp_all add: same_but_def piece_ok_def pm_geom split: piece_state.splits option.splits)
qed (use assms(2) in simp)

lemma release_piece_inflight_ok:
  assumes "release_piece_inflight pm i = Inr pm'" "pm_ok pm"
  shows "pm_ok pm'"
proof (cases "pm' = pm")
  case False
  define r where "r = foldl (\<lambda>r b. if \<not> pm_received pm ! i ! b then r[b := False] else r) (pm_requested pm ! i)
    [0..<num_blocks pm i]"
  have i: "i < pm_num_pieces pm" "pm_states pm ! i \<noteq> Complete"
    and pm': "pm' = pm\<lparr>pm_requested := (pm_requested pm)[i := r]\<rparr>"
    using assms False by (auto simp: release_piece_inflight_def pm_ok_index r_def split: if_splits)
  have "length r = num_blocks pm i"
    using pm_okD [OF assms(2) i(1)] by (simp add: r_def del: length_foldl_update)
  moreover have "r = replicate n False" if "pm_requested pm ! i = replicate n False" for n
    unfolding r_def that by (rule nth_equalityI) (simp_all add: nth_foldl_update_if)
  ultimately show ?thesis
    using pm_okD [OF assms(2) i(1)] i unfolding pm'
    by (intro same_but_ok [OF _ assms(2), of i])
      (simp_all add: same_but_def piece_ok_def pm_geom split: piece_state.splits option.splits)
qed (use assms(2) in simp)

lemma reset_piece_eq:
  assumes "reset_piece pm i = Inr pm'" "pm_ok pm"
  shows "i < pm_num_pieces pm"
    "pm' = pm\<lparr>pm_states := (pm_states pm)[i := Missing], pm_buffers := (pm_buffers pm)[i := None],
       pm_requested := (pm_requested pm)[i := replicate (num_blocks pm i) False],
       pm_received := (pm_received pm)[i := replicate (num_blocks pm i) False]\<rparr>"
  using assms pm_okD [of pm i]
  by (auto simp: reset_piece_def pm_ok_index Let_def foldl_update_all map_replicate_const split: if_splits)

lemma reset_piece_ok:
  assumes "reset_piece pm i = Inr pm'" "pm_ok pm" "\<not> pm_local pm ! i"
  shows "pm_ok pm'"
  unfolding reset_piece_eq(2) [OF assms(1,2)]
  using pm_okD [OF assms(2) reset_piece_eq(1) [OF assms(1,2)]] assms(3)
  by (intro same_but_ok [OF _ assms(2), of i]) (simp_all add: same_but_def piece_ok_def pm_geom)

lemma mark_complete_ok:
  assumes "mark_complete pm i = Inr pm'" "pm_ok pm"
  shows "pm_ok pm'"
proof -
  have i: "i < pm_num_pieces pm" and pm': "pm' = pm\<lparr>pm_states := (pm_states pm)[i := Complete],
      pm_local := (pm_local pm)[i := True], pm_buffers := (pm_buffers pm)[i := None]\<rparr>"
    using assms by (auto simp: mark_complete_def pm_ok_index split: if_splits)
  show ?thesis unfolding pm' using pm_okD [OF assms(2) i]
    by (intro same_but_ok [OF _ assms(2), of i]) (simp_all add: same_but_def piece_ok_def pm_geom)
qed

lemma mark_complete_verified_eq: "mark_complete_verified = mark_complete"
  by (simp add: fun_eq_iff mark_complete_verified_def mark_complete_def)

lemma reserve_block_ok:
  assumes "reserve_block pm i = Inr (r, pm')" "pm_ok pm"
  shows "pm_ok pm'"
  using assms
proof (cases rule: reserve_block_cases)
  case (3 b)
  then show ?thesis
    using set_requested_ok(2) [of "start_piece pm i" i "(pm_requested pm ! i)[b := True]"]
      start_piece_ok [of pm i] start_piece_state [of pm i] pm_okD [of pm i] assms(2) by simp
qed (use assms(2) start_piece_ok in auto)

section \<open>Runs of the manager\<close>

text \<open>
  The calls the engine makes, in any order. A piece is reset only after a failed verification or a
  failed write, that is while it is not \<open>Complete\<close>.
\<close>

datatype pm_event =
    WantedEv "bool list"
  | ReserveEv nat "(nat \<times> nat) option"
  | ReleaseEv nat nat
  | ReleaseAllEv nat
  | BlockEv nat nat bytes "block_outcome res"
  | ResetEv nat
  | CompleteEv nat

inductive pm_step :: "piece_manager \<Rightarrow> pm_event \<Rightarrow> piece_manager \<Rightarrow> bool" where
  step_wanted: "pm_step pm (WantedEv m) (set_wanted pm m)"
| step_reserve: "reserve_block pm i = Inr (r, pm') \<Longrightarrow> pm_step pm (ReserveEv i r) pm'"
| step_release: "release_block pm i begin' = Inr pm' \<Longrightarrow> pm_step pm (ReleaseEv i begin') pm'"
| step_release_all: "release_piece_inflight pm i = Inr pm' \<Longrightarrow> pm_step pm (ReleaseAllEv i) pm'"
| step_block: "received_block pm i begin' data = (r, pm') \<Longrightarrow> pm_step pm (BlockEv i begin' data r) pm'"
| step_reset: "pm_states pm ! i \<noteq> Complete \<Longrightarrow> reset_piece pm i = Inr pm' \<Longrightarrow> pm_step pm (ResetEv i) pm'"
| step_complete: "mark_complete pm i = Inr pm' \<Longrightarrow> pm_step pm (CompleteEv i) pm'"

inductive pm_steps :: "piece_manager \<Rightarrow> pm_event list \<Rightarrow> piece_manager \<Rightarrow> bool" where
  steps_Nil: "pm_steps pm [] pm"
| steps_Cons: "pm_step pm e pm' \<Longrightarrow> pm_steps pm' es pm'' \<Longrightarrow> pm_steps pm (e # es) pm''"

inductive_cases pm_steps_ConsE: "pm_steps pm (e # es) pm''"

lemma not_complete_not_local: "pm_ok pm \<Longrightarrow> i < pm_num_pieces pm \<Longrightarrow> pm_local pm ! i \<longleftrightarrow> pm_states pm ! i = Complete"
  using pm_okD(7) [of pm i] by (auto simp: piece_ok_def split: piece_state.splits)

lemma pm_step_ok: "pm_step pm e pm' \<Longrightarrow> pm_ok pm \<Longrightarrow> pm_ok pm'"
proof (induction rule: pm_step.induct)
  case (step_reset pm i pm')
  then show ?case
    using reset_piece_eq(1) not_complete_not_local reset_piece_ok by blast
qed (auto intro: set_wanted_ok reserve_block_ok release_block_ok release_piece_inflight_ok
    received_block_ok mark_complete_ok)

lemma pm_steps_ok: "pm_steps pm es pm' \<Longrightarrow> pm_ok pm \<Longrightarrow> pm_ok pm'"
  by (induction rule: pm_steps.induct) (auto intro: pm_step_ok)

section \<open>Assembly\<close>

text \<open>Block \<open>b\<close> of a string of the length of piece \<open>i\<close>.\<close>

definition block_at :: "piece_manager \<Rightarrow> nat \<Rightarrow> nat \<Rightarrow> bytes \<Rightarrow> bytes" where
  "block_at pm i b x = take (block_length pm i b) (drop (b * BLOCK_SIZE) x)"

definition agrees :: "bytes \<Rightarrow> piece_manager \<Rightarrow> nat \<Rightarrow> bool" where
  "agrees content pm i \<longleftrightarrow> (\<forall>buf. pm_buffers pm ! i = Some buf \<longrightarrow>
     (\<forall>b < num_blocks pm i. pm_received pm ! i ! b \<longrightarrow> block_at pm i b buf = block_at pm i b content))"

lemma blocks_determine:
  assumes "length x = piece_size pm i" "length y = piece_size pm i"
    and "\<And>b. b < num_blocks pm i \<Longrightarrow> block_at pm i b x = block_at pm i b y"
  shows "x = y"
proof (rule nth_equalityI)
  fix k
  assume "k < length x"
  then have k: "k < piece_size pm i" using assms(1) by simp
  have "block_at pm i (k div BLOCK_SIZE) x ! (k mod BLOCK_SIZE) =
      block_at pm i (k div BLOCK_SIZE) y ! (k mod BLOCK_SIZE)"
    using assms(3) offset_in_block(1) [OF k] by simp
  moreover have "block_at pm i (k div BLOCK_SIZE) z ! (k mod BLOCK_SIZE) = z ! k"
    if "length z = piece_size pm i" for z
  proof -
    have "k div BLOCK_SIZE * BLOCK_SIZE \<le> length z" using k that by (simp add: order.trans [OF div_times_less_eq_dividend])
    then show ?thesis using offset_in_block(2) [OF k] by (simp add: block_at_def)
  qed
  ultimately show "x ! k = y ! k" using assms by simp
qed (use assms in simp)

lemma block_at_splice_same:
  assumes "b < num_blocks pm i" "length buf = piece_size pm i" "length data = block_length pm i b"
  shows "block_at pm i b (splice_at buf (b * BLOCK_SIZE) data) = data"
  using block_in_piece [OF assms(1)] assms by (simp add: block_at_def splice_at_def)

lemma nth_splice:
  assumes "from + length data \<le> length buf" "k < length buf"
  shows "splice_at buf from data ! k =
    (if from \<le> k \<and> k < from + length data then data ! (k - from) else buf ! k)"
  using assms by (auto simp: splice_at_def nth_append)

lemma block_at_splice_other:
  assumes b: "b < num_blocks pm i" and c: "c < num_blocks pm i" "c \<noteq> b"
    and len: "length buf = piece_size pm i" "length data = block_length pm i b"
  shows "block_at pm i c (splice_at buf (b * BLOCK_SIZE) data) = block_at pm i c buf"
proof (rule nth_equalityI)
  note fits = block_in_piece(1) [OF b] block_in_piece(1) [OF c(1)]
  have le: "block_length pm i b \<le> BLOCK_SIZE" "block_length pm i c \<le> BLOCK_SIZE"
    by (simp_all add: block_length_def Let_def)
  show "length (block_at pm i c (splice_at buf (b * BLOCK_SIZE) data)) = length (block_at pm i c buf)"
    using fits len by (simp add: block_at_def length_splice)
  fix k
  assume "k < length (block_at pm i c (splice_at buf (b * BLOCK_SIZE) data))"
  then have k: "k < block_length pm i c" by (simp add: block_at_def)
  have "\<not> (b * BLOCK_SIZE \<le> c * BLOCK_SIZE + k \<and> c * BLOCK_SIZE + k < b * BLOCK_SIZE + length data)"
  proof (cases "c < b")
    case True
    then have "Suc c * BLOCK_SIZE \<le> b * BLOCK_SIZE" by (intro mult_le_mono1) simp
    then show ?thesis using k le by simp
  next
    case False
    then have "Suc b * BLOCK_SIZE \<le> c * BLOCK_SIZE" using c(2) by (intro mult_le_mono1) simp
    then show ?thesis using k le len by simp
  qed
  then show "block_at pm i c (splice_at buf (b * BLOCK_SIZE) data) ! k = block_at pm i c buf ! k"
    using fits len k by (auto simp: block_at_def nth_splice length_splice)
qed

lemma same_but_block_at: "same_but j pm pm' \<Longrightarrow> block_at pm' i b x = block_at pm i b x"
  by (simp add: block_at_def same_but_geom)

lemma agrees_other: "same_but j pm pm' \<Longrightarrow> j \<noteq> i \<Longrightarrow> agrees content pm i \<Longrightarrow> agrees content pm' i"
  unfolding agrees_def by (simp add: same_but_block_at same_but_geom) (simp add: same_but_def)

lemma agrees_start:
  "pm_ok pm \<Longrightarrow> i < pm_num_pieces pm \<Longrightarrow> agrees content pm i \<Longrightarrow> agrees content (start_piece pm i) i"
  using pm_okD(7) [of pm i] same_but_block_at [OF start_piece_same]
  by (auto simp: agrees_def start_piece_def piece_ok_def pm_geom split: if_splits)

lemma agrees_store:
  assumes ok: "pm_ok pm" and i: "i < pm_num_pieces pm" and b: "b < num_blocks pm i"
    and buf: "pm_buffers (start_piece pm i) ! i = Some buf" "length buf = piece_size pm i"
    and data: "length data = block_length pm i b" "data = block_at pm i b content"
    and agr: "agrees content pm i"
    and c: "c < num_blocks pm i" "(pm_received pm ! i)[b := True] ! c"
  shows "block_at pm i c (splice_at buf (b * BLOCK_SIZE) data) = block_at pm i c content"
proof (cases "c = b")
  case True
  then show ?thesis using block_at_splice_same [OF b buf(2) data(1)] data(2) by simp
next
  case False
  have "agrees content (start_piece pm i) i" using agrees_start [OF ok i agr] .
  then have "block_at pm i c buf = block_at pm i c content"
    using c False buf same_but_block_at [OF start_piece_same] by (auto simp: agrees_def)
  then show ?thesis using block_at_splice_other [OF b c(1) False buf(2) data(1)] by simp
qed

text \<open>The honest data of an event: the block it names is that of the content.\<close>

fun honest :: "bytes \<Rightarrow> nat \<Rightarrow> pm_event \<Rightarrow> bool" where
  "honest content i (BlockEv j begin' data r) = (j = i \<longrightarrow> data = take (length data) (drop begin' content))"
| "honest content i _ = True"

lemma received_block_agrees:
  assumes rb: "received_block pm i begin' data = (r, pm')" and ok: "pm_ok pm"
    and agr: "agrees content pm i" and honest: "data = take (length data) (drop begin' content)"
    and len: "length content = piece_size pm i"
  shows "agrees content pm' i \<and> (\<forall>bytes. r = Inr (Completed bytes) \<longrightarrow> bytes = content)"
  using rb ok
proof (cases rule: received_block_cases)
  case (stored b buf)
  have d: "data = block_at pm i b content"
    by (subst honest) (simp only: stored(4,5) block_at_def)
  note eq = agrees_store [OF ok stored(1,3,7,8,5) d agr]
  let ?new = "splice_at buf begin' data"
  have lens: "length (pm_received pm ! i) = num_blocks pm i" using pm_okD [OF ok stored(1)] by simp
  have sb: "same_but i pm (store_block pm i b x)" for x by (rule store_block_same)
  show ?thesis
  proof (cases "list_all (\<lambda>b. b) ((pm_received pm ! i)[b := True])")
    case True
    have "length ?new = piece_size pm i"
      using stored(4,5,8) block_in_piece [OF stored(3)] by (simp add: length_splice)
    moreover have "block_at pm i c ?new = block_at pm i c content" if "c < num_blocks pm i" for c
      using eq [OF that] True lens that by (simp add: stored(4) list_all_length)
    ultimately have "?new = content" using len by (blast intro: blocks_determine)
    moreover have "agrees content (store_block pm i b None) i"
      using pm_okD [OF ok stored(1)] by (simp add: agrees_def store_block_def start_piece_def)
    ultimately show ?thesis using stored(9) True by simp
  next
    case False
    have "agrees content (store_block pm i b (Some ?new)) i"
      unfolding agrees_def same_but_block_at [OF sb] same_but_geom [OF sb]
      using eq stored(4) pm_okD [OF ok stored(1)] by (auto simp: store_block_def start_piece_def)
    then show ?thesis using stored(9) False by simp
  qed
qed (use agr agrees_start [OF ok _ agr] in auto)

lemma received_block_same: "received_block pm i begin' data = (r, pm') \<Longrightarrow> pm_ok pm \<Longrightarrow> same_but i pm pm'"
  by (erule (1) received_block_cases) (auto simp: start_piece_same store_block_same split: if_splits)

lemma received_block_outcome_index:
  "received_block pm j begin' data = (Inr (Completed bytes), pm') \<Longrightarrow> pm_ok pm \<Longrightarrow>
     j < pm_num_pieces pm \<and> length bytes = piece_size pm j"
  by (erule (1) received_block_cases)
    (use block_in_piece in \<open>auto simp: length_splice split: if_splits\<close>)

lemma agrees_fields:
  "pm_buffers pm' ! i = pm_buffers pm ! i \<Longrightarrow> pm_received pm' ! i = pm_received pm ! i \<Longrightarrow>
     pm_piece_length pm' = pm_piece_length pm \<Longrightarrow> pm_total_length pm' = pm_total_length pm \<Longrightarrow>
     pm_num_pieces pm' = pm_num_pieces pm \<Longrightarrow> agrees content pm' i \<longleftrightarrow> agrees content pm i"
  by (simp add: agrees_def block_at_def pm_geom)

lemma agrees_None: "pm_buffers pm ! i = None \<Longrightarrow> agrees content pm i"
  by (simp add: agrees_def)

lemma reserve_block_agrees:
  assumes "reserve_block pm j = Inr (r, pm')" "pm_ok pm" "agrees content pm i"
  shows "agrees content pm' i"
proof -
  have start: "agrees content (start_piece pm j) i" if "j < pm_num_pieces pm"
    using that assms agrees_start agrees_other [OF start_piece_same] by (cases "j = i") auto
  show ?thesis using assms(1,2)
  proof (cases rule: reserve_block_cases)
    case (3 b)
    then show ?thesis using start by (subst agrees_fields [of _ _ "start_piece pm j"]) auto
  qed (use assms start in auto)
qed

lemma pm_step_agrees:
  assumes "pm_step pm e pm'" "pm_ok pm" "agrees content pm i" "honest content i e"
    and "length content = piece_size pm i"
  shows "agrees content pm' i"
  using assms
proof (induction rule: pm_step.induct)
  case (step_wanted pm m)
  then show ?case by (subst agrees_fields [of _ _ pm]) (auto simp: set_wanted_def)
next
  case (step_reserve pm j r pm')
  then show ?case using reserve_block_agrees by blast
next
  case (step_release pm j begin' pm')
  then show ?case
    by (subst agrees_fields [of _ _ pm]) (auto simp: release_block_def Let_def split: if_splits)
next
  case (step_release_all pm j pm')
  then show ?case
    by (subst agrees_fields [of _ _ pm]) (auto simp: release_piece_inflight_def split: if_splits)
next
  case (step_block pm j begin' data r pm')
  then show ?case
    using received_block_agrees agrees_other [OF received_block_same] by (cases "j = i") auto
next
  case (step_reset pm j pm')
  note eq = reset_piece_eq [OF step_reset(2,3)]
  show ?case
  proof (cases "j = i")
    case True
    then show ?thesis using eq pm_okD [OF step_reset(3) eq(1)] by (auto intro: agrees_None)
  next
    case False
    have "same_but j pm pm'" unfolding eq(2) by (simp add: same_but_def)
    then show ?thesis using False step_reset agrees_other by blast
  qed
next
  case (step_complete pm j pm')
  have j: "j < length (pm_states pm)" using step_complete by (auto simp: mark_complete_def split: if_splits)
  have "same_but j pm pm'" "j = i \<Longrightarrow> pm_buffers pm' ! i = None"
    using step_complete j by (auto simp: mark_complete_def same_but_def pm_ok_def)
  then show ?case using step_complete agrees_other agrees_None by metis
qed

lemma pm_step_piece_size: "pm_step pm e pm' \<Longrightarrow> pm_ok pm \<Longrightarrow> piece_size pm' = piece_size pm"
proof (induction rule: pm_step.induct)
  case (step_reserve pm i r pm')
  then show ?case by (auto elim!: reserve_block_cases simp: fun_eq_iff start_piece_def pm_geom)
next
  case (step_block pm i begin' data r pm')
  then show ?case using same_but_geom(1) [OF received_block_same] by (auto simp: fun_eq_iff)
qed (auto simp: fun_eq_iff pm_geom set_wanted_def release_block_def release_piece_inflight_def
    reset_piece_def mark_complete_def Let_def split: if_splits)

lemma pm_steps_assembly:
  assumes "pm_steps pm es pm'" "pm_ok pm" "agrees content pm i" "list_all (honest content i) es"
    and "length content = piece_size pm i" "BlockEv i begin' data (Inr (Completed bytes)) \<in> set es"
  shows "bytes = content"
  using assms
proof (induction rule: pm_steps.induct)
  case (steps_Cons pm e pm' es pm'')
  show ?case
  proof (cases "e = BlockEv i begin' data (Inr (Completed bytes))")
    case True
    then have "received_block pm i begin' data = (Inr (Completed bytes), pm')"
      using steps_Cons.hyps(1) by (auto elim: pm_step.cases)
    then show ?thesis
      using steps_Cons.prems True received_block_agrees [of pm i begin' data _ pm' content] by auto
  next
    case False
    then show ?thesis
      using steps_Cons pm_step_ok pm_step_agrees pm_step_piece_size by auto
  qed
qed simp

section \<open>Every block delivered once\<close>

fun deliver :: "piece_manager \<Rightarrow> nat \<Rightarrow> bytes \<Rightarrow> nat list \<Rightarrow> block_outcome res list \<times> piece_manager" where
  "deliver pm i content [] = ([], pm)"
| "deliver pm i content (b # bs) =
     (let (r, pm') = received_block pm i (b * BLOCK_SIZE) (block_at pm i b content);
          (rs, pm'') = deliver pm' i content bs
      in (r # rs, pm''))"

lemma length_block_at:
  "b < num_blocks pm i \<Longrightarrow> length x = piece_size pm i \<Longrightarrow> length (block_at pm i b x) = block_length pm i b"
  using block_in_piece [of b pm i] by (simp add: block_at_def)

lemma received_block_fresh:
  assumes "pm_ok pm" "i < pm_num_pieces pm" "pm_states pm ! i \<noteq> Complete" "b < num_blocks pm i"
    and "\<not> pm_received pm ! i ! b" "length content = piece_size pm i"
  obtains buf where "received_block pm i (b * BLOCK_SIZE) (block_at pm i b content) =
    (if list_all (\<lambda>b. b) ((pm_received pm ! i)[b := True])
     then (Inr (Completed (splice_at buf (b * BLOCK_SIZE) (block_at pm i b content))), store_block pm i b None)
     else (Inr Stored, store_block pm i b (Some (splice_at buf (b * BLOCK_SIZE) (block_at pm i b content)))))"
proof -
  obtain r pm' where r: "received_block pm i (b * BLOCK_SIZE) (block_at pm i b content) = (r, pm')"
    by fastforce
  have len: "length (block_at pm i b content) = block_length pm i b"
    using assms by (simp add: length_block_at)
  have valid: "r \<noteq> Inl (Network msg) \<or> pm' \<noteq> pm" for msg
    using r assms len start_piece_state [OF assms(1,2,3)] start_piece_ok [OF assms(1,2)]
      not_all_not_received [of "start_piece pm i" i b]
    by (auto simp: received_block_def Let_def copy_at_def split: if_splits option.splits sum.splits)
  from r assms(1) show thesis
  proof (cases rule: received_block_cases)
    case (stored c buf)
    then have "c = b" by (simp add: BLOCK_SIZE_def)
    then show thesis using that [of buf] stored(9) r by simp
  qed (use assms valid in auto)
qed

lemma all_received_iff:
  assumes "length xs = n" "b < n"
  shows "list_all (\<lambda>b. b) (xs[b := True]) \<longleftrightarrow> {c. c < n \<and> \<not> xs ! c} \<subseteq> {b}"
  using assms by (auto simp: list_all_length nth_list_update)

lemma store_block_received:
  "pm_ok pm \<Longrightarrow> i < pm_num_pieces pm \<Longrightarrow>
     pm_received (store_block pm i b buf) ! i = (pm_received pm ! i)[b := True]"
  using pm_okD [of pm i] by (simp add: store_block_def)

lemma deliver_remaining:
  assumes "pm_ok pm" "i < pm_num_pieces pm" "pm_states pm ! i \<noteq> Complete" "agrees content pm i"
    and "length content = piece_size pm i"
    and "distinct bs" "bs \<noteq> []" "set bs = {b. b < num_blocks pm i \<and> \<not> pm_received pm ! i ! b}"
  shows "fst (deliver pm i content bs) = replicate (length bs - 1) (Inr Stored) @ [Inr (Completed content)]"
  using assms
proof (induction bs arbitrary: pm)
  case (Cons b bs)
  have b: "b < num_blocks pm i" "\<not> pm_received pm ! i ! b" using Cons.prems(8) by auto
  obtain r pm' where r: "received_block pm i (b * BLOCK_SIZE) (block_at pm i b content) = (r, pm')"
    by fastforce
  have len: "length (pm_received pm ! i) = num_blocks pm i" using pm_okD [OF Cons.prems(1,2)] by simp
  have last: "list_all (\<lambda>b. b) ((pm_received pm ! i)[b := True]) \<longleftrightarrow> bs = []"
    unfolding all_received_iff [OF len b(1)] using Cons.prems(6,8) by (cases bs) auto
  have "block_at pm i b content =
      take (length (block_at pm i b content)) (drop (b * BLOCK_SIZE) content)"
    using Cons.prems(5) b by (simp add: length_block_at) (simp add: block_at_def)
  note agr = received_block_agrees [OF r Cons.prems(1,4) this Cons.prems(5)]
  have ok: "pm_ok pm'" and sb: "same_but i pm pm'"
    using received_block_ok [OF r Cons.prems(1)] received_block_same [OF r Cons.prems(1)] by auto
  from received_block_fresh [OF Cons.prems(1,2,3) b Cons.prems(5)]
  obtain buf where out: "(r, pm') = (if bs = []
     then (Inr (Completed (splice_at buf (b * BLOCK_SIZE) (block_at pm i b content))), store_block pm i b None)
     else (Inr Stored, store_block pm i b (Some (splice_at buf (b * BLOCK_SIZE) (block_at pm i b content)))))"
    unfolding r last .
  show ?case
  proof (cases "bs = []")
    case True
    then show ?thesis using out agr r by simp
  next
    case False
    then have pm': "r = Inr Stored" "pm_received pm' ! i = (pm_received pm ! i)[b := True]"
        "pm_states pm' ! i = InProgress"
      using out store_block_received [OF Cons.prems(1,2)] start_piece_state [OF Cons.prems(1,2,3)]
      by (simp_all add: store_block_def)
    have "fst (deliver pm' i content bs) = replicate (length bs - 1) (Inr Stored) @ [Inr (Completed content)]"
    proof (rule Cons.IH [OF ok])
      show "set bs = {b. b < num_blocks pm' i \<and> \<not> pm_received pm' ! i ! b}"
      proof -
        have "set bs = {c. c < num_blocks pm i \<and> \<not> pm_received pm ! i ! c} - {b}"
          using Cons.prems(6) unfolding Cons.prems(8) [symmetric] by auto
        moreover have "(pm_received pm ! i)[b := True] ! c \<longleftrightarrow> c = b \<or> pm_received pm ! i ! c"
          if "c < num_blocks pm i" for c
          using that b len by (simp add: nth_list_update)
        ultimately show ?thesis unfolding pm'(2) same_but_geom [OF sb] by blast
      qed
      show "i < pm_num_pieces pm'" using Cons.prems(2) sb by (simp add: same_but_def)
      show "pm_states pm' ! i \<noteq> Complete" using pm'(3) by simp
      show "agrees content pm' i" using agr by blast
      show "length content = piece_size pm' i" using Cons.prems(5) same_but_geom [OF sb] by simp
    qed (use Cons.prems(6) False in simp_all)
    then show ?thesis using False pm'(1) r
      by (cases bs) (auto simp: Let_def split: prod.splits)
  qed
qed simp

lemma deliver_steps:
  "pm_ok pm \<Longrightarrow> pm_steps pm
     (map2 (\<lambda>b r. BlockEv i (b * BLOCK_SIZE) (block_at pm i b content) r) bs (fst (deliver pm i content bs)))
     (snd (deliver pm i content bs))"
proof (induction bs arbitrary: pm)
  case (Cons b bs)
  obtain r pm' where r: "received_block pm i (b * BLOCK_SIZE) (block_at pm i b content) = (r, pm')"
    by fastforce
  then have "pm_step pm (BlockEv i (b * BLOCK_SIZE) (block_at pm i b content) r) pm'"
    by (rule step_block)
  moreover have "block_at pm' i c content = block_at pm i c content" for c
    using same_but_block_at [OF received_block_same [OF r Cons.prems]] .
  ultimately show ?case
    using Cons.IH [OF received_block_ok [OF r Cons.prems]] r by (auto simp: Let_def split: prod.splits intro: steps_Cons)
qed (simp add: steps_Nil)

section \<open>Counts and sizes\<close>

lemma count_ones_nth: "count_ones bs = length (filter (\<lambda>i. bs ! i) [0..<length bs])"
proof -
  have "count_ones (map ((!) bs) [0..<length bs]) = length (filter (\<lambda>i. bs ! i) [0..<length bs])"
    by (simp add: count_ones_def filter_map o_def)
  then show ?thesis by (simp add: map_nth)
qed

lemma length_filter_split:
  "length (filter (\<lambda>x. P x \<and> Q x) xs) + length (filter (\<lambda>x. P x \<and> \<not> Q x) xs) = length (filter P xs)"
  by (induction xs) auto

lemma sum_piece_sizes:
  assumes "0 < pl" "0 < tlen" "np = div_ceil tlen pl"
  shows "(\<Sum>i < np. piece_size_for i pl tlen np) = tlen"
proof -
  have "0 < np" using assms less_div_ceil_iff [of pl 0 tlen] by simp
  then obtain m where np: "np = Suc m" by (cases np) auto
  have "(\<Sum>i < m. piece_size_for i pl tlen np) = (\<Sum>i < m. pl)"
    by (rule sum.cong) (auto simp: piece_size_for_def np)
  then show ?thesis using last_piece_size [OF assms] by (simp add: np)
qed

definition sample_pm :: piece_manager where
  "sample_pm = projr (pm_new 40000 100000 3)"

lemma sample_pm_new: "pm_new 40000 100000 3 = Inr sample_pm"
  by (simp add: pm_new_def sample_pm_def)

lemma sample_pm_geom:
  "pm_num_pieces sample_pm = 3" "num_blocks sample_pm 2 = 2" "piece_size sample_pm 2 = 20000"
  "pm_states sample_pm ! 2 = Missing" "pm_buffers sample_pm ! 2 = None"
  "pm_received sample_pm ! 2 = [False, False]" "pm_wanted sample_pm = replicate 3 True"
  "pm_total_length sample_pm = 100000" "pm_piece_length sample_pm = 40000"
  by (simp_all add: sample_pm_def pm_new_def pm_geom num_blocks_for_piece_def piece_size_for_def
      div_ceil_def BLOCK_SIZE_def)

lemma sample_pm_ok: "pm_ok sample_pm"
  using sample_pm_new by (rule pm_new_ok) simp

lemma sample_delivery:
  "\<exists>pm'. pm_steps sample_pm
     [BlockEv 2 (1 * BLOCK_SIZE) (block_at sample_pm 2 1 (replicate 20000 5)) (Inr Stored),
      BlockEv 2 (0 * BLOCK_SIZE) (block_at sample_pm 2 0 (replicate 20000 5)) (Inr (Completed (replicate 20000 5)))] pm'"
proof -
  have "set [1, 0] = {b. b < num_blocks sample_pm 2 \<and> \<not> pm_received sample_pm ! 2 ! b}"
    by (auto simp: sample_pm_geom less_2_cases_iff)
  then have "fst (deliver sample_pm 2 (replicate 20000 5) [1, 0]) =
      [Inr Stored, Inr (Completed (replicate 20000 5))]"
    using deliver_remaining [of sample_pm 2 "replicate 20000 5" "[1, 0]"] sample_pm_ok
    by (simp add: sample_pm_geom agrees_None del: deliver.simps)
  then show ?thesis
    using deliver_steps [OF sample_pm_ok, of 2 "replicate 20000 5" "[1, 0]"] by (auto simp del: deliver.simps)
qed

section \<open>Properties\<close>

text \<open>
  C4: in every run of the manager, with requests, releases, resets and blocks of any peers in any order,
  if the blocks that arrive for a piece carry the bytes of its content, then what the manager hands over
  for verification when the piece completes is that content, byte for byte.
\<close>

theorem piece_assembly:
  assumes "pm_new pl tlen np = Inr pm" "pl \<le> 2 ^ 30"
    and "pm_steps pm es pm'" "list_all (honest content i) es" "length content = piece_size pm i" "i < np"
    and "BlockEv i begin' data (Inr (Completed bytes)) \<in> set es"
  shows "bytes = content"
proof -
  have "agrees content pm i"
    using assms(1,6) by (auto simp: pm_new_def Let_def intro!: agrees_None split: if_splits)
  then show ?thesis using pm_steps_assembly assms pm_new_ok by blast
qed

theorem piece_assembly_witness:
  "\<exists>es pm' bytes. pm_steps sample_pm es pm' \<and>
     BlockEv 2 0 (block_at sample_pm 2 0 (replicate 20000 5)) (Inr (Completed bytes)) \<in> set es \<and>
     bytes = replicate 20000 5"
proof -
  let ?c = "replicate 20000 5 :: bytes"
  let ?es = "[BlockEv 2 (1 * BLOCK_SIZE) (block_at sample_pm 2 1 ?c) (Inr Stored),
      BlockEv 2 (0 * BLOCK_SIZE) (block_at sample_pm 2 0 ?c) (Inr (Completed ?c))]"
  obtain pm' where run: "pm_steps sample_pm ?es pm'" using sample_delivery by blast
  have len: "length ?c = piece_size sample_pm 2" by (simp add: sample_pm_geom)
  have honest: "list_all (honest ?c 2) ?es" by (simp add: block_at_def)
  have "?c = ?c"
    by (rule piece_assembly [OF sample_pm_new _ run honest len]) simp_all
  then show ?thesis using run by (intro exI [of _ ?es] exI [of _ pm'] exI [of _ ?c]) simp
qed

text \<open>
  C5: delivering every block of a missing piece once, in any order, completes it with its content: each
  block but the last is stored, and the last one hands the assembled bytes over.
\<close>

theorem deliver_completes:
  assumes "pm_ok pm" "i < pm_num_pieces pm" "pm_states pm ! i = Missing"
    and "length content = piece_size pm i" "distinct bs" "set bs = {..<num_blocks pm i}"
  shows "fst (deliver pm i content bs) =
    replicate (num_blocks pm i - 1) (Inr Stored) @ [Inr (Completed content)]"
proof -
  have len: "length bs = num_blocks pm i" using distinct_card [OF assms(5)] assms(6) by simp
  have "0 < num_blocks pm i" using assms(1) by (intro num_blocks_pos) (simp add: pm_ok_def)
  then have ne: "bs \<noteq> []" using len by auto
  have missing: "pm_buffers pm ! i = None" "pm_received pm ! i = replicate (num_blocks pm i) False"
    using pm_okD(7) [OF assms(1,2)] assms(3) by (simp_all add: piece_ok_def)
  have "set bs = {b. b < num_blocks pm i \<and> \<not> pm_received pm ! i ! b}"
    unfolding assms(6) missing(2) by auto
  from deliver_remaining [OF assms(1,2) _ agrees_None [OF missing(1)] assms(4,5) ne this]
  show ?thesis unfolding len assms(3) by simp
qed

theorem deliver_completes_witness:
  "fst (deliver sample_pm 2 (replicate 20000 5) [1, 0]) =
     replicate (num_blocks sample_pm 2 - 1) (Inr Stored) @ [Inr (Completed (replicate 20000 5))]"
proof (rule deliver_completes)
  show "set [1, 0] = {..<num_blocks sample_pm 2}" by (auto simp: sample_pm_geom)
qed (simp_all add: sample_pm_ok sample_pm_geom)



text \<open>
  Reserving a block never panics; it returns a block of the piece that was neither requested nor
  received, aligned and inside the piece, and marks it requested; it returns none only when the piece is
  complete or every block is requested or received.
\<close>

theorem reserve_block_spec:
  assumes "pm_ok pm" "i < pm_num_pieces pm"
  shows "\<exists>r pm'. reserve_block pm i = Inr (r, pm') \<and> pm_ok pm' \<and>
    (case r of
       None \<Rightarrow> pm_states pm ! i = Complete \<or>
         (\<forall>b < num_blocks pm i. pm_requested pm ! i ! b \<or> pm_received pm ! i ! b)
     | Some (begin', len) \<Rightarrow> \<exists>b < num_blocks pm i. begin' = b * BLOCK_SIZE \<and> len = block_length pm i b \<and>
         0 < len \<and> begin' + len \<le> piece_size pm i \<and> \<not> pm_requested pm ! i ! b \<and> \<not> pm_received pm ! i ! b \<and>
         pm_requested pm' ! i = (pm_requested pm ! i)[b := True])"
proof -
  have "\<exists>r pm'. reserve_block pm i = Inr (r, pm')"
    using assms
    by (auto simp: reserve_block_def pm_ok_index Let_def find_Some_iff block_begin_ok split: option.splits)
  then obtain r pm' where r: "reserve_block pm i = Inr (r, pm')" by blast
  then have "pm_ok pm'" using assms(1) by (rule reserve_block_ok)
  moreover from r assms(1) have "case r of
       None \<Rightarrow> pm_states pm ! i = Complete \<or>
         (\<forall>b < num_blocks pm i. pm_requested pm ! i ! b \<or> pm_received pm ! i ! b)
     | Some (begin', len) \<Rightarrow> \<exists>b < num_blocks pm i. begin' = b * BLOCK_SIZE \<and> len = block_length pm i b \<and>
         0 < len \<and> begin' + len \<le> piece_size pm i \<and> \<not> pm_requested pm ! i ! b \<and> \<not> pm_received pm ! i ! b \<and>
         pm_requested pm' ! i = (pm_requested pm ! i)[b := True]"
  proof (cases rule: reserve_block_cases)
    case (3 b)
    then show ?thesis using block_in_piece [OF 3(3)] pm_okD [OF assms] by auto
  qed auto
  ultimately show ?thesis using r by blast
qed

theorem reserve_block_spec_witness: "\<exists>r pm'. reserve_block sample_pm 2 = Inr (r, pm') \<and> pm_ok pm'"
  using reserve_block_spec [of sample_pm 2] sample_pm_ok by (auto simp: sample_pm_geom)

text \<open>
  A block from the network can never panic the manager or find its buffer gone: the only errors are
  the four protocol violations, and an error leaves the manager untouched.
\<close>

theorem received_block_errors:
  assumes "pm_ok pm" "received_block pm i begin' data = (Inl e, pm')"
  shows "pm' = pm \<and> e \<in> Network ` {''block for invalid piece '', ''block begin '', ''block '', ''block size ''}"
proof -
  have e: "\<exists>msg. e = Network msg" "pm' = pm"
    using assms(2,1) by (cases rule: received_block_cases; auto split: if_splits)+
  let ?b = "begin' div BLOCK_SIZE"
  have "pm_buffers (start_piece pm i) ! i \<noteq> None"
    if "i < pm_num_pieces pm" "pm_states pm ! i \<noteq> Complete" "?b < num_blocks pm i" "\<not> pm_received pm ! i ! ?b"
    using that assms(1) not_all_not_received [of "start_piece pm i" i ?b] start_piece_ok [of pm i]
      start_piece_state [of pm i] by auto
  then show ?thesis using assms(2) e
    by (auto simp: received_block_def copy_at_def Let_def split: if_splits option.splits sum.splits)
qed

theorem received_block_errors_witness:
  "sample_pm = sample_pm \<and> Network ''block for invalid piece '' \<in>
     Network ` {''block for invalid piece '', ''block begin '', ''block '', ''block size ''}"
  by (rule received_block_errors [OF sample_pm_ok, of 7 0 "[]"])
    (simp add: received_block_def sample_pm_geom)

text \<open>
  The progress figures fit together: wanted pieces are either complete or missing, the download is
  complete exactly when no wanted piece is missing, and the piece sizes add up to the total length.
\<close>

theorem progress_counts:
  assumes "pm_ok pm" "0 < pm_total_length pm" "pm_num_pieces pm = div_ceil (pm_total_length pm) (pm_piece_length pm)"
  shows "wanted_complete_count pm + missing_count pm = wanted_count pm \<and>
    (is_complete pm \<longleftrightarrow> missing_count pm = 0) \<and> (\<Sum>i < pm_num_pieces pm. piece_size pm i) = pm_total_length pm"
proof -
  have "0 < pm_piece_length pm" using assms(1) by (simp add: pm_ok_def)
  then have "(\<Sum>i < pm_num_pieces pm. piece_size pm i) = pm_total_length pm"
    unfolding piece_size_def using assms by (intro sum_piece_sizes) auto
  moreover have "wanted_count pm = length (filter (\<lambda>i. pm_wanted pm ! i) [0..<pm_num_pieces pm])"
    using assms(1) by (simp add: wanted_count_def count_ones_nth pm_ok_def)
  moreover have "is_complete pm \<longleftrightarrow> missing_count pm = 0"
    by (auto simp: is_complete_def missing_count_def list_all_iff filter_empty_conv)
  ultimately show ?thesis
    using length_filter_split [of "\<lambda>i. pm_wanted pm ! i" "\<lambda>i. pm_local pm ! i" "[0..<pm_num_pieces pm]"]
    by (simp add: wanted_complete_count_def missing_count_def)
qed

theorem progress_counts_witness:
  "wanted_complete_count sample_pm + missing_count sample_pm = wanted_count sample_pm \<and>
     (is_complete sample_pm \<longleftrightarrow> missing_count sample_pm = 0) \<and>
     (\<Sum>i < pm_num_pieces sample_pm. piece_size sample_pm i) = pm_total_length sample_pm"
  by (rule progress_counts) (simp_all add: sample_pm_ok sample_pm_geom div_ceil_def)

end
