(* ===== verification/RT_Picker.thy ===== *)
theory RT_Picker
  imports RT_Piece_Manager "HOL-Library.Multiset"
begin

text \<open>
  The piece picker of \<open>piece/picker.rs\<close>. The two hash maps are maps from peer addresses; nothing in the
  module depends on their iteration order. Availability counts are \<open>u32\<close> values with saturating
  arithmetic. The random shuffle of the tie group is a parameter that returns a permutation. What the
  picker needs of the piece manager is the locale \<open>piece_view\<close>, interpreted on the manager's model.
\<close>

record 'p picker =
  pk_num_pieces :: nat
  pk_bitfields :: "'p \<rightharpoonup> bool list"
  pk_availability :: "nat list"
  pk_assigned :: "'p \<rightharpoonup> nat"
  pk_sequential :: bool

definition sat_add32 :: "nat \<Rightarrow> nat" where
  "sat_add32 x = min (x + 1) u32_max"

definition picker_new :: "nat \<Rightarrow> 'p picker" where
  "picker_new num_pieces =
     \<lparr>pk_num_pieces = num_pieces, pk_bitfields = Map.empty, pk_availability = replicate num_pieces 0,
      pk_assigned = Map.empty, pk_sequential = False\<rparr>"

definition set_sequential :: "'p picker \<Rightarrow> bool \<Rightarrow> 'p picker" where
  "set_sequential pk on = pk\<lparr>pk_sequential := on\<rparr>"

text \<open>The two loops over \<open>0..num_pieces.min(bf.len())\<close> that remove and add a peer's contributions.\<close>

definition sub_contributions :: "nat \<Rightarrow> bool list \<Rightarrow> nat list \<Rightarrow> nat list" where
  "sub_contributions n bf av =
     foldl (\<lambda>av i. if bf ! i then av[i := av ! i - 1] else av) av [0..<min n (length bf)]"

definition add_contributions :: "nat \<Rightarrow> bool list \<Rightarrow> nat list \<Rightarrow> nat list" where
  "add_contributions n bf av =
     foldl (\<lambda>av i. if bf ! i then av[i := sat_add32 (av ! i)] else av) av [0..<min n (length bf)]"

definition set_peer_bitfield :: "'p picker \<Rightarrow> 'p \<Rightarrow> bool list \<Rightarrow> 'p picker" where
  "set_peer_bitfield pk addr bf =
     (let av = (case pk_bitfields pk addr of
          Some old \<Rightarrow> sub_contributions (pk_num_pieces pk) old (pk_availability pk)
        | None \<Rightarrow> pk_availability pk)
      in pk\<lparr>pk_availability := add_contributions (pk_num_pieces pk) bf av,
            pk_bitfields := (pk_bitfields pk)(addr \<mapsto> bf)\<rparr>)"

definition peer_has :: "'p picker \<Rightarrow> 'p \<Rightarrow> nat \<Rightarrow> bool" where
  "peer_has pk addr index =
     (case pk_bitfields pk addr of
        Some bf \<Rightarrow> if index < length bf then bf ! index else False
      | None \<Rightarrow> False)"

definition add_have :: "'p picker \<Rightarrow> 'p \<Rightarrow> nat \<Rightarrow> 'p picker" where
  "add_have pk addr index =
     (if index \<ge> pk_num_pieces pk then pk
      else
        let bf = (case pk_bitfields pk addr of
              Some bf \<Rightarrow> bf | None \<Rightarrow> replicate (pk_num_pieces pk) False);
            bf = (if length bf < pk_num_pieces pk
              then bf @ replicate (pk_num_pieces pk - length bf) False else bf)
        in if \<not> bf ! index then
             pk\<lparr>pk_bitfields := (pk_bitfields pk)(addr \<mapsto> bf[index := True]),
                pk_availability := (pk_availability pk)[index := sat_add32 (pk_availability pk ! index)]\<rparr>
           else pk\<lparr>pk_bitfields := (pk_bitfields pk)(addr \<mapsto> bf)\<rparr>)"

definition forget_peer :: "'p picker \<Rightarrow> 'p \<Rightarrow> 'p picker" where
  "forget_peer pk addr =
     (let pk = (case pk_bitfields pk addr of
          Some bf \<Rightarrow> pk\<lparr>pk_bitfields := (pk_bitfields pk)(addr := None),
            pk_availability := sub_contributions (pk_num_pieces pk) bf (pk_availability pk)\<rparr>
        | None \<Rightarrow> pk)
      in pk\<lparr>pk_assigned := (pk_assigned pk)(addr := None)\<rparr>)"

definition assignment :: "'p picker \<Rightarrow> 'p \<Rightarrow> nat option" where
  "assignment pk addr = pk_assigned pk addr"

definition release_assignment :: "'p picker \<Rightarrow> 'p \<Rightarrow> 'p picker" where
  "release_assignment pk addr = pk\<lparr>pk_assigned := (pk_assigned pk)(addr := None)\<rparr>"

definition clear_assignment_if :: "'p picker \<Rightarrow> 'p \<Rightarrow> nat \<Rightarrow> 'p picker" where
  "clear_assignment_if pk addr index =
     (case pk_assigned pk addr of
        Some cur \<Rightarrow> if cur = index then pk\<lparr>pk_assigned := (pk_assigned pk)(addr := None)\<rparr> else pk
      | None \<Rightarrow> pk)"

section \<open>Picking\<close>

text \<open>
  The closure \<open>usable\<close>, over the manager's \<open>state\<close> (which panics out of range) and \<open>is_wanted\<close>, with
  the short-circuit order of the source.
\<close>

definition usable ::
    "(nat \<Rightarrow> piece_state res) \<Rightarrow> (nat \<Rightarrow> bool) \<Rightarrow> bool list \<Rightarrow> nat set \<Rightarrow> bool \<Rightarrow> nat \<Rightarrow> bool res" where
  "usable state wanted bf in_use endgame i =
     (if i < length bf \<and> bf ! i then
        rbind (state i) (\<lambda>s. Inr (s \<noteq> Complete \<and> wanted i \<and> (endgame \<or> i \<notin> in_use)))
      else Inr False)"

fun find_usable :: "(nat \<Rightarrow> bool res) \<Rightarrow> nat list \<Rightarrow> nat option res" where
  "find_usable u [] = Inr None"
| "find_usable u (i # is) = rbind (u i) (\<lambda>ok. if ok then Inr (Some i) else find_usable u is)"

text \<open>The single pass that keeps the smallest availability and the pieces tied at it.\<close>

fun rarest_loop :: "(nat \<Rightarrow> bool res) \<Rightarrow> nat list \<Rightarrow> nat list \<Rightarrow> nat \<Rightarrow> nat list \<Rightarrow> nat list res" where
  "rarest_loop u avail [] min_av ties = Inr ties"
| "rarest_loop u avail (i # is) min_av ties = rbind (u i) (\<lambda>ok.
     if \<not> ok then rarest_loop u avail is min_av ties
     else
       let av = avail ! i in
       if av < min_av then rarest_loop u avail is av [i]
       else if av = min_av then rarest_loop u avail is min_av (ties @ [i])
       else rarest_loop u avail is min_av ties)"

definition pick_with ::
    "(nat list \<Rightarrow> nat list) \<Rightarrow> (nat \<Rightarrow> piece_state res) \<Rightarrow> (nat \<Rightarrow> bool) \<Rightarrow> 'p picker \<Rightarrow> 'p \<Rightarrow> bool
      \<Rightarrow> (nat option \<times> 'p picker) res" where
  "pick_with shuffle state wanted pk addr endgame =
     rbind (case pk_assigned pk addr of
         None \<Rightarrow> Inr None
       | Some i \<Rightarrow> rbind (state i) (\<lambda>s. Inr (if s \<noteq> Complete \<and> wanted i then Some i else None)))
     (\<lambda>sticky. case sticky of
        Some i \<Rightarrow> Inr (Some i, pk)
      | None \<Rightarrow>
          (case pk_bitfields pk addr of
             None \<Rightarrow> Inr (None, pk)
           | Some bf \<Rightarrow>
               let u = usable state wanted bf (ran (pk_assigned pk)) endgame in
               rbind (if pk_sequential pk then find_usable u [0..<pk_num_pieces pk]
                      else rbind (rarest_loop u (pk_availability pk) [0..<pk_num_pieces pk] u32_max [])
                        (\<lambda>ties. Inr (case shuffle ties of [] \<Rightarrow> None | c # _ \<Rightarrow> Some c)))
               (\<lambda>chosen. case chosen of
                  None \<Rightarrow> Inr (None, pk)
                | Some c \<Rightarrow> Inr (Some c, pk\<lparr>pk_assigned := (pk_assigned pk)(addr \<mapsto> c)\<rparr>))))"

definition pick_for ::
    "(nat list \<Rightarrow> nat list) \<Rightarrow> 'p picker \<Rightarrow> 'p \<Rightarrow> piece_manager \<Rightarrow> bool \<Rightarrow> (nat option \<times> 'p picker) res" where
  "pick_for shuffle pk addr pm endgame =
     pick_with shuffle (pm_state pm) (is_wanted pm) pk addr endgame"

section \<open>Availability\<close>

text \<open>The number of peers that advertise piece \<open>i\<close>.\<close>

definition holders :: "'p picker \<Rightarrow> nat \<Rightarrow> 'p set" where
  "holders pk i = {p. peer_has pk p i}"

definition picker_ok :: "'p picker \<Rightarrow> bool" where
  "picker_ok pk \<longleftrightarrow>
     finite (dom (pk_bitfields pk)) \<and> card (dom (pk_bitfields pk)) \<le> u32_max \<and>
     length (pk_availability pk) = pk_num_pieces pk \<and>
     (\<forall>i < pk_num_pieces pk. pk_availability pk ! i = card (holders pk i)) \<and>
     (\<forall>p i. pk_assigned pk p = Some i \<longrightarrow> i < pk_num_pieces pk)"

lemma length_contributions [simp]:
  "length (sub_contributions n bf av) = length av" "length (add_contributions n bf av) = length av"
proof -
  have "length (foldl (\<lambda>av i. if bf ! i then av[i := f (av ! i)] else av) av is) = length av"
    for f :: "nat \<Rightarrow> nat" and "is" by (induction "is" arbitrary: av) auto
  then show "length (sub_contributions n bf av) = length av" "length (add_contributions n bf av) = length av"
    by (simp_all add: sub_contributions_def add_contributions_def)
qed

lemma nth_contribution_loop:
  "j < length av \<Longrightarrow> foldl (\<lambda>av i. if P i then av[i := f (av ! i)] else av) av [0..<n] ! j =
     (if j < n \<and> P j then f (av ! j) else av ! j)"
proof (induction n)
  case (Suc n)
  have "length (foldl (\<lambda>av i. if P i then av[i := f (av ! i)] else av) av [0..<n]) = length av"
    by (induction n) auto
  then show ?case using Suc by (auto simp: nth_list_update less_Suc_eq)
qed simp

lemma nth_sub_contributions:
  "j < length av \<Longrightarrow> sub_contributions n bf av ! j =
     (if j < n \<and> j < length bf \<and> bf ! j then av ! j - 1 else av ! j)"
  using nth_contribution_loop [of j av "\<lambda>i. bf ! i" "\<lambda>x. x - 1" "min n (length bf)"]
  by (simp add: sub_contributions_def)

lemma nth_add_contributions:
  "j < length av \<Longrightarrow> add_contributions n bf av ! j =
     (if j < n \<and> j < length bf \<and> bf ! j then sat_add32 (av ! j) else av ! j)"
  using nth_contribution_loop [of j av "\<lambda>i. bf ! i" sat_add32 "min n (length bf)"]
  by (simp add: add_contributions_def)

lemma finite_holders: "picker_ok pk \<Longrightarrow> finite (holders pk i)"
  by (rule finite_subset [of _ "dom (pk_bitfields pk)"])
    (auto simp: holders_def peer_has_def picker_ok_def split: option.splits)

lemma card_holders_dom: "picker_ok pk \<Longrightarrow> card (holders pk i) \<le> card (dom (pk_bitfields pk))"
  by (rule card_mono) (auto simp: holders_def peer_has_def picker_ok_def split: option.splits)

text \<open>The peers other than \<open>addr\<close> that hold the piece, before and after \<open>addr\<close>'s bitfield changes.\<close>

lemma holders_set:
  "pk_bitfields pk' = (pk_bitfields pk)(addr \<mapsto> bf) \<Longrightarrow>
     holders pk' i = (if i < length bf \<and> bf ! i then insert addr (holders pk i) else holders pk i - {addr})"
  by (auto simp: holders_def peer_has_def split: if_splits)

lemma holders_remove:
  "pk_bitfields pk' = (pk_bitfields pk)(addr := None) \<Longrightarrow> holders pk' i = holders pk i - {addr}"
  by (auto simp: holders_def peer_has_def)

lemma sub_old_contributions:
  assumes "picker_ok pk" "i < pk_num_pieces pk"
  shows "(case pk_bitfields pk addr of
      Some old \<Rightarrow> sub_contributions (pk_num_pieces pk) old (pk_availability pk)
    | None \<Rightarrow> pk_availability pk) ! i = card (holders pk i - {addr})"
proof (cases "pk_bitfields pk addr")
  case None
  then have "addr \<notin> holders pk i" by (simp add: holders_def peer_has_def)
  then show ?thesis using None assms by (simp add: picker_ok_def)
next
  case (Some old)
  then have "addr \<in> holders pk i \<longleftrightarrow> i < length old \<and> old ! i" by (simp add: holders_def peer_has_def)
  then show ?thesis using Some assms finite_holders [OF assms(1), of i]
    by (auto simp: nth_sub_contributions picker_ok_def card_Diff_singleton_if)
qed

lemma card_insert_holder:
  assumes "picker_ok pk" "card (insert addr (dom (pk_bitfields pk))) \<le> u32_max"
  shows "sat_add32 (card (holders pk i - {addr})) = card (insert addr (holders pk i))"
proof -
  have "insert addr (holders pk i) \<subseteq> insert addr (dom (pk_bitfields pk))"
    by (auto simp: holders_def peer_has_def split: option.splits)
  then have "card (insert addr (holders pk i)) \<le> u32_max"
    using assms by (meson card_mono finite_insert order_trans picker_ok_def)
  then show ?thesis using card.insert_remove [OF finite_holders [OF assms(1), of i]] by (simp add: sat_add32_def)
qed

lemma set_peer_bitfield_ok:
  assumes ok: "picker_ok pk" and room: "card (insert addr (dom (pk_bitfields pk))) \<le> u32_max"
  shows "picker_ok (set_peer_bitfield pk addr bf)"
proof -
  define av where "av = (case pk_bitfields pk addr of
      Some old \<Rightarrow> sub_contributions (pk_num_pieces pk) old (pk_availability pk)
    | None \<Rightarrow> pk_availability pk)"
  have av: "length av = pk_num_pieces pk" "\<And>i. i < pk_num_pieces pk \<Longrightarrow> av ! i = card (holders pk i - {addr})"
    using ok sub_old_contributions [OF ok] by (auto simp: av_def picker_ok_def split: option.splits)
  have set: "set_peer_bitfield pk addr bf = pk\<lparr>pk_availability := add_contributions (pk_num_pieces pk) bf av,
      pk_bitfields := (pk_bitfields pk)(addr \<mapsto> bf)\<rparr>"
    by (simp add: set_peer_bitfield_def av_def Let_def)
  show ?thesis unfolding set picker_ok_def
    using ok room av card_insert_holder [OF ok room] by (auto simp: picker_ok_def nth_add_contributions holders_set)
qed

lemma forget_peer_ok:
  assumes ok: "picker_ok pk"
  shows "picker_ok (forget_peer pk addr)"
proof (cases "pk_bitfields pk addr")
  case None
  then show ?thesis using ok
    by (auto simp: forget_peer_def picker_ok_def holders_def peer_has_def split: if_splits)
next
  case (Some old)
  then show ?thesis
    using ok sub_old_contributions [OF ok, of _ addr] card_Diff1_le [of "dom (pk_bitfields pk)" addr]
    by (auto simp: forget_peer_def Let_def picker_ok_def holders_remove [of _ pk addr] split: if_splits)
qed

lemma add_have_ok:
  assumes ok: "picker_ok pk" and room: "card (insert addr (dom (pk_bitfields pk))) \<le> u32_max"
  shows "picker_ok (add_have pk addr index)"
proof (cases "index < pk_num_pieces pk")
  case False
  then show ?thesis using ok by (simp add: add_have_def)
next
  case True
  define bf where "bf = (let bf = (case pk_bitfields pk addr of
        Some bf \<Rightarrow> bf | None \<Rightarrow> replicate (pk_num_pieces pk) False)
    in if length bf < pk_num_pieces pk then bf @ replicate (pk_num_pieces pk - length bf) False else bf)"
  have len: "pk_num_pieces pk \<le> length bf" by (auto simp: bf_def Let_def)
  have has: "i < length bf \<and> bf ! i \<longleftrightarrow> addr \<in> holders pk i" if "i < pk_num_pieces pk" for i
    using that by (auto simp: bf_def Let_def holders_def peer_has_def nth_append split: option.splits)
  have add: "add_have pk addr index = (if \<not> bf ! index then
      pk\<lparr>pk_bitfields := (pk_bitfields pk)(addr \<mapsto> bf[index := True]),
         pk_availability := (pk_availability pk)[index := sat_add32 (pk_availability pk ! index)]\<rparr>
    else pk\<lparr>pk_bitfields := (pk_bitfields pk)(addr \<mapsto> bf)\<rparr>)"
    using True by (simp add: add_have_def bf_def Let_def)
  show ?thesis
  proof (cases "bf ! index")
    case True
    have "holders (pk\<lparr>pk_bitfields := (pk_bitfields pk)(addr \<mapsto> bf)\<rparr>) i = holders pk i"
      if "i < pk_num_pieces pk" for i
      using has [OF that] by (auto simp: holders_set [of _ pk addr bf])
    then show ?thesis using ok room True unfolding add picker_ok_def by simp
  next
    case False
    then have av: "pk_availability pk ! index = card (holders pk index - {addr})"
      using ok has [of index] \<open>index < pk_num_pieces pk\<close> by (simp add: picker_ok_def)
    let ?pk = "pk\<lparr>pk_bitfields := (pk_bitfields pk)(addr \<mapsto> bf[index := True]),
      pk_availability := (pk_availability pk)[index := sat_add32 (pk_availability pk ! index)]\<rparr>"
    have h: "holders ?pk i = (if i = index then insert addr (holders pk i) else holders pk i)"
      if "i < pk_num_pieces pk" for i
      using has [OF that] that len
      by (subst holders_set [of _ pk addr "bf[index := True]"]) (auto simp: nth_list_update)
    have "pk_availability ?pk ! i = card (holders ?pk i)" if "i < pk_num_pieces pk" for i
      unfolding h [OF that] using that ok av card_insert_holder [OF ok room, of index]
      by (simp add: picker_ok_def nth_list_update)
    then show ?thesis using ok room False unfolding add picker_ok_def by simp
  qed
qed

section \<open>What the picker needs of the piece manager\<close>

lemma foldl_min_le: "foldl min a xs \<le> (a :: nat)"
proof (induction xs arbitrary: a)
  case (Cons x xs)
  have "foldl min (min a x) xs \<le> min a x" by (rule Cons.IH)
  then show ?case by simp
qed simp

lemma foldl_min_lower: "x \<in> set xs \<Longrightarrow> foldl min a xs \<le> (x :: nat)"
proof (induction xs arbitrary: a)
  case (Cons y ys)
  then show ?case using foldl_min_le [of "min a y" ys] by auto
qed simp

lemma foldl_min_attained: "foldl min a xs = a \<or> foldl min a xs \<in> set (xs :: nat list)"
proof (induction xs arbitrary: a)
  case (Cons x xs)
  then show ?case by (cases "a \<le> x") (simp_all add: min_absorb1 min_absorb2, metis)
qed simp

locale piece_view =
  fixes invar :: "'m \<Rightarrow> bool"
    and npieces :: "'m \<Rightarrow> nat"
    and state :: "'m \<Rightarrow> nat \<Rightarrow> piece_state res"
    and wanted :: "'m \<Rightarrow> nat \<Rightarrow> bool"
  assumes state_total: "invar m \<Longrightarrow> i < npieces m \<Longrightarrow> \<exists>s. state m i = Inr s"
    and wanted_range: "invar m \<Longrightarrow> wanted m i \<Longrightarrow> i < npieces m"
begin

definition candidate :: "'m \<Rightarrow> bool list \<Rightarrow> nat set \<Rightarrow> bool \<Rightarrow> nat \<Rightarrow> bool" where
  "candidate m bf in_use endgame i \<longleftrightarrow>
     i < length bf \<and> bf ! i \<and> state m i \<noteq> Inr Complete \<and> wanted m i \<and> (endgame \<or> i \<notin> in_use)"

lemma usable_candidate:
  "invar m \<Longrightarrow> i < npieces m \<Longrightarrow>
     usable (state m) (wanted m) bf in_use endgame i = Inr (candidate m bf in_use endgame i)"
  using state_total [of m i] by (auto simp: usable_def candidate_def)

lemma find_usable_eq:
  "invar m \<Longrightarrow> \<forall>i \<in> set is. i < npieces m \<Longrightarrow>
     find_usable (usable (state m) (wanted m) bf in_use endgame) is =
       Inr (find (candidate m bf in_use endgame) is)"
  by (induction "is") (auto simp: usable_candidate)

text \<open>The single pass equals filtering the candidates by their least availability.\<close>

lemma rarest_loop_eq:
  assumes "invar m" "\<forall>i \<in> set is. i < npieces m"
  shows "rarest_loop (usable (state m) (wanted m) bf in_use endgame) avail is min_av ties =
    Inr (let cs = filter (candidate m bf in_use endgame) is; mn = foldl min min_av (map ((!) avail) cs)
         in (if mn = min_av then ties else []) @ filter (\<lambda>i. avail ! i = mn) cs)"
  using assms
proof (induction "is" arbitrary: min_av ties)
  case (Cons i "is")
  let ?cs = "filter (candidate m bf in_use endgame) is"
  have u: "usable (state m) (wanted m) bf in_use endgame i = Inr (candidate m bf in_use endgame i)"
    using Cons.prems by (intro usable_candidate) auto
  note IH = Cons.IH [OF Cons.prems(1)]
  have le: "foldl min a (map ((!) avail) ?cs) \<le> a" for a by (rule foldl_min_le)
  consider "\<not> candidate m bf in_use endgame i" | "candidate m bf in_use endgame i" "avail ! i < min_av"
    | "candidate m bf in_use endgame i" "avail ! i = min_av"
    | "candidate m bf in_use endgame i" "min_av < avail ! i" by fastforce
  then show ?case
  proof cases
    case 2
    then show ?thesis using Cons.prems u IH le [of "avail ! i"] by (auto simp: Let_def min_absorb2)
  next
    case 4
    then show ?thesis using Cons.prems u IH le [of min_av] by (auto simp: Let_def min_absorb1)
  qed (use Cons.prems u IH in \<open>auto simp: Let_def\<close>)
qed simp

end

interpretation pm_view: piece_view pm_ok pm_num_pieces pm_state is_wanted
  by unfold_locales (auto simp: pm_state_def is_wanted_def pm_ok_def split: if_splits)

section \<open>The choice\<close>

text \<open>A piece the picker may hand to \<open>addr\<close>.\<close>

definition pickable :: "piece_manager \<Rightarrow> 'p picker \<Rightarrow> 'p \<Rightarrow> bool \<Rightarrow> nat \<Rightarrow> bool" where
  "pickable pm pk addr endgame i \<longleftrightarrow>
     peer_has pk addr i \<and> i < pm_num_pieces pm \<and> pm_states pm ! i \<noteq> Complete \<and> is_wanted pm i \<and>
     (endgame \<or> i \<notin> ran (pk_assigned pk))"

lemma pickable_candidate:
  "pm_ok pm \<Longrightarrow> pk_bitfields pk addr = Some bf \<Longrightarrow>
     pm_view.candidate pm bf (ran (pk_assigned pk)) endgame i \<longleftrightarrow> pickable pm pk addr endgame i"
  using pm_view.wanted_range [of pm i]
  by (auto simp: pm_view.candidate_def pickable_def peer_has_def pm_state_def pm_ok_def)

lemma rarest_choice:
  assumes "\<forall>xs. mset (shuffle xs) = mset xs" "\<forall>i \<in> set is. avail ! i \<le> (a :: nat)"
  defines "ties \<equiv> filter (\<lambda>i. avail ! i = foldl min a (map ((!) avail) is)) is"
  shows "case shuffle ties of [] \<Rightarrow> is = []
    | c # _ \<Rightarrow> c \<in> set is \<and> (\<forall>j \<in> set is. avail ! c \<le> avail ! j)"
proof -
  have same: "set (shuffle xs) = set xs" for xs using assms(1) by (metis set_mset_mset)
  show ?thesis
  proof (cases "shuffle ties")
    case Nil
    then have none: "set ties = {}" using same [of ties] by simp
    have "is = []"
    proof (rule ccontr)
      assume "is \<noteq> []"
      then obtain j where j: "j \<in> set is" by (cases "is") auto
      consider "foldl min a (map ((!) avail) is) = a"
        | "foldl min a (map ((!) avail) is) \<in> set (map ((!) avail) is)" using foldl_min_attained [of a "map ((!) avail) is"] by blast
      then show False
      proof cases
        case 1
        then have "avail ! j = a" using assms(2) j foldl_min_lower [of "avail ! j" "map ((!) avail) is" a] by force
        then show False using j 1 none by (auto simp: ties_def)
      qed (use none in \<open>auto simp: ties_def\<close>)
    qed
    then show ?thesis using Nil by simp
  next
    case (Cons c cs)
    then have "c \<in> set ties" using same [of ties] by auto
    then have "c \<in> set is" "avail ! c = foldl min a (map ((!) avail) is)" by (auto simp: ties_def)
    then show ?thesis using Cons foldl_min_lower [of _ "map ((!) avail) is" a] by auto
  qed
qed

lemma availability_le: "picker_ok pk \<Longrightarrow> i < pk_num_pieces pk \<Longrightarrow> pk_availability pk ! i \<le> u32_max"
  using card_holders_dom [of pk i] by (simp add: picker_ok_def)

definition choice :: "(nat list \<Rightarrow> nat list) \<Rightarrow> 'p picker \<Rightarrow> piece_manager \<Rightarrow> 'p \<Rightarrow> bool \<Rightarrow> nat option" where
  "choice shuffle pk pm addr endgame =
     (let cs = filter (pickable pm pk addr endgame) [0..<pk_num_pieces pk] in
      if pk_sequential pk then find (pickable pm pk addr endgame) [0..<pk_num_pieces pk]
      else case shuffle (filter (\<lambda>i. pk_availability pk ! i =
          foldl min u32_max (map ((!) (pk_availability pk)) cs)) cs) of [] \<Rightarrow> None | c # _ \<Rightarrow> Some c)"

lemma pick_for_choice:
  assumes ok: "picker_ok pk" "pm_ok pm" "pk_num_pieces pk = pm_num_pieces pm"
    and fresh: "\<forall>i. pk_assigned pk addr = Some i \<longrightarrow> pm_states pm ! i = Complete \<or> \<not> is_wanted pm i"
    and bf: "pk_bitfields pk addr = Some bf"
  shows "pick_for shuffle pk addr pm endgame = Inr (case choice shuffle pk pm addr endgame of
      None \<Rightarrow> (None, pk) | Some c \<Rightarrow> (Some c, pk\<lparr>pk_assigned := (pk_assigned pk)(addr \<mapsto> c)\<rparr>))"
proof -
  have cand: "pm_view.candidate pm bf (ran (pk_assigned pk)) endgame = pickable pm pk addr endgame"
    using pickable_candidate [OF ok(2) bf] by (simp add: fun_eq_iff)
  have range: "\<forall>i \<in> set [0..<pk_num_pieces pk]. i < pm_num_pieces pm" using ok(3) by simp
  have sticky: "(case pk_assigned pk addr of None \<Rightarrow> Inr None
      | Some i \<Rightarrow> rbind (pm_state pm i) (\<lambda>s. Inr (if s \<noteq> Complete \<and> is_wanted pm i then Some i else None))) = Inr None"
    using ok fresh by (auto simp: picker_ok_def pm_state_def pm_ok_def split: option.splits)
  show ?thesis
    unfolding pick_for_def pick_with_def sticky
    using bf pm_view.find_usable_eq [OF ok(2) range] pm_view.rarest_loop_eq [OF ok(2) range]
    by (auto simp: choice_def Let_def cand split: option.splits list.splits)
qed

lemma choice_spec:
  assumes ok: "picker_ok pk" "pk_num_pieces pk = pm_num_pieces pm"
    and sh: "\<forall>xs. mset (shuffle xs) = mset xs"
  shows "case choice shuffle pk pm addr endgame of
      None \<Rightarrow> \<forall>i. \<not> pickable pm pk addr endgame i
    | Some c \<Rightarrow> pickable pm pk addr endgame c \<and> (\<forall>j. pickable pm pk addr endgame j \<longrightarrow>
        (if pk_sequential pk then c \<le> j else card (holders pk c) \<le> card (holders pk j)))"
proof -
  let ?P = "pickable pm pk addr endgame"
  let ?cs = "filter ?P [0..<pk_num_pieces pk]"
  have P: "?P i \<Longrightarrow> i < pk_num_pieces pk" for i using ok by (simp add: pickable_def)
  show ?thesis
  proof (cases "pk_sequential pk")
    case True
    show ?thesis
    proof (cases "find ?P [0..<pk_num_pieces pk]")
      case None
      then have "choice shuffle pk pm addr endgame = None" "\<forall>i. \<not> ?P i"
        using True P by (auto simp: choice_def find_None_iff)
      then show ?thesis by simp
    next
      case (Some c)
      then have "?P c" "\<forall>j < c. \<not> ?P j" by (auto simp: find_Some_iff)
      then show ?thesis using True Some by (auto simp: choice_def not_less [symmetric])
    qed
  next
    case False
    have "\<forall>i \<in> set ?cs. pk_availability pk ! i \<le> u32_max" using availability_le [OF ok(1)] by simp
    note best = rarest_choice [OF sh this]
    have av: "?P i \<Longrightarrow> pk_availability pk ! i = card (holders pk i)" for i using P ok by (simp add: picker_ok_def)
    show ?thesis using best False P av
      by (auto simp: choice_def Let_def filter_empty_conv split: list.splits)
  qed
qed

section \<open>Runs of the picker\<close>

datatype 'p picker_event =
    BitfieldEv 'p "bool list"
  | HaveEv 'p nat
  | ForgetEv 'p
  | ReleaseAssignmentEv 'p
  | ClearAssignmentEv 'p nat
  | SequentialEv bool
  | PickEv 'p piece_manager bool

fun picker_apply :: "(nat list \<Rightarrow> nat list) \<Rightarrow> 'p picker \<Rightarrow> 'p picker_event \<Rightarrow> 'p picker" where
  "picker_apply shuffle pk (BitfieldEv p bf) = set_peer_bitfield pk p bf"
| "picker_apply shuffle pk (HaveEv p i) = add_have pk p i"
| "picker_apply shuffle pk (ForgetEv p) = forget_peer pk p"
| "picker_apply shuffle pk (ReleaseAssignmentEv p) = release_assignment pk p"
| "picker_apply shuffle pk (ClearAssignmentEv p i) = clear_assignment_if pk p i"
| "picker_apply shuffle pk (SequentialEv on) = set_sequential pk on"
| "picker_apply shuffle pk (PickEv p pm endgame) =
     (case pick_for shuffle pk p pm endgame of Inr (_, pk') \<Rightarrow> pk' | Inl _ \<Rightarrow> pk)"

fun event_peers :: "'p picker_event \<Rightarrow> 'p set" where
  "event_peers (BitfieldEv p bf) = {p}"
| "event_peers (HaveEv p i) = {p}"
| "event_peers _ = {}"

fun event_ok :: "nat \<Rightarrow> 'p picker_event \<Rightarrow> bool" where
  "event_ok n (PickEv p pm endgame) = (pm_ok pm \<and> pm_num_pieces pm = n)"
| "event_ok n _ = True"

lemma holders_same: "pk_bitfields pk' = pk_bitfields pk \<Longrightarrow> holders pk' i = holders pk i"
  by (simp add: holders_def peer_has_def)

lemma picker_ok_assigned:
  assumes "picker_ok pk" "pk_bitfields pk' = pk_bitfields pk" "pk_availability pk' = pk_availability pk"
    and "pk_num_pieces pk' = pk_num_pieces pk"
    and "\<And>p i. pk_assigned pk' p = Some i \<Longrightarrow> pk_assigned pk p = Some i \<or> i < pk_num_pieces pk"
  shows "picker_ok pk'"
  using assms holders_same [OF assms(2)] unfolding picker_ok_def by (metis (no_types, lifting))

lemma pick_for_result:
  assumes ok: "picker_ok pk" "pm_ok pm" "pk_num_pieces pk = pm_num_pieces pm"
  obtains (sticky) i where "pk_assigned pk addr = Some i" "pm_states pm ! i \<noteq> Complete" "is_wanted pm i"
      "pick_for shuffle pk addr pm endgame = Inr (Some i, pk)"
  | (none) "pk_bitfields pk addr = None" "pick_for shuffle pk addr pm endgame = Inr (None, pk)"
  | (fresh) "pick_for shuffle pk addr pm endgame = Inr (case choice shuffle pk pm addr endgame of
      None \<Rightarrow> (None, pk) | Some c \<Rightarrow> (Some c, pk\<lparr>pk_assigned := (pk_assigned pk)(addr \<mapsto> c)\<rparr>))"
proof (cases "\<exists>i. pk_assigned pk addr = Some i \<and> pm_states pm ! i \<noteq> Complete \<and> is_wanted pm i")
  case True
  then obtain i where i: "pk_assigned pk addr = Some i" "pm_states pm ! i \<noteq> Complete" "is_wanted pm i" by blast
  then have "i < length (pm_states pm)" using ok by (simp add: picker_ok_def pm_ok_def)
  then show thesis using sticky [of i] i by (simp add: pick_for_def pick_with_def pm_state_def)
next
  case False
  show thesis
  proof (cases "pk_bitfields pk addr")
    case None
    have "pick_for shuffle pk addr pm endgame = Inr (None, pk)"
      using None False ok
      by (auto simp: pick_for_def pick_with_def pm_state_def picker_ok_def pm_ok_def split: option.splits)
    then show thesis using none None by blast
  next
    case (Some bf)
    then show thesis using fresh pick_for_choice [OF ok _ Some] False by blast
  qed
qed

lemma choice_range: "pk_num_pieces pk = pm_num_pieces pm \<Longrightarrow> picker_ok pk \<Longrightarrow>
    \<forall>xs. mset (shuffle xs) = mset xs \<Longrightarrow> choice shuffle pk pm addr endgame = Some c \<Longrightarrow> c < pk_num_pieces pk"
  using choice_spec [of pk pm shuffle addr endgame] by (simp add: pickable_def)

lemma pick_for_ok:
  assumes ok: "picker_ok pk" "pm_ok pm" "pk_num_pieces pk = pm_num_pieces pm"
    and sh: "\<forall>xs. mset (shuffle xs) = mset xs" and r: "pick_for shuffle pk addr pm endgame = Inr (r, pk')"
  shows "picker_ok pk' \<and> pk_num_pieces pk' = pk_num_pieces pk \<and> pk_bitfields pk' = pk_bitfields pk"
  using ok
proof (cases rule: pick_for_result [where shuffle = shuffle and addr = addr and endgame = endgame])
  case fresh
  show ?thesis
  proof (cases "choice shuffle pk pm addr endgame")
    case None
    then show ?thesis using fresh r ok by simp
  next
    case (Some c)
    have "picker_ok (pk\<lparr>pk_assigned := (pk_assigned pk)(addr \<mapsto> c)\<rparr>)"
      using choice_range [OF ok(3,1) sh Some] by (intro picker_ok_assigned [OF ok(1)]) (auto split: if_splits)
    then show ?thesis using fresh r Some by simp
  qed
qed (use ok r in auto)

lemma picker_frame:
  "dom (pk_bitfields (set_peer_bitfield pk p bf)) = insert p (dom (pk_bitfields pk))"
  "dom (pk_bitfields (add_have pk p i)) \<subseteq> insert p (dom (pk_bitfields pk))"
  "dom (pk_bitfields (forget_peer pk p)) \<subseteq> dom (pk_bitfields pk)"
  "pk_num_pieces (set_peer_bitfield pk p bf) = pk_num_pieces pk"
  "pk_num_pieces (add_have pk p i) = pk_num_pieces pk"
  "pk_num_pieces (forget_peer pk p) = pk_num_pieces pk"
  by (simp_all add: set_peer_bitfield_def add_have_def forget_peer_def Let_def split: option.split) auto

lemma picker_apply_ok:
  assumes "picker_ok pk" "event_ok (pk_num_pieces pk) e" "\<forall>xs. mset (shuffle xs) = mset xs"
    and "card (event_peers e \<union> dom (pk_bitfields pk)) \<le> u32_max"
  shows "picker_ok (picker_apply shuffle pk e) \<and> pk_num_pieces (picker_apply shuffle pk e) = pk_num_pieces pk \<and>
    dom (pk_bitfields (picker_apply shuffle pk e)) \<subseteq> event_peers e \<union> dom (pk_bitfields pk)"
proof (cases e)
  case (BitfieldEv p bf)
  then show ?thesis using assms set_peer_bitfield_ok [of pk p bf] by (simp add: picker_frame)
next
  case (HaveEv p i)
  then show ?thesis using assms add_have_ok [of pk p i] by (simp add: picker_frame)
next
  case (ForgetEv p)
  then show ?thesis using forget_peer_ok [OF assms(1), of p] by (simp add: picker_frame)
next
  case (ReleaseAssignmentEv p)
  have "picker_ok (release_assignment pk p)"
    by (rule picker_ok_assigned [OF assms(1)]) (auto simp: release_assignment_def split: if_splits)
  then show ?thesis using ReleaseAssignmentEv by (simp add: release_assignment_def)
next
  case (ClearAssignmentEv p i)
  have "picker_ok (clear_assignment_if pk p i)"
    by (rule picker_ok_assigned [OF assms(1)])
      (auto simp: clear_assignment_if_def split: option.splits if_splits)
  then show ?thesis using ClearAssignmentEv by (simp add: clear_assignment_if_def split: option.splits)
next
  case (SequentialEv on)
  have "picker_ok (set_sequential pk on)"
    by (rule picker_ok_assigned [OF assms(1)]) (auto simp: set_sequential_def)
  then show ?thesis using SequentialEv by (simp add: set_sequential_def)
next
  case (PickEv p pm endgame)
  then have "pm_ok pm" "pk_num_pieces pk = pm_num_pieces pm" using assms(2) by simp_all
  note ok = pick_for_ok [OF assms(1) this assms(3), of p endgame]
  show ?thesis
  proof (cases "pick_for shuffle pk p pm endgame")
    case (Inr x)
    then show ?thesis using ok [of "fst x" "snd x"] PickEv by (cases x) simp
  qed (use PickEv assms(1) in simp)
qed

lemma picker_run_ok:
  assumes "picker_ok pk" "list_all (event_ok (pk_num_pieces pk)) es" "\<forall>xs. mset (shuffle xs) = mset xs"
    and "finite S" "card S \<le> u32_max" "dom (pk_bitfields pk) \<union> (\<Union>e \<in> set es. event_peers e) \<subseteq> S"
  shows "picker_ok (foldl (picker_apply shuffle) pk es) \<and>
    pk_num_pieces (foldl (picker_apply shuffle) pk es) = pk_num_pieces pk"
  using assms
proof (induction es arbitrary: pk)
  case (Cons e es)
  have "card (event_peers e \<union> dom (pk_bitfields pk)) \<le> card S"
    using Cons.prems(4,6) by (intro card_mono) auto
  then have "card (event_peers e \<union> dom (pk_bitfields pk)) \<le> u32_max" using Cons.prems(5) by simp
  from picker_apply_ok [OF Cons.prems(1) _ Cons.prems(3) this]
  have step: "picker_ok (picker_apply shuffle pk e)"
      "pk_num_pieces (picker_apply shuffle pk e) = pk_num_pieces pk"
      "dom (pk_bitfields (picker_apply shuffle pk e)) \<subseteq> event_peers e \<union> dom (pk_bitfields pk)"
    using Cons.prems(2) by auto
  have "dom (pk_bitfields (picker_apply shuffle pk e)) \<union> (\<Union>e \<in> set es. event_peers e) \<subseteq> S"
    using step(3) Cons.prems(6) unfolding list.set(2) UN_insert by blast
  then show ?case using Cons.IH [OF step(1) _ Cons.prems(3,4,5)] Cons.prems(2) step(2) by simp
qed simp

lemma picker_new_ok: "picker_ok (picker_new n)"
  by (simp add: picker_ok_def picker_new_def holders_def peer_has_def)

section \<open>Properties\<close>

text \<open>
  C38: in every run of the picker, through bitfields that replace earlier ones, haves, disconnects and
  picks, the availability count of each piece is the number of connected peers that advertise it.
\<close>

theorem availability_counts_holders:
  assumes "list_all (event_ok n) es" "\<forall>xs. mset (shuffle xs) = mset xs"
    and "card (\<Union>e \<in> set es. event_peers e) \<le> u32_max" "i < n"
  shows "pk_availability (foldl (picker_apply shuffle) (picker_new n) es) ! i =
    card (holders (foldl (picker_apply shuffle) (picker_new n) es) i)"
proof -
  let ?pk = "foldl (picker_apply shuffle) (picker_new n) es"
  have new: "pk_num_pieces (picker_new n) = n" "dom (pk_bitfields (picker_new n)) = {}"
    by (simp_all add: picker_new_def)
  have fin: "finite (\<Union>e \<in> set es. event_peers e)"
  proof -
    have "finite (event_peers e)" for e :: "'a picker_event" by (cases e) auto
    then show ?thesis by auto
  qed
  have "picker_ok ?pk \<and> pk_num_pieces ?pk = pk_num_pieces (picker_new n)"
    using picker_run_ok [OF picker_new_ok _ assms(2) fin assms(3), of n es] assms(1) by (simp add: new)
  then show ?thesis using assms(4) by (simp add: picker_ok_def new)
qed

theorem availability_counts_holders_witness:
  "pk_availability (foldl (picker_apply (\<lambda>xs. xs)) (picker_new 2)
      [BitfieldEv 1 [True, False], HaveEv (2 :: nat) 0, BitfieldEv 1 [False, True]]) ! 0 =
   card (holders (foldl (picker_apply (\<lambda>xs. xs)) (picker_new 2)
      [BitfieldEv 1 [True, False], HaveEv (2 :: nat) 0, BitfieldEv 1 [False, True]]) 0)"
  by (rule availability_counts_holders) (simp_all add: card_insert_if)



end
