(* ===== verification/RT_Choke.thy ===== *)
theory RT_Choke
  imports RT_Prelude
begin

text \<open>
  The choke scheduler of \<open>scheduler/choke.rs\<close>. An \<open>Instant\<close> is an integer number of milliseconds and
  every operation takes the current time as an argument; the random choice of the optimistic peer is a
  parameter. Byte counts are \<open>u64\<close> values, their sum is checked.
\<close>

definition OPTIMISTIC_INTERVAL :: int where "OPTIMISTIC_INTERVAL = 30000"
definition RATE_WINDOW :: int where "RATE_WINDOW = 20000"
definition SNUB_THRESHOLD :: int where "SNUB_THRESHOLD = 60000"
definition REGULAR_UNCHOKE_SLOTS :: nat where "REGULAR_UNCHOKE_SLOTS = 3"

record 'p choke_scheduler =
  ck_samples :: "'p \<rightharpoonup> (int \<times> nat) list"
  ck_last_block :: "'p \<rightharpoonup> int"
  ck_unchoked :: "'p \<rightharpoonup> bool"
  ck_optimistic :: "'p option"
  ck_last_optimistic_tick :: int
  ck_seeding :: bool

record 'p choke_decision =
  cd_to_unchoke :: "'p list"
  cd_to_choke :: "'p list"
  cd_optimistic :: "'p option"

definition choke_new :: "int \<Rightarrow> 'p choke_scheduler" where
  "choke_new now =
     \<lparr>ck_samples = Map.empty, ck_last_block = Map.empty, ck_unchoked = Map.empty, ck_optimistic = None,
      ck_last_optimistic_tick = now, ck_seeding = False\<rparr>"

definition set_seeding :: "'p choke_scheduler \<Rightarrow> bool \<Rightarrow> 'p choke_scheduler" where
  "set_seeding ck seeding = ck\<lparr>ck_seeding := seeding\<rparr>"

text \<open>Append a sample and drop those at the front that are older than the window.\<close>

definition push_sample :: "'p choke_scheduler \<Rightarrow> int \<Rightarrow> 'p \<Rightarrow> nat \<Rightarrow> 'p choke_scheduler" where
  "push_sample ck now addr bytes =
     (let q = (case ck_samples ck addr of None \<Rightarrow> [] | Some q \<Rightarrow> q) @ [(now, bytes)];
          cutoff = now - RATE_WINDOW
      in ck\<lparr>ck_samples := (ck_samples ck)(addr \<mapsto> dropWhile (\<lambda>(t, _). t < cutoff) q)\<rparr>)"

definition record_download :: "'p choke_scheduler \<Rightarrow> int \<Rightarrow> 'p \<Rightarrow> nat \<Rightarrow> 'p choke_scheduler" where
  "record_download ck now addr bytes =
     (let ck = push_sample ck now addr bytes
      in ck\<lparr>ck_last_block := (ck_last_block ck)(addr \<mapsto> now)\<rparr>)"

definition record_upload :: "'p choke_scheduler \<Rightarrow> int \<Rightarrow> 'p \<Rightarrow> nat \<Rightarrow> 'p choke_scheduler" where
  "record_upload ck now addr bytes = push_sample ck now addr bytes"

definition choke_forget :: "'p choke_scheduler \<Rightarrow> 'p \<Rightarrow> 'p choke_scheduler" where
  "choke_forget ck addr =
     ck\<lparr>ck_samples := (ck_samples ck)(addr := None), ck_last_block := (ck_last_block ck)(addr := None),
        ck_unchoked := (ck_unchoked ck)(addr := None),
        ck_optimistic := (if ck_optimistic ck = Some addr then None else ck_optimistic ck)\<rparr>"

definition rate_for :: "'p choke_scheduler \<Rightarrow> 'p \<Rightarrow> nat res" where
  "rate_for ck addr =
     (case ck_samples ck addr of Some q \<Rightarrow> sum_u64 0 (map snd q) | None \<Rightarrow> Inr 0)"

definition is_snubbed :: "'p choke_scheduler \<Rightarrow> int \<Rightarrow> 'p \<Rightarrow> bool" where
  "is_snubbed ck now addr =
     (case ck_last_block ck addr of Some t \<Rightarrow> now - t > SNUB_THRESHOLD | None \<Rightarrow> True)"

section \<open>The tick\<close>

definition rotate_optimistic ::
    "('p list \<Rightarrow> 'p option) \<Rightarrow> 'p choke_scheduler \<Rightarrow> int \<Rightarrow> 'p list \<Rightarrow> 'p choke_scheduler" where
  "rotate_optimistic pick_random ck now candidates =
     (if now - ck_last_optimistic_tick ck \<ge> OPTIMISTIC_INTERVAL \<or> ck_optimistic ck = None then
        let ck = ck\<lparr>ck_last_optimistic_tick := now\<rparr>
        in case pick_random candidates of Some pick \<Rightarrow> ck\<lparr>ck_optimistic := Some pick\<rparr> | None \<Rightarrow> ck
      else ck)"

definition ranked_peers :: "'p choke_scheduler \<Rightarrow> int \<Rightarrow> 'p list \<Rightarrow> ('p \<times> nat) list res" where
  "ranked_peers ck now candidates =
     rbind (rmapM (\<lambda>a. rbind (rate_for ck a) (\<lambda>r. Inr (a, r)))
       (filter (\<lambda>a. \<not> is_snubbed ck now a \<or> ck_seeding ck) candidates))
     (\<lambda>ranked. Inr (sort_key (\<lambda>(_, r). - int r) ranked))"

definition chosen_peers :: "'p choke_scheduler \<Rightarrow> ('p \<times> nat) list \<Rightarrow> 'p list" where
  "chosen_peers ck ranked =
     (let chosen = map fst (take REGULAR_UNCHOKE_SLOTS ranked)
      in case ck_optimistic ck of
           Some opt \<Rightarrow> if opt \<notin> set chosen then chosen @ [opt] else chosen
         | None \<Rightarrow> chosen)"

text \<open>The loop over the candidates that collects the changes.\<close>

fun choke_loop :: "'p list \<Rightarrow> 'p list \<Rightarrow> ('p \<rightharpoonup> bool) \<Rightarrow> 'p list \<Rightarrow> 'p list
    \<Rightarrow> 'p list \<times> 'p list \<times> ('p \<rightharpoonup> bool)" where
  "choke_loop chosen [] unchoked to_unchoke to_choke = (to_unchoke, to_choke, unchoked)"
| "choke_loop chosen (addr # rest) unchoked to_unchoke to_choke =
     (let want = addr \<in> set chosen; have' = (case unchoked addr of Some b \<Rightarrow> b | None \<Rightarrow> False) in
      if want \<and> \<not> have' then choke_loop chosen rest (unchoked(addr \<mapsto> True)) (to_unchoke @ [addr]) to_choke
      else if \<not> want \<and> have' then choke_loop chosen rest (unchoked(addr \<mapsto> False)) to_unchoke (to_choke @ [addr])
      else choke_loop chosen rest unchoked to_unchoke to_choke)"

definition tick ::
    "('p list \<Rightarrow> 'p option) \<Rightarrow> 'p choke_scheduler \<Rightarrow> int \<Rightarrow> 'p list
      \<Rightarrow> ('p choke_decision \<times> 'p choke_scheduler) res" where
  "tick pick_random ck now candidates =
     (let ck = rotate_optimistic pick_random ck now candidates in
      rbind (ranked_peers ck now candidates) (\<lambda>ranked.
      let (to_unchoke, to_choke, unchoked) =
            choke_loop (chosen_peers ck ranked) candidates (ck_unchoked ck) [] []
      in Inr (\<lparr>cd_to_unchoke = to_unchoke, cd_to_choke = to_choke, cd_optimistic = ck_optimistic ck\<rparr>,
              ck\<lparr>ck_unchoked := unchoked\<rparr>)))"

section \<open>Facts\<close>

definition unchoked_in :: "('p \<rightharpoonup> bool) \<Rightarrow> 'p \<Rightarrow> bool" where
  "unchoked_in m a \<longleftrightarrow> m a = Some True"

lemma unchoked_in_upd [simp]: "unchoked_in (m(a \<mapsto> b)) x \<longleftrightarrow> (if x = a then b else unchoked_in m x)"
  by (simp add: unchoked_in_def)

lemma choke_loop_spec:
  "choke_loop chosen as m us cs = (us', cs', m') \<Longrightarrow>
     (\<forall>a. unchoked_in m' a \<longleftrightarrow> (if a \<in> set as then a \<in> set chosen else unchoked_in m a)) \<and>
     (\<forall>a. a \<in> set us' \<longleftrightarrow> a \<in> set us \<or> (a \<in> set as \<and> a \<in> set chosen \<and> \<not> unchoked_in m a)) \<and>
     (\<forall>a. a \<in> set cs' \<longleftrightarrow> a \<in> set cs \<or> (a \<in> set as \<and> a \<notin> set chosen \<and> unchoked_in m a))"
proof (induction chosen as m us cs rule: choke_loop.induct)
  case (2 chosen addr rest m us cs)
  have have': "(case m addr of Some b \<Rightarrow> b | None \<Rightarrow> False) \<longleftrightarrow> unchoked_in m addr"
    by (auto simp: unchoked_in_def split: option.splits)
  consider (un) "addr \<in> set chosen" "\<not> unchoked_in m addr" | (ch) "addr \<notin> set chosen" "unchoked_in m addr"
    | (id) "addr \<in> set chosen \<longleftrightarrow> unchoked_in m addr" by blast
  then show ?case
  proof cases
    case un
    then have "choke_loop chosen rest (m(addr \<mapsto> True)) (us @ [addr]) cs = (us', cs', m')"
      using "2.prems" have' by (simp add: Let_def)
    from "2.IH"(1) [OF refl refl _ this] un have' show ?thesis by (auto simp: unchoked_in_def split: if_splits)
  next
    case ch
    then have "choke_loop chosen rest (m(addr \<mapsto> False)) us (cs @ [addr]) = (us', cs', m')"
      using "2.prems" have' by (simp add: Let_def)
    from "2.IH"(2) [OF refl refl _ _ this] ch have' show ?thesis by (auto simp: unchoked_in_def split: if_splits)
  next
    case id
    then have "choke_loop chosen rest m us cs = (us', cs', m')"
      using "2.prems" have' by (simp add: Let_def split: if_splits)
    from "2.IH"(3) [OF refl refl _ _ this] id have' show ?thesis by auto
  qed
qed simp

lemma tick_cases:
  assumes "tick pr ck now cands = Inr (d, ck')"
  obtains ranked where "ranked_peers (rotate_optimistic pr ck now cands) now cands = Inr ranked"
    "choke_loop (chosen_peers (rotate_optimistic pr ck now cands) ranked) cands (ck_unchoked ck) [] [] =
       (cd_to_unchoke d, cd_to_choke d, ck_unchoked ck')"
    "cd_optimistic d = ck_optimistic ck'" "ck_optimistic ck' = ck_optimistic (rotate_optimistic pr ck now cands)"
proof -
  have un: "ck_unchoked (rotate_optimistic pr ck now cands) = ck_unchoked ck"
    by (simp add: rotate_optimistic_def Let_def split: option.split)
  obtain ranked where r: "ranked_peers (rotate_optimistic pr ck now cands) now cands = Inr ranked"
    using assms by (auto simp: tick_def Let_def)
  obtain us cs m where l: "choke_loop (chosen_peers (rotate_optimistic pr ck now cands) ranked) cands
      (ck_unchoked ck) [] [] = (us, cs, m)" by (metis prod_cases3)
  show thesis using assms that [OF r] l by (auto simp: tick_def Let_def un r)
qed

lemma length_chosen: "card (set (chosen_peers ck ranked)) \<le> REGULAR_UNCHOKE_SLOTS + 1"
proof -
  have "length (chosen_peers ck ranked) \<le> REGULAR_UNCHOKE_SLOTS + 1"
    by (auto simp: chosen_peers_def Let_def split: option.splits)
  then show ?thesis using card_length [of "chosen_peers ck ranked"] by linarith
qed

lemma ranked_peers_props:
  assumes "ranked_peers ck now cands = Inr ranked"
  shows "set ranked = {(a, r). a \<in> set cands \<and> (\<not> is_snubbed ck now a \<or> ck_seeding ck) \<and> rate_for ck a = Inr r}"
    and "sorted_wrt (\<lambda>x y. snd y \<le> snd x) ranked"
proof -
  let ?elig = "filter (\<lambda>a. \<not> is_snubbed ck now a \<or> ck_seeding ck) cands"
  obtain rs where rs: "list_all2 (\<lambda>a ar. rbind (rate_for ck a) (\<lambda>r. Inr (a, r)) = Inr ar) ?elig rs"
    and ranked: "ranked = sort_key (\<lambda>(_, r). - int r) rs"
    using assms by (auto simp: ranked_peers_def rmapM_Inr_iff)
  show "sorted_wrt (\<lambda>x y. snd y \<le> snd x) ranked"
    using sorted_sort_key [of "\<lambda>(_, r). - int r" rs]
    by (auto simp: ranked sorted_map case_prod_unfold elim!: sorted_wrt_mono_rel [rotated])
  have "set rs = {(a, r). a \<in> set ?elig \<and> rate_for ck a = Inr r}"
    using rs
  proof (induction rule: list_all2_induct)
    case (Cons a as ar rs)
    then show ?case by auto
  qed simp
  then show "set ranked = {(a, r). a \<in> set cands \<and> (\<not> is_snubbed ck now a \<or> ck_seeding ck) \<and> rate_for ck a = Inr r}"
    by (auto simp: ranked)
qed

lemma sorted_take_drop:
  "sorted_wrt P xs \<Longrightarrow> x \<in> set (take k xs) \<Longrightarrow> y \<in> set (drop k xs) \<Longrightarrow> P x y"
  using sorted_wrt_append [of P "take k xs" "drop k xs"] by simp

lemma rotate_fields:
  "ck_samples (rotate_optimistic pr ck now cands) = ck_samples ck"
  "ck_last_block (rotate_optimistic pr ck now cands) = ck_last_block ck"
  "ck_seeding (rotate_optimistic pr ck now cands) = ck_seeding ck"
  by (simp_all add: rotate_optimistic_def Let_def split: option.split)

text \<open>A scheduler that saw four peers, for the examples.\<close>

definition sample_ck :: "nat choke_scheduler" where
  "sample_ck = record_download (record_download (record_download (record_download (choke_new 0)
     10 1 500) 20 2 700) 20 3 300) 20 4 100"

lemma sample_tick: "\<exists>d ck'. tick (\<lambda>xs. case xs of [] \<Rightarrow> None | x # _ \<Rightarrow> Some x) sample_ck 30 [1, 2, 3, 4] = Inr (d, ck') \<and>
    unchoked_in (ck_unchoked ck') 2 \<and> \<not> unchoked_in (ck_unchoked ck') 4 \<and> ck_optimistic ck' = Some 1"
  by (simp add: sample_ck_def record_download_def push_sample_def choke_new_def tick_def rotate_optimistic_def
      ranked_peers_def rate_for_def is_snubbed_def chosen_peers_def SNUB_THRESHOLD_def RATE_WINDOW_def
      REGULAR_UNCHOKE_SLOTS_def Let_def unchoked_in_def numeral_3_eq_3 del: One_nat_def)

lemma sample_ck_snub: "\<not> is_snubbed sample_ck 30 4"
  by (simp add: sample_ck_def record_download_def push_sample_def choke_new_def is_snubbed_def SNUB_THRESHOLD_def Let_def)

section \<open>Properties\<close>

text \<open>
  The decision of a tick is exactly the change it makes: the peers to unchoke are those that become
  unchoked, the peers to choke those that stop being unchoked, and nobody but a candidate changes.
\<close>

theorem tick_decision:
  assumes "tick pr ck now cands = Inr (d, ck')"
  shows "set (cd_to_unchoke d) = {a. unchoked_in (ck_unchoked ck') a \<and> \<not> unchoked_in (ck_unchoked ck) a} \<and>
    set (cd_to_choke d) = {a. unchoked_in (ck_unchoked ck) a \<and> \<not> unchoked_in (ck_unchoked ck') a} \<and>
    set (cd_to_unchoke d) \<union> set (cd_to_choke d) \<subseteq> set cands"
  using assms
proof (cases rule: tick_cases)
  case (1 ranked)
  from choke_loop_spec [OF 1(2)] show ?thesis by (auto split: if_splits)
qed

theorem tick_decision_witness:
  "\<exists>d ck'. tick (\<lambda>xs. case xs of [] \<Rightarrow> None | x # _ \<Rightarrow> Some x) sample_ck 30 [1, 2, 3, 4] = Inr (d, ck') \<and>
     set (cd_to_unchoke d) \<union> set (cd_to_choke d) \<subseteq> set [1, 2, 3, 4]"
  using sample_tick tick_decision by blast

text \<open>
  After a tick that saw every connected peer, at most four peers are unchoked: the three regular
  slots and the optimistic one.
\<close>

theorem tick_slots:
  assumes "tick pr ck now cands = Inr (d, ck')" "{a. unchoked_in (ck_unchoked ck) a} \<subseteq> set cands"
  shows "card {a. unchoked_in (ck_unchoked ck') a} \<le> 4"
  using assms(1)
proof (cases rule: tick_cases)
  case (1 ranked)
  let ?chosen = "chosen_peers (rotate_optimistic pr ck now cands) ranked"
  have "{a. unchoked_in (ck_unchoked ck') a} \<subseteq> set ?chosen"
    using choke_loop_spec [OF 1(2)] assms(2) by auto
  then have "card {a. unchoked_in (ck_unchoked ck') a} \<le> card (set ?chosen)" by (intro card_mono) auto
  then show ?thesis
    using length_chosen [of "rotate_optimistic pr ck now cands" ranked] by (simp add: REGULAR_UNCHOKE_SLOTS_def)
qed

theorem tick_slots_witness:
  "\<exists>d ck'. tick (\<lambda>xs. case xs of [] \<Rightarrow> None | x # _ \<Rightarrow> Some x) sample_ck 30 [1, 2, 3, 4] = Inr (d, ck') \<and>
     card {a. unchoked_in (ck_unchoked ck') a} \<le> 4"
proof -
  have "{a. unchoked_in (ck_unchoked sample_ck) a} \<subseteq> set [1, 2, 3, 4]"
    by (simp add: sample_ck_def record_download_def push_sample_def choke_new_def unchoked_in_def Let_def)
  then show ?thesis using sample_tick tick_slots by blast
qed

text \<open>
  C40: tit for tat: a candidate that stays choked, while it is eligible, has at most the rate of every
  peer in a regular slot.
\<close>

theorem tick_ranking:
  assumes "tick pr ck now cands = Inr (d, ck')"
    and "a \<in> set cands" "unchoked_in (ck_unchoked ck') a" "ck_optimistic ck' \<noteq> Some a"
    and "b \<in> set cands" "\<not> unchoked_in (ck_unchoked ck') b" "\<not> is_snubbed ck now b \<or> ck_seeding ck"
  shows "\<exists>ra rb. rate_for ck a = Inr ra \<and> rate_for ck b = Inr rb \<and> rb \<le> ra"
  using assms(1)
proof (cases rule: tick_cases)
  case (1 ranked)
  let ?ck = "rotate_optimistic pr ck now cands"
  have same: "is_snubbed ?ck = is_snubbed ck" "rate_for ?ck = rate_for ck" "ck_seeding ?ck = ck_seeding ck"
    by (simp_all add: fun_eq_iff is_snubbed_def rate_for_def rotate_fields)
  note ranked = ranked_peers_props [OF 1(1), unfolded same]
  have chosen: "a \<in> set (chosen_peers ?ck ranked)" "b \<notin> set (chosen_peers ?ck ranked)"
    using choke_loop_spec [OF 1(2)] assms by (metis (full_types))+
  then obtain ra where ra: "(a, ra) \<in> set (take REGULAR_UNCHOKE_SLOTS ranked)"
    using assms(4) 1(4) by (auto simp: chosen_peers_def Let_def split: option.splits if_splits)
  have "\<exists>rb. (b, rb) \<in> set ranked"
  proof -
    have "list_all (\<lambda>c. \<exists>r. rate_for ck c = Inr r) (filter (\<lambda>a. \<not> is_snubbed ck now a \<or> ck_seeding ck) cands)"
      using 1(1) unfolding ranked_peers_def same
      by (auto simp: rmapM_Inr_iff list_all_length list_all2_conv_all_nth)
    then show ?thesis using assms(5,7) ranked(1) by (auto simp: list_all_iff)
  qed
  then obtain rb where rb: "(b, rb) \<in> set ranked" by blast
  have "b \<notin> fst ` set (take REGULAR_UNCHOKE_SLOTS ranked)"
    using chosen(2) by (auto simp: chosen_peers_def Let_def split: option.splits if_splits)
  then have "(b, rb) \<in> set (drop REGULAR_UNCHOKE_SLOTS ranked)"
    using rb append_take_drop_id [of REGULAR_UNCHOKE_SLOTS ranked]
    by (metis Un_iff fst_conv image_eqI set_append)
  then have "rb \<le> ra" using sorted_take_drop [OF ranked(2) ra, of "(b, rb)"] by simp
  then show ?thesis using ranked(1) rb ra by (auto dest!: in_set_takeD)
qed

theorem tick_ranking_witness:
  "\<exists>ra rb. rate_for sample_ck 2 = Inr ra \<and> rate_for sample_ck 4 = Inr rb \<and> rb \<le> ra"
proof -
  obtain d ck' where t: "tick (\<lambda>xs. case xs of [] \<Rightarrow> None | x # _ \<Rightarrow> Some x) sample_ck 30 [1, 2, 3, 4] = Inr (d, ck')"
    "unchoked_in (ck_unchoked ck') 2" "\<not> unchoked_in (ck_unchoked ck') 4" "ck_optimistic ck' = Some 1"
    using sample_tick by blast
  show ?thesis by (rule tick_ranking [OF t(1)]) (use t sample_ck_snub in auto)
qed

end
