(* ===== verification/RT_Layout.thy ===== *)
theory RT_Layout
  imports RT_Metainfo
begin

text \<open>
  The physical layout of a torrent, \<open>src/src/storage/layout.rs\<close>: which file holds which byte of the
  torrent stream, the containment of the attacker-chosen paths, and selective download. Paths are byte
  strings (Unix); the download root is taken to be UTF-8, so that \<open>to_string_lossy\<close> is the identity.
\<close>

record file_span =
  sp_path :: path
  sp_start :: nat
  sp_length :: nat

definition span_end :: "file_span \<Rightarrow> nat" where
  "span_end f = sp_start f + sp_length f"

section \<open>Containment of paths\<close>

definition WINDOWS_RESERVED :: "bytes list" where
  "WINDOWS_RESERVED = map ascii
     [''con'', ''prn'', ''aux'', ''nul'', ''com1'', ''com2'', ''com3'', ''com4'', ''com5'', ''com6'',
      ''com7'', ''com8'', ''com9'', ''lpt1'', ''lpt2'', ''lpt3'', ''lpt4'', ''lpt5'', ''lpt6'',
      ''lpt7'', ''lpt8'', ''lpt9'']"

definition to_ascii_lowercase :: "bytes \<Rightarrow> bytes" where
  "to_ascii_lowercase s = map (\<lambda>b. if 65 \<le> b \<and> b \<le> 90 then b + 32 else b) s"

definition trim_end_matches :: "(u8 \<Rightarrow> bool) \<Rightarrow> bytes \<Rightarrow> bytes" where
  "trim_end_matches p s = rev (dropWhile p (rev s))"

definition is_windows_reserved :: "bytes \<Rightarrow> bool" where
  "is_windows_reserved name =
     (let lower = to_ascii_lowercase name;
          trimmed = trim_end_matches (\<lambda>b. b = 32 \<or> b = 46) lower;
          stem = hd (split_on 46 trimmed)
      in stem \<in> set WINDOWS_RESERVED)"

definition joined_under_root :: "path \<Rightarrow> path \<Rightarrow> path res" where
  "joined_under_root base rel =
     (let full = path_join base rel in
      if \<not> path_starts_with full base then Inl (Bencode ''unsafe torrent path '') else Inr full)"

definition ensure_safe_leaf_name :: "bytes \<Rightarrow> unit res" where
  "ensure_safe_leaf_name name =
     (case components name of
        [Normal part] \<Rightarrow>
          if is_windows_reserved part then Inl (Bencode ''unsafe torrent name '') else Inr ()
      | _ \<Rightarrow> Inl (Bencode ''unsafe torrent name ''))"

fun safe_components :: "component list \<Rightarrow> unit res" where
  "safe_components [] = Inr ()"
| "safe_components (Normal part # cs) =
     (if is_windows_reserved part then Inl (Bencode ''unsafe torrent path '') else safe_components cs)"
| "safe_components (c # cs) = Inl (Bencode ''unsafe torrent path '')"

definition ensure_safe_relative_path :: "path \<Rightarrow> unit res" where
  "ensure_safe_relative_path p =
     rbind (safe_components (components p)) (\<lambda>_.
     if components p = [] then Inl (Bencode ''unsafe torrent path '') else Inr ())"

section \<open>Building the layout\<close>

record layout =
  ly_root :: path
  ly_files :: "file_span list"
  ly_piece_length :: nat
  ly_total_length :: nat
  ly_num_pieces :: nat

fun multi_spans :: "path \<Rightarrow> nat \<Rightarrow> file_entry list \<Rightarrow> file_span list res" where
  "multi_spans base offset [] = Inr []"
| "multi_spans base offset (e # es) =
     rbind (ensure_safe_relative_path (fe_path e)) (\<lambda>_.
     rbind (joined_under_root base (fe_path e)) (\<lambda>full.
     if offset + fe_length e > u64_max then Inl (Panic ''attempt to add with overflow'')
     else rbind (multi_spans base (offset + fe_length e) es) (\<lambda>spans.
     Inr (\<lparr>sp_path = full, sp_start = offset, sp_length = fe_length e\<rparr> # spans))))"

definition from_torrent :: "path \<Rightarrow> torrent_file \<Rightarrow> layout res" where
  "from_torrent root t =
     rbind (ensure_safe_leaf_name (ti_name (tf_info t))) (\<lambda>_.
     rbind (case ti_files (tf_info t) of
              Single len \<Rightarrow>
                rbind (joined_under_root root (ti_name (tf_info t))) (\<lambda>full.
                Inr [\<lparr>sp_path = full, sp_start = 0, sp_length = len\<rparr>])
            | Multi entries \<Rightarrow> multi_spans (path_join root (ti_name (tf_info t))) 0 entries) (\<lambda>files.
     rbind (total_length t) (\<lambda>tot.
     Inr \<lparr>ly_root = root, ly_files = files, ly_piece_length = ti_piece_length (tf_info t),
          ly_total_length = tot, ly_num_pieces = num_pieces t\<rparr>)))"

section \<open>Byte ranges\<close>

text \<open>
  The loop of \<open>Layout::slices\<close> from file \<open>i\<close> on, over the range from \<open>global_start\<close> to \<open>fin\<close>: triples of
  file index, offset in the file and byte count.
\<close>

fun slices_loop :: "nat \<Rightarrow> file_span list \<Rightarrow> nat \<Rightarrow> nat \<Rightarrow> (nat \<times> nat \<times> nat) list" where
  "slices_loop i [] global_start fin = []"
| "slices_loop i (f # fs) global_start fin =
     (if span_end f \<le> global_start then slices_loop (i + 1) fs global_start fin
      else if sp_start f \<ge> fin then []
      else
        let slice_start = max global_start (sp_start f); slice_end = min fin (span_end f) in
        if slice_end \<le> slice_start then slices_loop (i + 1) fs global_start fin
        else (i, slice_start - sp_start f, slice_end - slice_start) # slices_loop (i + 1) fs global_start fin)"

definition slices :: "layout \<Rightarrow> nat \<Rightarrow> nat \<Rightarrow> (nat \<times> nat \<times> nat) list" where
  "slices ly global_start len = slices_loop 0 (ly_files ly) global_start (global_start + len)"

definition slices_for_piece :: "layout \<Rightarrow> nat \<Rightarrow> nat \<Rightarrow> (nat \<times> nat \<times> nat) list" where
  "slices_for_piece ly piece_index piece_size = slices ly (piece_index * ly_piece_length ly) piece_size"

definition ly_piece_size :: "layout \<Rightarrow> nat \<Rightarrow> nat" where
  "ly_piece_size ly index =
     (if index + 1 = ly_num_pieces ly then
        let r = ly_total_length ly mod ly_piece_length ly in if r = 0 then ly_piece_length ly else r
      else ly_piece_length ly)"

section \<open>Selective download\<close>

text \<open>\<open>str::contains\<close>.\<close>

definition str_contains :: "bytes \<Rightarrow> bytes \<Rightarrow> bool" where
  "str_contains s pat = list_ex (\<lambda>i. take (length pat) (drop i s) = pat) [0..<length s + 1]"

definition span_selected :: "bytes list \<Rightarrow> file_span \<Rightarrow> bool" where
  "span_selected selectors f = list_ex (\<lambda>s. str_contains (sp_path f) s) selectors"

definition selected_paths :: "layout \<Rightarrow> bytes list \<Rightarrow> path list" where
  "selected_paths ly selectors =
     map sp_path (filter (\<lambda>f. selectors = [] \<or> span_selected selectors f) (ly_files ly))"

definition wanted_pieces :: "layout \<Rightarrow> bytes list \<Rightarrow> bool list" where
  "wanted_pieces ly selectors =
     (if selectors = [] then replicate (ly_num_pieces ly) True
      else
        let selected = filter (span_selected selectors) (ly_files ly) in
        map (\<lambda>idx.
          let piece_start = idx * ly_piece_length ly;
              piece_end = min (piece_start + ly_piece_length ly) (ly_total_length ly)
          in list_ex (\<lambda>f. sp_start f < piece_end \<and> piece_start < span_end f) selected)
        [0..<ly_num_pieces ly])"

definition wanted_files :: "layout \<Rightarrow> bytes list \<Rightarrow> bool list" where
  "wanted_files ly selectors =
     (if selectors = [] then replicate (length (ly_files ly)) True
      else
        let wp = wanted_pieces ly selectors in
        foldl (\<lambda>ws idx.
          if wp ! idx then
            foldl (\<lambda>ws (file_idx, _, _). ws[file_idx := True]) ws
              (slices_for_piece ly idx (ly_piece_size ly idx))
          else ws)
        (replicate (length (ly_files ly)) False) [0..<length wp])"

section \<open>The stream of cells\<close>

text \<open>
  The torrent stream as the list of its cells, a cell being a file index and an offset in that file. The
  spans of a layout are contiguous, so position \<open>g\<close> of the stream is the \<open>g\<close>-th cell.
\<close>

fun contiguous :: "nat \<Rightarrow> file_span list \<Rightarrow> bool" where
  "contiguous off [] = True"
| "contiguous off (f # fs) \<longleftrightarrow> sp_start f = off \<and> contiguous (off + sp_length f) fs"

fun cells_from :: "nat \<Rightarrow> file_span list \<Rightarrow> (nat \<times> nat) list" where
  "cells_from i [] = []"
| "cells_from i (f # fs) = map (Pair i) [0..<sp_length f] @ cells_from (i + 1) fs"

definition cells :: "layout \<Rightarrow> (nat \<times> nat) list" where
  "cells ly = cells_from 0 (ly_files ly)"

definition expand :: "(nat \<times> nat \<times> nat) list \<Rightarrow> (nat \<times> nat) list" where
  "expand sl = concat (map (\<lambda>(i, off, n). map (Pair i) [off..<off + n]) sl)"

definition layout_ok :: "layout \<Rightarrow> bool" where
  "layout_ok ly \<longleftrightarrow>
     contiguous 0 (ly_files ly) \<and> ly_total_length ly = sum_list (map sp_length (ly_files ly)) \<and>
     0 < ly_piece_length ly \<and> 0 < ly_total_length ly \<and> ly_total_length ly \<le> u64_max \<and>
     ly_num_pieces ly = div_ceil (ly_total_length ly) (ly_piece_length ly)"

lemma expand_simps [simp]:
  "expand [] = []" "expand ((i, off, n) # sl) = map (Pair i) [off..<off + n] @ expand sl"
  by (simp_all add: expand_def)

lemma length_cells_from: "length (cells_from i fs) = sum_list (map sp_length fs)"
  by (induction fs arbitrary: i) auto

lemma length_cells: "layout_ok ly \<Longrightarrow> length (cells ly) = ly_total_length ly"
  by (simp add: cells_def length_cells_from layout_ok_def)

lemma slices_loop_beyond: "contiguous off fs \<Longrightarrow> fin \<le> off \<Longrightarrow> gs \<le> fin \<Longrightarrow> slices_loop i fs gs fin = []"
  by (induction fs arbitrary: i off) (auto simp: span_end_def)

lemma slices_loop_cells:
  "contiguous off fs \<Longrightarrow> gs \<le> fin \<Longrightarrow>
     expand (slices_loop i fs gs fin) = take (fin - max gs off) (drop (gs - off) (cells_from i fs))"
proof (induction fs arbitrary: i off)
  case (Cons f fs)
  let ?n = "sp_length f"
  have f: "sp_start f = off" "span_end f = off + ?n" and fs: "contiguous (off + ?n) fs"
    using Cons.prems by (auto simp: span_end_def)
  note IH = Cons.IH [OF fs Cons.prems(2), of "i + 1"]
  consider "off + ?n \<le> gs" | "gs < off + ?n" "fin \<le> off" | "gs < off + ?n" "off < fin" by linarith
  then show ?case
  proof cases
    case 1
    then have "max gs off = gs" "max gs (off + ?n) = gs" "gs - off - ?n = gs - (off + ?n)" by auto
    then show ?thesis using IH f 1 by simp
  next
    case 2
    then show ?thesis using f by simp
  next
    case 3
    let ?ss = "max gs off" and ?se = "min fin (off + ?n)"
    have rest: "expand (slices_loop (i + 1) fs gs fin) = take (fin - (off + ?n)) (cells_from (i + 1) fs)"
      using IH 3 by (simp add: max_def)
    have seg: "map (Pair i) [?ss - off..<?se - off] = take (fin - ?ss) (drop (gs - off) (map (Pair i) [0..<?n]))"
    proof (cases "fin \<le> off + ?n \<and> gs \<le> fin")
      case True
      then have "take (fin - ?ss) [gs - off..<?n] = [gs - off..<gs - off + (fin - ?ss)]"
        using 3 by (intro take_upt) linarith
      moreover have "?ss - off = gs - off" "?se - off = gs - off + (fin - ?ss)" using True 3 by linarith+
      ultimately show ?thesis by (simp only: drop_map take_map drop_upt add_0)
    next
      case False
      then have "off + ?n < fin" using Cons.prems(2) by linarith
      then have "?ss - off = gs - off" "?se - off = ?n" "?n - (gs - off) \<le> fin - ?ss" using 3 by linarith+
      then show ?thesis by (simp add: drop_map take_map)
    qed
    have left: "expand (slices_loop i (f # fs) gs fin) =
        map (Pair i) [?ss - off..<?se - off] @ expand (slices_loop (i + 1) fs gs fin)"
    proof (cases "?se \<le> ?ss")
      case True
      then show ?thesis using 3 f by (simp add: Let_def)
    next
      case False
      then have "?ss - off + (?se - ?ss) = ?se - off" by linarith
      then show ?thesis using 3 f False by (simp add: Let_def not_le)
    qed
    have "fin - ?ss - (?n - (gs - off)) = fin - (off + ?n)" using 3 by linarith
    moreover have "gs - off - ?n = 0" using 3 by linarith
    ultimately show ?thesis unfolding left seg rest by simp
  qed
qed simp

lemma slices_cells:
  "layout_ok ly \<Longrightarrow> expand (slices ly gs len) = take len (drop gs (cells ly))"
  using slices_loop_cells [of 0 "ly_files ly" gs "gs + len" 0] by (simp add: slices_def cells_def layout_ok_def)

section \<open>What the constructor guarantees\<close>

definition under_root :: "path \<Rightarrow> path \<Rightarrow> bool" where
  "under_root base p \<longleftrightarrow>
     (\<exists>rel. rel \<noteq> [] \<and> components p = components base @ map Normal rel \<and> list_all (\<lambda>s. \<not> is_windows_reserved s) rel)"

lemma safe_components_Inr:
  "safe_components cs = Inr u \<longleftrightarrow> (\<exists>rel. cs = map Normal rel \<and> list_all (\<lambda>s. \<not> is_windows_reserved s) rel)"
proof (induction cs rule: safe_components.induct)
  case (2 part cs)
  show ?case
  proof
    assume "safe_components (Normal part # cs) = Inr u"
    then obtain rel where "cs = map Normal rel" "list_all (\<lambda>s. \<not> is_windows_reserved s) rel" "\<not> is_windows_reserved part"
      using 2 by (auto split: if_splits)
    then show "\<exists>rel. Normal part # cs = map Normal rel \<and> list_all (\<lambda>s. \<not> is_windows_reserved s) rel"
      by (intro exI [of _ "part # rel"]) simp
  qed (use 2 in \<open>auto simp: Cons_eq_map_conv\<close>)
qed (auto simp: Cons_eq_map_conv)

lemma ensure_safe_relative_path_Inr:
  "ensure_safe_relative_path p = Inr u \<longleftrightarrow>
     (\<exists>rel. rel \<noteq> [] \<and> components p = map Normal rel \<and> list_all (\<lambda>s. \<not> is_windows_reserved s) rel)"
  by (auto simp: ensure_safe_relative_path_def safe_components_Inr)

lemma ensure_safe_leaf_name_Inr:
  "ensure_safe_leaf_name n = Inr u \<longleftrightarrow> (\<exists>s. components n = [Normal s] \<and> \<not> is_windows_reserved s)"
  by (auto simp: ensure_safe_leaf_name_def split: list.splits component.splits if_splits)

lemma map_Normal_all [simp]: "list_all (\<lambda>c. \<exists>n. c = Normal n) (map Normal rel)"
  by (simp add: list_all_iff)

lemma joined_contained:
  assumes "components rel = map Normal ns"
  shows "joined_under_root base rel = Inr (path_join base rel)"
    "components (path_join base rel) = components base @ map Normal ns"
  using assms components_join_normal [of rel base] starts_with_join [of rel base]
  by (simp_all add: joined_under_root_def)

lemma multi_spans_props:
  "multi_spans base off es = Inr fs \<Longrightarrow>
     contiguous off fs \<and> map sp_length fs = map fe_length es \<and> list_all (\<lambda>f. under_root base (sp_path f)) fs"
  by (induction base off es arbitrary: fs rule: multi_spans.induct)
    (auto simp: ensure_safe_relative_path_Inr joined_contained under_root_def split: if_splits)

lemma contained_trans:
  "components mid = components base @ [Normal s] \<Longrightarrow> \<not> is_windows_reserved s \<Longrightarrow> under_root mid p \<Longrightarrow> under_root base p"
proof -
  assume mid: "components mid = components base @ [Normal s]" "\<not> is_windows_reserved s" and "under_root mid p"
  then obtain rel where "components p = components mid @ map Normal rel" "list_all (\<lambda>s. \<not> is_windows_reserved s) rel"
    by (auto simp: under_root_def)
  with mid show ?thesis unfolding under_root_def by (intro exI [of _ "s # rel"]) simp
qed

lemma from_torrent_props:
  assumes "from_torrent root t = Inr ly"
  shows "list_all (\<lambda>f. under_root root (sp_path f)) (ly_files ly)" "contiguous 0 (ly_files ly)"
    "files_total (ti_files (tf_info t)) = Inr (ly_total_length ly)"
    "ly_piece_length ly = ti_piece_length (tf_info t)" "ly_num_pieces ly = length (ti_piece_hashes (tf_info t))"
    "map sp_length (ly_files ly) = (case ti_files (tf_info t) of Single n \<Rightarrow> [n] | Multi es \<Rightarrow> map fe_length es)"
proof -
  obtain s where s: "components (ti_name (tf_info t)) = [Normal s]" "\<not> is_windows_reserved s"
    using assms by (auto simp: from_torrent_def ensure_safe_leaf_name_Inr)
  note join = joined_contained [of "ti_name (tf_info t)" "[s]" root, simplified, OF s(1)]
  have single: "under_root root (path_join root (ti_name (tf_info t)))"
    unfolding under_root_def using join(2) s(2) by (intro exI [of _ "[s]"]) simp
  show "list_all (\<lambda>f. under_root root (sp_path f)) (ly_files ly)" "contiguous 0 (ly_files ly)"
    "map sp_length (ly_files ly) = (case ti_files (tf_info t) of Single n \<Rightarrow> [n] | Multi es \<Rightarrow> map fe_length es)"
    using assms s join single multi_spans_props contained_trans [OF join(2) s(2)]
    by (auto simp: from_torrent_def list_all_iff split: torrent_files.splits)
  show "files_total (ti_files (tf_info t)) = Inr (ly_total_length ly)"
    "ly_piece_length ly = ti_piece_length (tf_info t)" "ly_num_pieces ly = length (ti_piece_hashes (tf_info t))"
    using assms by (auto simp: from_torrent_def total_length_def num_pieces_def)
qed

lemma files_total_sum:
  "files_total fs = Inr n \<Longrightarrow> n = sum_list (case fs of Single n \<Rightarrow> [n] | Multi es \<Rightarrow> map fe_length es)"
  by (cases fs) (auto dest: sum_u64_bound)

lemma from_torrent_ok: "from_torrent root t = Inr ly \<Longrightarrow> wf_info (tf_info t) \<Longrightarrow> layout_ok ly"
  using from_torrent_props [of root t ly] files_total_sum [of "ti_files (tf_info t)" "ly_total_length ly"]
  by (auto simp: layout_ok_def wf_info_def)

section \<open>Pieces and files\<close>

lemma piece_in_stream: "layout_ok ly \<Longrightarrow> idx < ly_num_pieces ly \<longleftrightarrow> idx * ly_piece_length ly < ly_total_length ly"
  by (simp add: layout_ok_def less_div_ceil_iff)

lemma ly_piece_size_min:
  assumes "layout_ok ly" "idx < ly_num_pieces ly"
  shows "ly_piece_size ly idx = min (ly_piece_length ly) (ly_total_length ly - idx * ly_piece_length ly)"
proof (cases "idx + 1 = ly_num_pieces ly")
  case False
  then have "(idx + 1) * ly_piece_length ly < ly_total_length ly"
    using assms by (metis Suc_eq_plus1 Suc_lessI piece_in_stream)
  then show ?thesis using False by (simp add: ly_piece_size_def)
next
  case True
  let ?p = "ly_piece_length ly" and ?t = "ly_total_length ly"
  have lt: "idx * ?p < ?t" using piece_in_stream [OF assms(1), of idx] assms(2) by simp
  have ge: "?t \<le> idx * ?p + ?p" using piece_in_stream [OF assms(1), of "idx + 1"] True by simp
  show ?thesis
  proof (cases "?t = idx * ?p + ?p")
    case True
    then have "?t mod ?p = 0" by (metis mod_mult_self3 mod_self)
    then show ?thesis using True \<open>idx + 1 = _\<close> by (simp add: ly_piece_size_def)
  next
    case False
    then have "?t - idx * ?p < ?p" using ge lt by linarith
    moreover have "?t mod ?p = (?t - idx * ?p) mod ?p"
      using lt by (metis le_add_diff_inverse less_imp_le mod_mult_self3)
    ultimately show ?thesis using lt \<open>idx + 1 = _\<close> by (simp add: ly_piece_size_def)
  qed
qed

lemma cells_from_nth:
  "contiguous off fs \<Longrightarrow> i < length fs \<Longrightarrow> k < sp_length (fs ! i) \<Longrightarrow>
     off \<le> sp_start (fs ! i) \<and> cells_from b fs ! (sp_start (fs ! i) + k - off) = (b + i, k) \<and>
     sp_start (fs ! i) + k < off + sum_list (map sp_length fs)"
proof (induction fs arbitrary: off b i)
  case (Cons f fs)
  show ?case
  proof (cases i)
    case 0
    then show ?thesis using Cons.prems by (simp add: nth_append)
  next
    case (Suc j)
    have "off + sp_length f \<le> sp_start (fs ! j)"
      "cells_from (b + 1) fs ! (sp_start (fs ! j) + k - (off + sp_length f)) = (b + 1 + j, k)"
      "sp_start (fs ! j) + k < off + sp_length f + sum_list (map sp_length fs)"
      using Cons.IH [of "off + sp_length f" j "b + 1"] Cons.prems Suc by auto
    then show ?thesis using Suc Cons.prems by (auto simp: nth_append)
  qed
qed simp

lemma cells_from_form:
  "(j, k) \<in> set (cells_from b fs) \<longleftrightarrow> (\<exists>i < length fs. j = b + i \<and> k < sp_length (fs ! i))"
proof (induction fs arbitrary: b)
  case (Cons f fs)
  have "(j, k) \<in> set (cells_from b (f # fs)) \<longleftrightarrow> j = b \<and> k < sp_length f \<or> (j, k) \<in> set (cells_from (b + 1) fs)"
    by auto
  also have "\<dots> \<longleftrightarrow> (\<exists>i < length (f # fs). j = b + i \<and> k < sp_length ((f # fs) ! i))"
    unfolding Cons.IH by (auto simp: less_Suc_eq_0_disj)
  finally show ?case .
qed simp

lemma cells_nth:
  assumes "layout_ok ly" "i < length (ly_files ly)" "k < sp_length (ly_files ly ! i)"
  shows "sp_start (ly_files ly ! i) + k < ly_total_length ly" "cells ly ! (sp_start (ly_files ly ! i) + k) = (i, k)"
  using cells_from_nth [of 0 "ly_files ly" i k 0] assms by (auto simp: layout_ok_def cells_def)

lemma distinct_cells_from: "distinct (cells_from b fs)"
  by (induction fs arbitrary: b) (auto simp: distinct_map inj_on_def cells_from_form)

lemma cells_nthD:
  assumes "layout_ok ly" "g < ly_total_length ly" "cells ly ! g = (i, k)"
  shows "i < length (ly_files ly)" "k < sp_length (ly_files ly ! i)" "g = sp_start (ly_files ly ! i) + k"
proof -
  have "(i, k) \<in> set (cells ly)" using assms length_cells by (metis nth_mem)
  then show *: "i < length (ly_files ly)" "k < sp_length (ly_files ly ! i)"
    by (auto simp: cells_def cells_from_form)
  from cells_nth [OF assms(1) *] assms length_cells [OF assms(1)] distinct_cells_from
  show "g = sp_start (ly_files ly ! i) + k" by (metis cells_def nth_eq_iff_index_eq)
qed

lemma slices_loop_pos: "(i, off, n) \<in> set (slices_loop b fs gs fin) \<Longrightarrow> 0 < n"
  by (induction b fs gs fin rule: slices_loop.induct) (auto simp: Let_def split: if_splits)

lemma fst_expand: "\<forall>(i, off, n) \<in> set sl. 0 < n \<Longrightarrow> fst ` set (expand sl) = fst ` set sl"
proof (induction sl)
  case (Cons a sl)
  obtain i off n where a: "a = (i, off, n)" by (cases a)
  then have "fst ` Pair i ` {off..<off + n} = {i}" using Cons.prems by (force simp: image_iff)
  then show ?case using Cons a by (simp add: image_Un)
qed simp

lemma set_take_drop:
  assumes "a + n \<le> length xs"
  shows "set (take n (drop a xs)) = {xs ! g | g. a \<le> g \<and> g < a + n}"
proof -
  have "x \<in> set (take n (drop a xs)) \<longleftrightarrow> (\<exists>j < n. x = xs ! (a + j))" for x
    using assms by (auto simp: in_set_conv_nth)
  moreover have "(\<exists>j < n. x = xs ! (a + j)) \<longleftrightarrow> (\<exists>g. x = xs ! g \<and> a \<le> g \<and> g < a + n)" for x
    by (metis le_add1 le_iff_add nat_add_left_cancel_less)
  ultimately show ?thesis by blast
qed

lemma piece_cells:
  assumes "layout_ok ly" "idx < ly_num_pieces ly"
  shows "set (take (ly_piece_size ly idx) (drop (idx * ly_piece_length ly) (cells ly))) =
    {cells ly ! g | g. g < ly_total_length ly \<and> g div ly_piece_length ly = idx}"
proof -
  let ?p = "ly_piece_length ly"
  have p: "0 < ?p" using assms by (simp add: layout_ok_def)
  have piece: "g div ?p = idx \<longleftrightarrow> idx * ?p \<le> g \<and> g < idx * ?p + ?p" for g
    using less_eq_div_iff_mult_less_eq [OF p, of idx g] div_less_iff_less_mult [OF p, of g "idx + 1"] by auto
  have "g < ly_total_length ly \<and> g div ?p = idx \<longleftrightarrow> idx * ?p \<le> g \<and> g < idx * ?p + ly_piece_size ly idx" for g
    unfolding ly_piece_size_min [OF assms] using piece [of g] piece_in_stream [OF assms(1), of idx] assms(2) by linarith
  moreover have "idx * ?p + ly_piece_size ly idx \<le> length (cells ly)"
    unfolding ly_piece_size_min [OF assms] length_cells [OF assms(1)]
    using piece_in_stream [OF assms(1), of idx] assms(2) by linarith
  ultimately show ?thesis by (simp only: set_take_drop)
qed

lemma length_foldl_mark [simp]: "length (foldl (\<lambda>ws (i, _, _). ws[i := True]) ws sl) = length ws"
  by (induction sl arbitrary: ws) (auto split: prod.splits)

lemma foldl_mark:
  "j < length ws \<Longrightarrow> foldl (\<lambda>ws (i, _, _). ws[i := True]) ws sl ! j \<longleftrightarrow> ws ! j \<or> j \<in> fst ` set sl"
proof (induction sl arbitrary: ws)
  case (Cons a sl)
  obtain i off n where "a = (i, off, n)" by (cases a)
  then show ?case using Cons by (cases "i = j") auto
qed simp

lemma foldl_mark_all:
  "j < length ws \<Longrightarrow>
     foldl (\<lambda>ws idx. if P idx then foldl (\<lambda>ws (i, _, _). ws[i := True]) ws (sl idx) else ws) ws ids ! j \<longleftrightarrow>
       ws ! j \<or> (\<exists>idx \<in> set ids. P idx \<and> j \<in> fst ` set (sl idx))"
proof (induction ids arbitrary: ws)
  case (Cons a ids)
  then show ?case by (cases "P a") (auto simp: foldl_mark)
qed simp

lemma image_compr: "f ` {g x | x. P x} = {f (g x) | x. P x}"
  by blast

lemma slices_files:
  assumes "layout_ok ly"
  shows "fst ` set (slices ly gs len) = fst ` set (take len (drop gs (cells ly)))"
proof -
  have "\<forall>(i, off, n) \<in> set (slices ly gs len). 0 < n" by (auto simp: slices_def slices_loop_pos)
  then show ?thesis using fst_expand slices_cells [OF assms] by metis
qed

lemma wanted_files_iff:
  assumes "layout_ok ly" "selectors \<noteq> []" "i < length (ly_files ly)"
  shows "wanted_files ly selectors ! i \<longleftrightarrow>
    (\<exists>k < sp_length (ly_files ly ! i).
       wanted_pieces ly selectors ! ((sp_start (ly_files ly ! i) + k) div ly_piece_length ly))"
proof -
  let ?wp = "wanted_pieces ly selectors" and ?p = "ly_piece_length ly" and ?f = "ly_files ly ! i"
  have len: "length ?wp = ly_num_pieces ly" by (simp add: wanted_pieces_def Let_def)
  have "i \<in> fst ` set (slices_for_piece ly idx (ly_piece_size ly idx)) \<longleftrightarrow>
      (\<exists>k < sp_length ?f. (sp_start ?f + k) div ?p = idx)" if "idx < ly_num_pieces ly" for idx
  proof -
    have "fst ` set (slices_for_piece ly idx (ly_piece_size ly idx)) =
        {fst (cells ly ! g) | g. g < ly_total_length ly \<and> g div ?p = idx}"
      by (simp only: slices_for_piece_def slices_files [OF assms(1)] piece_cells [OF assms(1) that] image_compr)
    then have "i \<in> fst ` set (slices_for_piece ly idx (ly_piece_size ly idx)) \<longleftrightarrow>
        (\<exists>g < ly_total_length ly. g div ?p = idx \<and> fst (cells ly ! g) = i)"
      by auto
    also have "\<dots> \<longleftrightarrow> (\<exists>k < sp_length ?f. (sp_start ?f + k) div ?p = idx)"
      using cells_nth [OF assms(1,3)] cells_nthD [OF assms(1)] by (metis prod.collapse fst_conv)
    finally show ?thesis .
  qed
  moreover have "(sp_start ?f + k) div ?p < ly_num_pieces ly" if "k < sp_length ?f" for k
    using cells_nth(1) [OF assms(1,3) that] assms(1) by (simp add: layout_ok_def div_less_div_ceil)
  ultimately show ?thesis
    using assms(2,3) len by (auto simp: wanted_files_def Let_def foldl_mark_all)
qed

lemma wanted_pieces_cover:
  assumes "layout_ok ly" "selectors \<noteq> []" "i < length (ly_files ly)" "k < sp_length (ly_files ly ! i)"
    "span_selected selectors (ly_files ly ! i)"
  shows "wanted_pieces ly selectors ! ((sp_start (ly_files ly ! i) + k) div ly_piece_length ly)"
proof -
  let ?f = "ly_files ly ! i" and ?p = "ly_piece_length ly"
  let ?idx = "(sp_start ?f + k) div ?p"
  have p: "0 < ?p" and lt: "sp_start ?f + k < ly_total_length ly"
    using cells_nth(1) [OF assms(1,3,4)] assms(1) by (auto simp: layout_ok_def)
  then have idx: "?idx < ly_num_pieces ly" using assms(1) by (simp add: layout_ok_def div_less_div_ceil)
  have "?idx * ?p \<le> sp_start ?f + k" "sp_start ?f + k < ?idx * ?p + ?p"
    using dividend_less_div_times [OF p, of "sp_start ?f + k"] by (auto simp: add.commute)
  then have "sp_start ?f < min (?idx * ?p + ?p) (ly_total_length ly) \<and> ?idx * ?p < span_end ?f"
    using lt assms(4) unfolding span_end_def by linarith
  then show ?thesis
    using assms(2,3,5) idx nth_mem [of i "ly_files ly"]
    by (auto simp: wanted_pieces_def Let_def list_ex_iff intro!: exI [of _ ?f])
qed

section \<open>Properties\<close>

definition sample_layout_torrent :: torrent_file where
  "sample_layout_torrent =
     \<lparr>tf_info_hash = replicate 20 0, tf_announce = None, tf_announce_list = [],
      tf_info = \<lparr>ti_name = ascii ''t'', ti_piece_length = 4,
        ti_piece_hashes = [replicate 20 1, replicate 20 2],
        ti_files = Multi [\<lparr>fe_length = 3, fe_path = ascii ''a''\<rparr>, \<lparr>fe_length = 4, fe_path = ascii ''d/b''\<rparr>],
        ti_private = False\<rparr>\<rparr>"

definition sample_layout :: layout where
  "sample_layout =
     \<lparr>ly_root = ascii ''/dl'',
      ly_files = [\<lparr>sp_path = ascii ''/dl/t/a'', sp_start = 0, sp_length = 3\<rparr>,
                  \<lparr>sp_path = ascii ''/dl/t/d/b'', sp_start = 3, sp_length = 4\<rparr>],
      ly_piece_length = 4, ly_total_length = 7, ly_num_pieces = 2\<rparr>"

lemma sample_from_torrent: "from_torrent (ascii ''/dl'') sample_layout_torrent = Inr sample_layout"
proof -
  have "ensure_safe_leaf_name (ascii ''t'') = Inr ()" "ensure_safe_relative_path (ascii ''a'') = Inr ()"
    "ensure_safe_relative_path (ascii ''d/b'') = Inr ()" "path_join (ascii ''/dl'') (ascii ''t'') = ascii ''/dl/t''"
    "joined_under_root (ascii ''/dl/t'') (ascii ''a'') = Inr (ascii ''/dl/t/a'')"
    "joined_under_root (ascii ''/dl/t'') (ascii ''d/b'') = Inr (ascii ''/dl/t/d/b'')"
    by code_simp+
  then show ?thesis
    by (simp add: from_torrent_def sample_layout_torrent_def sample_layout_def total_length_def num_pieces_def)
qed

lemma sample_layout_ok: "layout_ok sample_layout"
  by (simp add: layout_ok_def sample_layout_def div_ceil_def)

text \<open>
  C18: containment: whatever the torrent says, every file of an accepted layout lies strictly below the
  download root, reached by plain components only (no parent, no absolute path), none of them a
  reserved device name.
\<close>

theorem from_torrent_contained:
  assumes "from_torrent root t = Inr ly" "f \<in> set (ly_files ly)"
  shows "\<exists>rel. rel \<noteq> [] \<and> components (sp_path f) = components root @ map Normal rel \<and>
    list_all (\<lambda>s. \<not> is_windows_reserved s) rel"
  using from_torrent_props(1) [OF assms(1)] assms(2) by (simp add: list_all_iff under_root_def)

theorem from_torrent_contained_witness:
  "\<exists>rel. rel \<noteq> [] \<and> components (ascii ''/dl/t/d/b'') = components (ascii ''/dl'') @ map Normal rel \<and>
    list_all (\<lambda>s. \<not> is_windows_reserved s) rel"
  using from_torrent_contained [OF sample_from_torrent, of "ly_files sample_layout ! 1"]
  by (simp add: sample_layout_def)

text \<open>
  C19: selective download: every byte of a selected file lies in a wanted piece, and a file is allocated
  exactly when one of its bytes lies in a wanted piece.
\<close>

theorem selection_covers:
  assumes "layout_ok ly" "selectors \<noteq> []" "i < length (ly_files ly)"
  defines "piece_of k \<equiv> (sp_start (ly_files ly ! i) + k) div ly_piece_length ly"
  shows "(span_selected selectors (ly_files ly ! i) \<longrightarrow>
        (\<forall>k < sp_length (ly_files ly ! i). wanted_pieces ly selectors ! piece_of k)) \<and>
    (wanted_files ly selectors ! i \<longleftrightarrow> (\<exists>k < sp_length (ly_files ly ! i). wanted_pieces ly selectors ! piece_of k))"
  unfolding piece_of_def using wanted_files_iff [OF assms(1-3)] wanted_pieces_cover [OF assms(1-3)] by blast

theorem selection_covers_witness:
  "wanted_files sample_layout [ascii ''b''] ! 0 \<longleftrightarrow> (\<exists>k < 3. wanted_pieces sample_layout [ascii ''b''] ! ((0 + k) div 4))"
  using selection_covers [OF sample_layout_ok, of "[ascii ''b'']" 0] by (simp add: sample_layout_def)

end
