(* ===== verification/RT_Disk.thy ===== *)
theory RT_Disk
  imports RT_Layout RT_Piece_Manager
begin

text \<open>
  The plain-disk storage task, \<open>src/src/storage/disk.rs\<close>. The files of the operating system are a map
  from paths to contents. System calls can fail: the disk carries the outcomes of the calls to come, where
  \<open>None\<close> is success and \<open>Some n\<close> a failure; a failing write has stored its first \<open>n\<close> bytes. An open file
  is its path, so two handles on one path see each other's writes.
\<close>

section \<open>Files\<close>

record disk =
  dk_files :: "path \<rightharpoonup> bytes"
  dk_faults :: "nat option list"

definition content :: "disk \<Rightarrow> path \<Rightarrow> bytes" where
  "content d p = (case dk_files d p of Some c \<Rightarrow> c | None \<Rightarrow> [])"

text \<open>The outcome of the next system call.\<close>

definition next_fault :: "disk \<Rightarrow> nat option \<times> disk" where
  "next_fault d = (case dk_faults d of [] \<Rightarrow> (None, d) | f # fs \<Rightarrow> (f, d\<lparr>dk_faults := fs\<rparr>))"

text \<open>A call that changes no file: creating directories, \<open>seek\<close>, \<open>flush\<close>.\<close>

definition sys_call :: "(disk, unit) step" where
  "sys_call d = (case next_fault d of (Some _, d') \<Rightarrow> (Inl (Io ''os error''), d') | (None, d') \<Rightarrow> (Inr (), d'))"

definition open_create :: "path \<Rightarrow> (disk, path) step" where
  "open_create p = io_bind sys_call (\<lambda>_ d.
     (Inr p, d\<lparr>dk_files := (case dk_files d p of None \<Rightarrow> (dk_files d)(p \<mapsto> []) | Some _ \<Rightarrow> dk_files d)\<rparr>))"

definition file_len :: "path \<Rightarrow> (disk, nat) step" where
  "file_len p = io_bind sys_call (\<lambda>_ d. (Inr (length (content d p)), d))"

definition set_len :: "path \<Rightarrow> nat \<Rightarrow> (disk, unit) step" where
  "set_len p n = io_bind sys_call (\<lambda>_ d.
     (Inr (), d\<lparr>dk_files := (dk_files d)(p \<mapsto> take n (content d p) @ replicate (n - length (content d p)) 0)\<rparr>))"

definition pwrite :: "nat \<Rightarrow> 'a::zero list \<Rightarrow> 'a list \<Rightarrow> 'a list" where
  "pwrite off bs old =
     take off old @ replicate (off - length old) 0 @ bs @ drop (off + length bs) old"

definition write_at :: "path \<Rightarrow> nat \<Rightarrow> bytes \<Rightarrow> (disk, unit) step" where
  "write_at p off bs d =
     (let (f, d') = next_fault d;
          done_bytes = (case f of None \<Rightarrow> bs | Some n \<Rightarrow> take n bs);
          d'' = d'\<lparr>dk_files := (dk_files d')(p \<mapsto> pwrite off done_bytes (content d' p))\<rparr>
      in case f of None \<Rightarrow> (Inr (), d'') | Some _ \<Rightarrow> (Inl (Io ''os error''), d''))"

definition read_at :: "path \<Rightarrow> nat \<Rightarrow> nat \<Rightarrow> (disk, bytes) step" where
  "read_at p off n = io_bind sys_call (\<lambda>_ d.
     if length (content d p) < off + n then (Inl (Io ''failed to fill whole buffer''), d)
     else (Inr (take n (drop off (content d p))), d))"

section \<open>The storage task\<close>

datatype storage_command =
    Write nat bytes
  | Read nat nat nat
  | Shutdown

datatype storage_event =
    Written nat
  | StorageError "nat option" error
  | Reply "bytes res"

text \<open>
  \<open>file_at\<close>, \<open>write_piece\<close> and \<open>read_range\<close>; \<open>files\<close> holds the open file of every span, \<open>None\<close> for a
  file that selective download skips. Out-of-range slices of the buffers would panic.
\<close>

definition file_at :: "path option list \<Rightarrow> nat \<Rightarrow> (disk, path) step" where
  "file_at files file_idx =
     (if file_idx < length files then
        case files ! file_idx of Some f \<Rightarrow> io_return f | None \<Rightarrow> io_fail (Io ''storage: file '')
      else io_fail (Io ''storage: file ''))"

fun write_slices ::
    "path option list \<Rightarrow> (nat \<times> nat \<times> nat) list \<Rightarrow> bytes \<Rightarrow> nat \<Rightarrow> nat list \<Rightarrow> (disk, nat list) step" where
  "write_slices files [] data data_off touched = io_return touched"
| "write_slices files ((file_idx, file_off, count) # sl) data data_off touched =
     io_bind (file_at files file_idx) (\<lambda>f.
     io_bind sys_call (\<lambda>_.
     if data_off + count > length data then io_fail (Panic ''range end index out of range'')
     else io_bind (write_at f file_off (take count (drop data_off data))) (\<lambda>_.
     write_slices files sl data (data_off + count)
       (if touched = [] \<or> last touched \<noteq> file_idx then touched @ [file_idx] else touched))))"

fun flush_files :: "path option list \<Rightarrow> nat list \<Rightarrow> (disk, unit) step" where
  "flush_files files [] = io_return ()"
| "flush_files files (i # is) = io_bind (file_at files i) (\<lambda>_. io_bind sys_call (\<lambda>_. flush_files files is))"

definition write_piece :: "layout \<Rightarrow> path option list \<Rightarrow> nat \<Rightarrow> bytes \<Rightarrow> (disk, unit) step" where
  "write_piece ly files index data =
     (let piece_size = ly_piece_size ly index in
      if length data \<noteq> piece_size then io_fail (Io ''write piece '')
      else io_bind (write_slices files (slices_for_piece ly index piece_size) data 0 []) (flush_files files))"

fun read_slices ::
    "path option list \<Rightarrow> (nat \<times> nat \<times> nat) list \<Rightarrow> bytes \<Rightarrow> nat \<Rightarrow> (disk, bytes) step" where
  "read_slices files [] out out_off = io_return out"
| "read_slices files ((file_idx, file_off, count) # sl) out out_off =
     io_bind (file_at files file_idx) (\<lambda>f.
     io_bind sys_call (\<lambda>_.
     if out_off + count > length out then io_fail (Panic ''range end index out of range'')
     else io_bind (read_at f file_off count) (\<lambda>bs.
     read_slices files sl (pwrite out_off bs out) (out_off + count))))"

definition read_range :: "layout \<Rightarrow> path option list \<Rightarrow> nat \<Rightarrow> nat \<Rightarrow> nat \<Rightarrow> (disk, bytes) step" where
  "read_range ly files index start len =
     (let piece_size = ly_piece_size ly index; fin = start + len in
      if fin > piece_size then io_fail (Io ''read past piece end'')
      else
        let global_start = index * ly_piece_length ly + start in
        read_slices files (slices ly global_start len) (replicate len 0) 0)"

text \<open>The allocation loop of \<open>run_storage\<close>, its command loop, and the task around them.\<close>

fun open_files :: "bool list option \<Rightarrow> nat \<Rightarrow> file_span list \<Rightarrow> (disk, path option list) step" where
  "open_files wanted i [] = io_return []"
| "open_files wanted i (f # fs) =
     (let skip = (case wanted of
            None \<Rightarrow> False
          | Some w \<Rightarrow> \<not> (if i < length w then w ! i else True)) in
      if skip then io_bind (open_files wanted (i + 1) fs) (\<lambda>rest. io_return (None # rest))
      else
        io_bind sys_call (\<lambda>_.
        io_bind (open_create (sp_path f)) (\<lambda>h.
        io_bind (file_len h) (\<lambda>cur.
        io_bind (if cur < sp_length f then set_len h (sp_length f) else io_return ()) (\<lambda>_.
        io_bind (open_files wanted (i + 1) fs) (\<lambda>rest. io_return (Some h # rest)))))))"

fun storage_loop ::
    "layout \<Rightarrow> path option list \<Rightarrow> storage_command list \<Rightarrow> disk \<Rightarrow> storage_event list \<times> disk" where
  "storage_loop ly files [] d = ([], d)"
| "storage_loop ly files (Shutdown # cmds) d = ([], d)"
| "storage_loop ly files (Write index data # cmds) d =
     (let (r, d') = write_piece ly files index data d;
          ev = (case r of Inl e \<Rightarrow> StorageError (Some index) e | Inr _ \<Rightarrow> Written index);
          (evs, d'') = storage_loop ly files cmds d'
      in (ev # evs, d''))"
| "storage_loop ly files (Read index start len # cmds) d =
     (let (r, d') = read_range ly files index start len d;
          (evs, d'') = storage_loop ly files cmds d'
      in (Reply r # evs, d''))"

definition run_storage ::
    "layout \<Rightarrow> bool list option \<Rightarrow> storage_command list \<Rightarrow> disk \<Rightarrow> storage_event list \<times> disk" where
  "run_storage ly wanted cmds d =
     (case open_files wanted 0 (ly_files ly) d of
        (Inl e, d') \<Rightarrow> ([StorageError None e], d')
      | (Inr files, d') \<Rightarrow> storage_loop ly files cmds d')"

section \<open>The resume scan\<close>

definition open_read :: "path \<Rightarrow> (disk, path option) step" where
  "open_read p = io_bind sys_call (\<lambda>_ d. (Inr (if dk_files d p = None then None else Some p), d))"

fun open_scan :: "file_span list \<Rightarrow> (disk, path option list) step" where
  "open_scan [] = io_return []"
| "open_scan (f # fs) =
     io_bind (open_read (sp_path f)) (\<lambda>h. io_bind (open_scan fs) (\<lambda>hs. io_return (h # hs)))"

definition MAX_IN_FLIGHT :: nat where "MAX_IN_FLIGHT = 32"

text \<open>A running hash task is its piece index and the verdict it will deliver.\<close>

fun drain_one :: "(nat \<times> bool) list \<Rightarrow> nat list \<Rightarrow> (nat \<times> bool) list \<times> nat list" where
  "drain_one [] out = ([], out)"
| "drain_one ((idx, ok) # q) out = (q, if ok then out @ [idx] else out)"

text \<open>Reading one piece; \<open>None\<close> when a file is missing or a call fails.\<close>

fun scan_read ::
    "path option list \<Rightarrow> (nat \<times> nat \<times> nat) list \<Rightarrow> bytes \<Rightarrow> nat \<Rightarrow> disk \<Rightarrow> bytes option \<times> disk" where
  "scan_read files [] buf off d = (Some buf, d)"
| "scan_read files ((file_idx, file_off, count) # sl) buf off d =
     (case files ! file_idx of
        None \<Rightarrow> (None, d)
      | Some f \<Rightarrow>
          (case sys_call d of
             (Inl _, d') \<Rightarrow> (None, d')
           | (Inr _, d') \<Rightarrow>
               (case read_at f file_off count d' of
                  (Inl _, d'') \<Rightarrow> (None, d'')
                | (Inr bs, d'') \<Rightarrow> scan_read files sl (pwrite off bs buf) (off + count) d'')))"

fun scan_loop ::
    "(bytes \<Rightarrow> bytes) \<Rightarrow> layout \<Rightarrow> path option list \<Rightarrow> (nat \<times> bytes) list
      \<Rightarrow> (nat \<times> bool) list \<Rightarrow> nat list \<Rightarrow> disk \<Rightarrow> (nat \<times> bool) list \<times> nat list \<times> disk" where
  "scan_loop sha1 ly files [] in_flight out d = (in_flight, out, d)"
| "scan_loop sha1 ly files ((index, expected) # rest) in_flight out d =
     (let (in_flight, out) =
            (if length in_flight \<ge> MAX_IN_FLIGHT then drain_one in_flight out else (in_flight, out));
          psz = ly_piece_size ly index;
          (buf, d) = scan_read files (slices_for_piece ly index psz) (replicate psz 0) 0 d;
          in_flight = (case buf of
              Some buf \<Rightarrow> in_flight @ [(index, verify_piece sha1 buf expected)]
            | None \<Rightarrow> in_flight)
      in scan_loop sha1 ly files rest in_flight out d)"

fun drain_all :: "(nat \<times> bool) list \<Rightarrow> nat list \<Rightarrow> nat list" where
  "drain_all [] out = out"
| "drain_all (h # q) out = (let (q', out') = drain_one (h # q) out in drain_all q' out')"

definition scan_resume :: "(bytes \<Rightarrow> bytes) \<Rightarrow> layout \<Rightarrow> bytes list \<Rightarrow> (disk, nat list) step" where
  "scan_resume sha1 ly piece_hashes =
     io_bind (open_scan (ly_files ly)) (\<lambda>files d.
     let (in_flight, out, d') =
           scan_loop sha1 ly files (take (ly_num_pieces ly) (zip [0..<length piece_hashes] piece_hashes)) [] [] d
     in (Inr (sort (drain_all in_flight out)), d'))"

section \<open>Writes and reads on cells\<close>

text \<open>The byte that the disk holds for a cell of the layout, and the whole torrent stream.\<close>

definition cell_byte :: "layout \<Rightarrow> disk \<Rightarrow> nat \<times> nat \<Rightarrow> u8" where
  "cell_byte ly d c = content d (sp_path (ly_files ly ! fst c)) ! snd c"

definition stream_of :: "layout \<Rightarrow> disk \<Rightarrow> bytes" where
  "stream_of ly d = map (cell_byte ly d) (cells ly)"

text \<open>The open files match the layout, and every open file is at least as long as its span.\<close>

definition opened :: "layout \<Rightarrow> path option list \<Rightarrow> disk \<Rightarrow> bool" where
  "opened ly files d \<longleftrightarrow>
     length files = length (ly_files ly) \<and>
     (\<forall>i < length files. files ! i = None \<or>
        files ! i = Some (sp_path (ly_files ly ! i)) \<and>
        sp_length (ly_files ly ! i) \<le> length (content d (sp_path (ly_files ly ! i))))"

definition sound_layout :: "layout \<Rightarrow> bool" where
  "sound_layout ly \<longleftrightarrow> layout_ok ly \<and> distinct (map sp_path (ly_files ly))"

lemma content_upd [simp]:
  "content (d\<lparr>dk_files := (dk_files d)(p \<mapsto> c)\<rparr>) q = (if q = p then c else content d q)"
  by (simp add: content_def)

lemma content_faults [simp]: "content (d\<lparr>dk_faults := fs\<rparr>) = content d"
  by (simp add: content_def fun_eq_iff)

lemma next_fault_content: "next_fault d = (f, d') \<Longrightarrow> content d' = content d \<and> dk_files d' = dk_files d"
  by (auto simp: next_fault_def fun_eq_iff split: list.splits)

lemma next_fault_free: "dk_faults d = [] \<Longrightarrow> next_fault d = (None, d)"
  by (simp add: next_fault_def)

lemma sys_call_content: "sys_call d = (r, d') \<Longrightarrow> content d' = content d \<and> dk_files d' = dk_files d"
  by (auto simp: sys_call_def split: prod.splits option.splits dest: next_fault_content)

lemma sys_call_free: "dk_faults d = [] \<Longrightarrow> sys_call d = (Inr (), d)"
  by (simp add: sys_call_def next_fault_free)

lemma nth_pwrite:
  "k < length old \<Longrightarrow> off \<le> length old \<Longrightarrow>
     pwrite off bs old ! k = (if off \<le> k \<and> k < off + length bs then bs ! (k - off) else old ! k)"
  by (auto simp: pwrite_def nth_append min_def)

lemma length_pwrite: "length old \<le> length (pwrite off bs old)"
  by (auto simp: pwrite_def)

lemma pwrite_within: "off + length bs \<le> length old \<Longrightarrow> pwrite off bs old = take off old @ bs @ drop (off + length bs) old"
  by (simp add: pwrite_def)

lemma sound_paths:
  "sound_layout ly \<Longrightarrow> i < length (ly_files ly) \<Longrightarrow> j < length (ly_files ly) \<Longrightarrow>
     sp_path (ly_files ly ! i) = sp_path (ly_files ly ! j) \<longleftrightarrow> i = j"
  unfolding sound_layout_def by (metis length_map nth_eq_iff_index_eq nth_map)

lemma cells_form: "(i, k) \<in> set (cells ly) \<longleftrightarrow> i < length (ly_files ly) \<and> k < sp_length (ly_files ly ! i)"
  by (simp add: cells_def cells_from_form)

lemma opened_content: "opened ly files d \<Longrightarrow> content d' = content d \<Longrightarrow> opened ly files d'"
  by (simp add: opened_def)

lemma opened_pwrite:
  "opened ly files d \<Longrightarrow> content d' = (content d)(p := pwrite off bs (content d p)) \<Longrightarrow> opened ly files d'"
  by (auto simp: opened_def intro: order_trans [OF _ length_pwrite])

lemma cell_byte_content: "content d' = content d \<Longrightarrow> cell_byte ly d' = cell_byte ly d"
  by (simp add: cell_byte_def fun_eq_iff)

lemma file_at_eq:
  "file_at files i d = (r, d') \<Longrightarrow>
     d' = d \<and> (\<forall>f. r = Inr f \<longrightarrow> i < length files \<and> files ! i = Some f)"
  by (auto simp: file_at_def io_return_def io_fail_def split: if_splits option.splits)

lemma write_at_content:
  assumes "write_at p off bs d = (r, d')"
  obtains m where "m \<le> length bs" "r = Inr () \<Longrightarrow> m = length bs"
    "content d' = (content d)(p := pwrite off (take m bs) (content d p))"
proof -
  obtain f d1 where f: "next_fault d = (f, d1)" by fastforce
  note c = next_fault_content [OF f]
  show ?thesis
  proof (cases f)
    case None
    with f c assms that [of "length bs"] show ?thesis
      by (auto simp: write_at_def fun_eq_iff)
  next
    case (Some n)
    have "content d' = (content d)(p := pwrite off (take (min n (length bs)) bs) (content d p))" "r \<noteq> Inr ()"
      using f c assms Some by (auto simp: write_at_def fun_eq_iff min_def)
    with that [of "min n (length bs)"] show ?thesis by auto
  qed
qed

lemma write_at_cells:
  assumes "sound_layout ly" "opened ly files d" "i < length files" "files ! i = Some p"
    and "off + length bs \<le> sp_length (ly_files ly ! i)" "write_at p off bs d = (r, d')"
  obtains m where "opened ly files d'" "m \<le> length bs" "r = Inr () \<Longrightarrow> m = length bs"
    "\<And>j k. (j, k) \<in> set (cells ly) \<Longrightarrow> cell_byte ly d' (j, k) =
       (if j = i \<and> off \<le> k \<and> k < off + m then bs ! (k - off) else cell_byte ly d (j, k))"
proof -
  have i: "i < length (ly_files ly)" "p = sp_path (ly_files ly ! i)"
    "sp_length (ly_files ly ! i) \<le> length (content d p)"
    using assms(2-4) by (auto simp: opened_def)
  obtain m where m: "m \<le> length bs" "r = Inr () \<Longrightarrow> m = length bs"
    "content d' = (content d)(p := pwrite off (take m bs) (content d p))"
    using write_at_content [OF assms(6)] by blast
  have "opened ly files d'" using assms(2) m(3) by (rule opened_pwrite)
  moreover have "cell_byte ly d' (j, k) =
      (if j = i \<and> off \<le> k \<and> k < off + m then bs ! (k - off) else cell_byte ly d (j, k))"
    if "(j, k) \<in> set (cells ly)" for j k
    using that i m sound_paths [OF assms(1), of j i] assms(5)
    by (auto simp: cell_byte_def cells_form nth_pwrite min_absorb2)
  ultimately show ?thesis using m that by blast
qed

lemma write_slices_Cons:
  assumes "write_slices files ((i, off, n) # sl) data o' t d = (r, d')"
  obtains (early) "content d' = content d" "\<And>t'. r \<noteq> Inr t'"
  | (now) f d1 d2 r1 t1 where "i < length files" "files ! i = Some f" "content d1 = content d" "o' + n \<le> length data"
      "write_at f off (take n (drop o' data)) d1 = (r1, d2)"
      "(\<exists>e. r1 = Inl e \<and> r = Inl e \<and> d' = d2) \<or> (r1 = Inr () \<and> write_slices files sl data (o' + n) t1 d2 = (r, d'))"
proof -
  from assms consider (1) e where "file_at files i d = (Inl e, d')" "r = Inl e"
    | (2) f d0 e where "file_at files i d = (Inr f, d0)" "sys_call d0 = (Inl e, d')" "r = Inl e"
    | (3) f d0 d1 where "file_at files i d = (Inr f, d0)" "sys_call d0 = (Inr (), d1)"
       "(if o' + n > length data then io_fail (Panic ''range end index out of range'')
         else io_bind (write_at f off (take n (drop o' data))) (\<lambda>_. write_slices files sl data (o' + n)
           (if t = [] \<or> last t \<noteq> i then t @ [i] else t))) d1 = (r, d')"
    by (auto simp: io_bind_eq [of "file_at _ _"] io_bind_eq [of sys_call])
  then show ?thesis
  proof cases
    case 1
    then show ?thesis using early file_at_eq by blast
  next
    case 2
    then show ?thesis using early file_at_eq sys_call_content by blast
  next
    case 3
    then have f: "i < length files" "files ! i = Some f" "content d1 = content d"
      using file_at_eq sys_call_content by blast+
    show ?thesis
    proof (cases "o' + n > length data")
      case True
      then show ?thesis using 3(3) early f by (auto simp: io_fail_def)
    next
      case False
      with 3(3) show ?thesis by (auto simp: io_bind_eq intro!: now [OF f])
    qed
  qed
qed

text \<open>Slices that lie in the stream, none empty and no cell twice.\<close>

definition proper :: "layout \<Rightarrow> (nat \<times> nat \<times> nat) list \<Rightarrow> bool" where
  "proper ly sl \<longleftrightarrow> (\<forall>(i, off, n) \<in> set sl. 0 < n) \<and> distinct (expand sl) \<and> set (expand sl) \<subseteq> set (cells ly)"

lemma proper_Cons:
  assumes "proper ly ((i, off, n) # sl)"
  shows "proper ly sl" "off + n \<le> sp_length (ly_files ly ! i)" "i < length (ly_files ly)"
    "set (map (Pair i) [off..<off + n]) \<inter> set (expand sl) = {}"
    "\<And>k. off \<le> k \<Longrightarrow> k < off + n \<Longrightarrow> (i, k) \<in> set (cells ly)"
proof -
  show cells: "\<And>k. off \<le> k \<Longrightarrow> k < off + n \<Longrightarrow> (i, k) \<in> set (cells ly)"
    using assms unfolding proper_def by auto
  show "proper ly sl" "set (map (Pair i) [off..<off + n]) \<inter> set (expand sl) = {}"
    using assms unfolding proper_def by auto
  have "0 < n" using assms by (simp add: proper_def)
  then have "i < length (ly_files ly) \<and> off + n - 1 < sp_length (ly_files ly ! i)"
    using cells [of "off + n - 1"] cells_form by simp
  then show "off + n \<le> sp_length (ly_files ly ! i)" "i < length (ly_files ly)" by linarith+
qed

lemma proper_slices: "sound_layout ly \<Longrightarrow> proper ly (slices ly gs len)"
  using slices_cells [of ly gs len] distinct_cells_from [of 0 "ly_files ly"]
  by (auto simp: proper_def sound_layout_def slices_def slices_loop_pos cells_def
      dest: in_set_takeD in_set_dropD)

lemma write_slices_cells:
  "proper ly sl \<Longrightarrow> sound_layout ly \<Longrightarrow> opened ly files d \<Longrightarrow> write_slices files sl data o' t d = (r, d') \<Longrightarrow>
     opened ly files d' \<and>
     (\<forall>c \<in> set (cells ly). c \<notin> set (expand sl) \<longrightarrow> cell_byte ly d' c = cell_byte ly d c) \<and>
     (\<forall>t'. r = Inr t' \<longrightarrow> map (cell_byte ly d') (expand sl) = take (length (expand sl)) (drop o' data))"
proof (induction sl arbitrary: o' t d)
  case (Cons a sl)
  obtain i off n where a: "a = (i, off, n)" by (cases a)
  note proper = proper_Cons [OF Cons.prems(1) [unfolded a]]
  from Cons.prems(4) [unfolded a] show ?case
  proof (cases rule: write_slices_Cons)
    case early
    then show ?thesis using Cons.prems(3) opened_content cell_byte_content by metis
  next
    case (now f d1 d2 r1 t1)
    let ?bs = "take n (drop o' data)"
    have len: "length ?bs = n" using now(4) by simp
    have "opened ly files d1" using Cons.prems(3) now(3) by (rule opened_content)
    from write_at_cells [OF Cons.prems(2) this now(1,2) _ now(5)] proper(2) len
    obtain m where m: "opened ly files d2" "m \<le> n" "r1 = Inr () \<Longrightarrow> m = n"
      "\<And>j k. (j, k) \<in> set (cells ly) \<Longrightarrow> cell_byte ly d2 (j, k) =
         (if j = i \<and> off \<le> k \<and> k < off + m then ?bs ! (k - off) else cell_byte ly d1 (j, k))"
      by metis
    have same: "cell_byte ly d2 c = cell_byte ly d c" if "c \<in> set (cells ly)" "c \<notin> set (expand (a # sl))" for c
    proof -
      obtain j k where "c = (j, k)" by (rule prod.exhaust)
      then show ?thesis using that m(2) m(4) [of j k] cell_byte_content [OF now(3)] a by (auto split: if_splits)
    qed
    from now(6) show ?thesis
    proof (elim disjE exE conjE)
      fix e
      assume "r1 = Inl e" "r = Inl e" "d' = d2"
      then show ?thesis using m(1) same by auto
    next
      assume r1: "r1 = Inr ()" and "write_slices files sl data (o' + n) t1 d2 = (r, d')"
      note IH = Cons.IH [OF proper(1) Cons.prems(2) m(1) this(2)]
      have "map (cell_byte ly d') (map (Pair i) [off..<off + n]) = ?bs"
      proof (rule nth_equalityI)
        fix k
        assume "k < length (map (cell_byte ly d') (map (Pair i) [off..<off + n]))"
        then have k: "k < n" by simp
        then have "(i, off + k) \<in> set (map (Pair i) [off..<off + n])" by simp
        then have "(i, off + k) \<notin> set (expand sl)" using proper(4) by blast
        moreover have "(i, off + k) \<in> set (cells ly)" using proper(5) k by simp
        ultimately show "map (cell_byte ly d') (map (Pair i) [off..<off + n]) ! k = ?bs ! k"
          using IH m(3,4) r1 k by auto
      qed (use len in simp)
      with IH same show ?thesis using now(4) by (auto simp: a take_add add.commute [of n o'])
    qed
  qed
qed (auto simp: io_return_def)

lemma write_slices_free:
  "proper ly sl \<Longrightarrow> opened ly files d \<Longrightarrow> None \<notin> set files \<Longrightarrow> dk_faults d = [] \<Longrightarrow> o' + length (expand sl) \<le> length data \<Longrightarrow>
     \<exists>t' d'. write_slices files sl data o' t d = (Inr t', d') \<and> dk_faults d' = [] \<and>
       (set t \<subseteq> {..<length files} \<longrightarrow> set t' \<subseteq> {..<length files})"
proof (induction sl arbitrary: o' t d)
  case (Cons a sl)
  obtain i off n where a: "a = (i, off, n)" by (cases a)
  note proper = proper_Cons [OF Cons.prems(1) [unfolded a]]
  have i: "i < length files" using proper(3) Cons.prems(2) by (simp add: opened_def)
  then obtain f where f: "files ! i = Some f" using Cons.prems(3) by (metis nth_mem option.exhaust)
  then have at: "file_at files i d = (Inr f, d)" using i by (simp add: file_at_def io_return_def)
  obtain d2 where w: "write_at f off (take n (drop o' data)) d = (Inr (), d2)" "dk_faults d2 = []"
    using Cons.prems(4) by (simp add: write_at_def next_fault_free)
  have len: "o' + n \<le> length data" "o' + n + length (expand sl) \<le> length data" using Cons.prems(5) a by auto
  have "opened ly files d2" using write_at_content [OF w(1)] opened_pwrite [OF Cons.prems(2)] by metis
  from Cons.IH [OF proper(1) this Cons.prems(3) w(2) len(2)] show ?case
    using at w len(1) i Cons.prems(4) by (fastforce simp: a io_bind_def sys_call_free)
qed (auto simp: io_return_def)

lemma flush_files_content: "flush_files files is d = (r, d') \<Longrightarrow> content d' = content d"
proof (induction "is" arbitrary: d)
  case (Cons i "is")
  then show ?case by (fastforce simp: io_bind_eq dest: file_at_eq sys_call_content)
qed (simp add: io_return_def)

lemma flush_files_free:
  "set is \<subseteq> {..<length files} \<Longrightarrow> None \<notin> set files \<Longrightarrow> dk_faults d = [] \<Longrightarrow> flush_files files is d = (Inr (), d)"
proof (induction "is" arbitrary: d)
  case (Cons i "is")
  then obtain f where "files ! i = Some f" by (metis insert_subset lessThan_iff list.set(2) nth_mem option.exhaust)
  with Cons show ?case by (simp add: io_bind_def file_at_def io_return_def sys_call_free)
qed (simp add: io_return_def)

text \<open>Reading needs only that the handles belong to the spans.\<close>

definition handles :: "layout \<Rightarrow> path option list \<Rightarrow> bool" where
  "handles ly files \<longleftrightarrow>
     length files = length (ly_files ly) \<and>
     (\<forall>i < length files. files ! i = None \<or> files ! i = Some (sp_path (ly_files ly ! i)))"

definition readable :: "path option list \<Rightarrow> disk \<Rightarrow> nat \<times> nat \<Rightarrow> bool" where
  "readable files d c \<longleftrightarrow> (case files ! fst c of None \<Rightarrow> False | Some f \<Rightarrow> snd c < length (content d f))"

lemma opened_handles: "opened ly files d \<Longrightarrow> handles ly files"
  by (auto simp: opened_def handles_def)

lemma opened_readable: "opened ly files d \<Longrightarrow> None \<notin> set files \<Longrightarrow> c \<in> set (cells ly) \<Longrightarrow> readable files d c"
proof -
  assume a: "opened ly files d" "None \<notin> set files" "c \<in> set (cells ly)"
  obtain i k where c: "c = (i, k)" by fastforce
  with a have i: "i < length files" "k < sp_length (ly_files ly ! i)" by (auto simp: cells_form opened_def)
  then have "files ! i \<noteq> None" using a(2) nth_mem by metis
  then show ?thesis using a(1) i c by (auto simp: readable_def opened_def)
qed

lemma read_at_eq:
  "read_at p off n d = (r, d') \<Longrightarrow> content d' = content d \<and>
     (\<forall>bs. r = Inr bs \<longrightarrow> off + n \<le> length (content d p) \<and> bs = take n (drop off (content d p)))"
  by (auto simp: read_at_def io_bind_eq dest: sys_call_content split: if_splits)

lemma cell_bytes_segment:
  assumes "off + n \<le> length (content d (sp_path (ly_files ly ! i)))"
  shows "map (cell_byte ly d) (map (Pair i) [off..<off + n]) = take n (drop off (content d (sp_path (ly_files ly ! i))))"
  by (rule nth_equalityI) (use assms in \<open>auto simp: cell_byte_def\<close>)

lemma read_slices_Cons:
  assumes "read_slices files ((i, off, n) # sl) out o' d = (r, d')"
  obtains (early) "content d' = content d" "\<And>bs. r \<noteq> Inr bs"
  | (now) f d1 bs d2 where "i < length files" "files ! i = Some f" "content d1 = content d"
      "read_at f off n d1 = (Inr bs, d2)" "read_slices files sl (pwrite o' bs out) (o' + n) d2 = (r, d')"
proof -
  from assms consider (1) e where "file_at files i d = (Inl e, d')" "r = Inl e"
    | (2) f d0 e where "file_at files i d = (Inr f, d0)" "sys_call d0 = (Inl e, d')" "r = Inl e"
    | (3) f d0 d1 where "file_at files i d = (Inr f, d0)" "sys_call d0 = (Inr (), d1)"
       "(if o' + n > length out then io_fail (Panic ''range end index out of range'')
         else io_bind (read_at f off n) (\<lambda>bs. read_slices files sl (pwrite o' bs out) (o' + n))) d1 = (r, d')"
    by (auto simp: io_bind_eq [of "file_at _ _"] io_bind_eq [of sys_call])
  then show ?thesis
  proof cases
    case 1
    then show ?thesis using early file_at_eq by blast
  next
    case 2
    then show ?thesis using early file_at_eq sys_call_content by blast
  next
    case 3
    then have f: "i < length files" "files ! i = Some f" "content d1 = content d"
      using file_at_eq sys_call_content by blast+
    from 3(3) consider (a) "d' = d1" "\<And>bs. r \<noteq> Inr bs" | (b) e where "read_at f off n d1 = (Inl e, d')" "r = Inl e"
      | (c) bs d2 where "read_at f off n d1 = (Inr bs, d2)" "read_slices files sl (pwrite o' bs out) (o' + n) d2 = (r, d')"
      by (auto simp: io_bind_eq io_fail_def split: if_splits)
    then show ?thesis
    proof cases
      case a
      then show ?thesis using early f(3) by simp
    next
      case b
      then show ?thesis using early f(3) read_at_eq by force
    next
      case c
      then show ?thesis using now [OF f] by blast
    qed
  qed
qed

lemma read_slices_cells:
  "proper ly sl \<Longrightarrow> handles ly files \<Longrightarrow> o' + length (expand sl) = length out \<Longrightarrow> read_slices files sl out o' d = (r, d') \<Longrightarrow>
     content d' = content d \<and> (\<forall>bs. r = Inr bs \<longrightarrow> bs = take o' out @ map (cell_byte ly d) (expand sl))"
proof (induction sl arbitrary: o' out d)
  case (Cons a sl)
  obtain i off n where a: "a = (i, off, n)" by (cases a)
  note proper = proper_Cons [OF Cons.prems(1) [unfolded a]]
  have len: "o' + n \<le> length out" using Cons.prems(3) a by simp
  from Cons.prems(4) [unfolded a] show ?case
  proof (cases rule: read_slices_Cons)
    case (now f d1 bs d2)
    have f: "f = sp_path (ly_files ly ! i)" using now(1,2) Cons.prems(2) by (auto simp: handles_def)
    have bs: "content d2 = content d" "bs = map (cell_byte ly d) (map (Pair i) [off..<off + n])"
      using read_at_eq [OF now(4)] now(3) cell_bytes_segment [of off n d ly i] f by auto
    have "o' + n + length (expand sl) = length (pwrite o' bs out)"
      using Cons.prems(3) bs(2) a by (simp add: pwrite_def)
    from Cons.IH [OF proper(1) Cons.prems(2) this now(5)] show ?thesis
      using bs len by (auto simp: a pwrite_within cell_byte_content [OF bs(1)])
  qed simp
qed (auto simp: io_return_def)

lemma read_slices_free:
  "proper ly sl \<Longrightarrow> handles ly files \<Longrightarrow> o' + length (expand sl) = length out \<Longrightarrow> dk_faults d = [] \<Longrightarrow>
     \<exists>r. read_slices files sl out o' d = (r, d) \<and> ((\<exists>bs. r = Inr bs) \<longleftrightarrow> (\<forall>c \<in> set (expand sl). readable files d c))"
proof (induction sl arbitrary: o' out)
  case (Cons a sl)
  obtain i off n where a: "a = (i, off, n)" by (cases a)
  note proper = proper_Cons [OF Cons.prems(1) [unfolded a]]
  have i: "i < length files" and n: "0 < n"
    using proper(3) Cons.prems(1,2) a by (auto simp: handles_def proper_def)
  have first: "(\<forall>c \<in> set (map (Pair i) [off..<off + n]). readable files d c) \<longleftrightarrow>
      (\<exists>f. files ! i = Some f \<and> off + n \<le> length (content d f))"
  proof -
    have "(\<forall>k \<in> {off..<off + n}. k < l) \<longleftrightarrow> off + n \<le> l" for l
      using n by (auto dest: bspec [of _ _ "off + n - 1"])
    then show ?thesis using n by (cases "files ! i") (auto simp: readable_def intro: exI [of _ off])
  qed
  show ?case
  proof (cases "\<exists>f. files ! i = Some f \<and> off + n \<le> length (content d f)")
    case True
    then obtain f where f: "files ! i = Some f" "off + n \<le> length (content d f)" by blast
    let ?bs = "take n (drop off (content d f))"
    have "o' + n + length (expand sl) = length (pwrite o' ?bs out)"
      using Cons.prems(3) f a by (simp add: pwrite_def)
    from Cons.IH [OF proper(1) Cons.prems(2) this Cons.prems(4)] obtain r where
      r: "read_slices files sl (pwrite o' ?bs out) (o' + n) d = (r, d)"
        "(\<exists>bs. r = Inr bs) \<longleftrightarrow> (\<forall>c \<in> set (expand sl). readable files d c)" by blast
    have "read_slices files (a # sl) out o' d = (r, d)"
      using f i Cons.prems(3,4) r(1)
      by (simp add: a io_bind_def file_at_def io_return_def sys_call_free read_at_def)
    then show ?thesis using r(2) first True by (auto simp: a)
  next
    case False
    then have "\<exists>e. read_slices files (a # sl) out o' d = (Inl e, d)"
      using i Cons.prems(3,4)
      by (cases "files ! i") (simp_all add: a io_bind_def file_at_def io_return_def io_fail_def sys_call_free read_at_def)
    then show ?thesis using first False by (auto simp: a)
  qed
qed (simp add: io_return_def)

section \<open>Pieces\<close>

definition cells_of :: "layout \<Rightarrow> nat \<Rightarrow> (nat \<times> nat) list" where
  "cells_of ly idx = take (ly_piece_size ly idx) (drop (idx * ly_piece_length ly) (cells ly))"

lemma expand_piece: "sound_layout ly \<Longrightarrow> expand (slices_for_piece ly idx (ly_piece_size ly idx)) = cells_of ly idx"
  by (simp add: slices_for_piece_def cells_of_def slices_cells sound_layout_def)

lemma length_cells_of:
  assumes "sound_layout ly"
  shows "idx < ly_num_pieces ly \<Longrightarrow> length (cells_of ly idx) = ly_piece_size ly idx"
    "\<not> idx < ly_num_pieces ly \<Longrightarrow> cells_of ly idx = []" "length (cells_of ly idx) \<le> ly_piece_size ly idx"
  using assms length_cells [of ly] piece_in_stream [of ly idx] ly_piece_size_min [of ly idx]
  by (auto simp: cells_of_def sound_layout_def)

lemma cells_of_subset: "set (cells_of ly idx) \<subseteq> set (cells ly)"
  by (auto simp: cells_of_def dest: in_set_takeD in_set_dropD)

lemma proper_piece: "sound_layout ly \<Longrightarrow> proper ly (slices_for_piece ly idx n)"
  by (simp add: slices_for_piece_def proper_slices)

lemma write_piece_cells:
  assumes "sound_layout ly" "opened ly files d" "write_piece ly files idx data d = (r, d')"
  shows "opened ly files d' \<and>
    (\<forall>c \<in> set (cells ly). c \<notin> set (cells_of ly idx) \<longrightarrow> cell_byte ly d' c = cell_byte ly d c) \<and>
    (r = Inr () \<longrightarrow> length data = ly_piece_size ly idx \<and>
       map (cell_byte ly d') (cells_of ly idx) = take (length (cells_of ly idx)) data)"
proof (cases "length data = ly_piece_size ly idx")
  case True
  obtain r1 d1 where w: "write_slices files (slices_for_piece ly idx (ly_piece_size ly idx)) data 0 [] d = (r1, d1)"
    by fastforce
  note W = write_slices_cells [OF proper_piece [OF assms(1)] assms(1,2) w, unfolded expand_piece [OF assms(1)]]
  have fl: "content d' = content d1" and r: "r = Inr () \<Longrightarrow> \<exists>t. r1 = Inr t"
    using assms(3) True w by (auto simp: write_piece_def Let_def io_bind_eq dest: flush_files_content)
  from W show ?thesis
    using True r opened_content [OF _ fl] cell_byte_content [OF fl] by (auto 4 3)
qed (use assms in \<open>auto simp: write_piece_def Let_def io_fail_def\<close>)

lemma write_piece_free:
  assumes "sound_layout ly" "opened ly files d" "None \<notin> set files" "dk_faults d = []" "length data = ly_piece_size ly idx"
  shows "\<exists>d'. write_piece ly files idx data d = (Inr (), d') \<and> dk_faults d' = []"
proof -
  have "0 + length (expand (slices_for_piece ly idx (ly_piece_size ly idx))) \<le> length data"
    using expand_piece [OF assms(1)] length_cells_of(3) [OF assms(1)] assms(5) by simp
  from write_slices_free [OF proper_piece [OF assms(1)] assms(2-4) this, of "[]"]
  show ?thesis using assms(3,5) by (force simp: write_piece_def io_bind_def flush_files_free)
qed

lemma read_range_cells:
  assumes "sound_layout ly" "handles ly files" "read_range ly files idx start len d = (r, d')" "idx < ly_num_pieces ly"
  shows "content d' = content d \<and> (\<forall>bs. r = Inr bs \<longrightarrow>
     start + len \<le> ly_piece_size ly idx \<and> bs = take len (drop start (map (cell_byte ly d) (cells_of ly idx))))"
proof (cases "start + len \<le> ly_piece_size ly idx")
  case True
  let ?sl = "slices ly (idx * ly_piece_length ly + start) len"
  have "cells_of ly idx = take (ly_piece_size ly idx) (drop (idx * ly_piece_length ly) (cells ly))"
    by (simp add: cells_of_def)
  then have ex: "expand ?sl = take len (drop start (cells_of ly idx))"
    using True slices_cells [of ly "idx * ly_piece_length ly + start" len] assms(1)
    by (simp add: sound_layout_def drop_take add.commute min_def)
  have "length (expand ?sl) = len"
    using ex length_cells_of(1) [OF assms(1,4)] True by simp
  then have "0 + length (expand ?sl) = length (replicate len (0 :: u8))" by simp
  from read_slices_cells [OF proper_slices [OF assms(1)] assms(2) this] show ?thesis
    using assms(3) True ex by (auto simp: read_range_def Let_def take_map drop_map)
qed (use assms in \<open>auto simp: read_range_def Let_def io_fail_def\<close>)

section \<open>Allocation\<close>

definition grown :: "disk \<Rightarrow> disk \<Rightarrow> bool" where
  "grown d d' \<longleftrightarrow> (\<forall>p. \<exists>z. content d' p = content d p @ replicate z 0)"

lemma grown_refl: "content d' = content d \<Longrightarrow> grown d d'"
  unfolding grown_def by (metis append_Nil2 replicate_0)

lemma grown_trans: "grown d d1 \<Longrightarrow> grown d1 d2 \<Longrightarrow> grown d d2"
  unfolding grown_def by (metis append.assoc replicate_add)

lemma grown_length: "grown d d' \<Longrightarrow> length (content d p) \<le> length (content d' p)"
  unfolding grown_def by (metis le_add1 length_append)

lemma open_create_eq:
  "open_create p d = (r, d') \<Longrightarrow> content d' = content d \<and> (\<forall>h. r = Inr h \<longrightarrow> h = p)"
proof -
  assume "open_create p d = (r, d')"
  then consider (1) e where "sys_call d = (Inl e, d')" "r = Inl e"
    | (2) d1 where "sys_call d = (Inr (), d1)" "r = Inr p"
      "d' = d1\<lparr>dk_files := (case dk_files d1 p of None \<Rightarrow> (dk_files d1)(p \<mapsto> []) | Some _ \<Rightarrow> dk_files d1)\<rparr>"
    by (auto simp: open_create_def io_bind_eq)
  then show ?thesis
  proof cases
    case 1
    then show ?thesis using sys_call_content by blast
  next
    case 2
    then have "content d' = content d1" by (cases "dk_files d1 p") (auto simp: content_def fun_eq_iff)
    with 2 show ?thesis using sys_call_content by simp
  qed
qed

lemma file_len_eq:
  "file_len p d = (r, d') \<Longrightarrow> content d' = content d \<and> (\<forall>n. r = Inr n \<longrightarrow> n = length (content d p))"
  by (auto simp: file_len_def io_bind_eq dest: sys_call_content)

lemma set_len_eq:
  assumes "set_len p n d = (r, d')" "length (content d p) \<le> n"
  shows "grown d d'" "r = Inr () \<Longrightarrow> n \<le> length (content d' p)"
proof -
  from assms(1) consider (1) e where "sys_call d = (Inl e, d')" "r = Inl e"
    | (2) d1 where "sys_call d = (Inr (), d1)" "r = Inr ()"
      "d' = d1\<lparr>dk_files := (dk_files d1)(p \<mapsto> take n (content d1 p) @ replicate (n - length (content d1 p)) 0)\<rparr>"
    by (auto simp: set_len_def io_bind_eq)
  then have "grown d d' \<and> (r = Inr () \<longrightarrow> n \<le> length (content d' p))"
  proof cases
    case 1
    then show ?thesis using sys_call_content grown_refl by blast
  next
    case 2
    then have "content d' = (content d)(p := content d p @ replicate (n - length (content d p)) 0)"
      using sys_call_content [OF 2(1)] assms(2) unfolding 2(3) fun_eq_iff content_upd by simp
    then show ?thesis unfolding grown_def by (auto intro: exI [of _ 0])
  qed
  then show "grown d d'" "r = Inr () \<Longrightarrow> n \<le> length (content d' p)" by blast+
qed

text \<open>One file: created, and extended to its span.\<close>

definition open_one :: "file_span \<Rightarrow> (disk, path) step" where
  "open_one f =
     io_bind sys_call (\<lambda>_.
     io_bind (open_create (sp_path f)) (\<lambda>h.
     io_bind (file_len h) (\<lambda>cur.
     io_bind (if cur < sp_length f then set_len h (sp_length f) else io_return ()) (\<lambda>_. io_return h))))"

lemma io_bind_assoc: "io_bind (io_bind m f) g = io_bind m (\<lambda>x. io_bind (f x) g)"
  by (auto simp: io_bind_def fun_eq_iff split: prod.splits sum.splits)

lemma io_bind_return: "io_bind (io_return x) f = f x"
  by (auto simp: io_bind_def io_return_def fun_eq_iff)

lemma open_files_Cons:
  "open_files wanted i (f # fs) =
     (if (case wanted of None \<Rightarrow> False | Some w \<Rightarrow> \<not> (if i < length w then w ! i else True))
      then io_bind (open_files wanted (i + 1) fs) (\<lambda>rest. io_return (None # rest))
      else io_bind (open_one f) (\<lambda>h. io_bind (open_files wanted (i + 1) fs) (\<lambda>rest. io_return (Some h # rest))))"
  by (simp only: open_files.simps Let_def open_one_def io_bind_assoc io_bind_return)

lemma open_one_eq:
  assumes "open_one f d = (r, d')"
  shows "grown d d'" "r = Inr h \<Longrightarrow> h = sp_path f \<and> sp_length f \<le> length (content d' (sp_path f))"
proof -
  let ?p = "sp_path f"
  from assms consider (1) "content d' = content d" "\<And>h. r \<noteq> Inr h"
    | (2) d1 cur d2 r2 where "content d1 = content d" "cur = length (content d ?p)"
      "(if cur < sp_length f then set_len ?p (sp_length f) else io_return ()) d1 = (r2, d2)" "d' = d2"
      "r = (case r2 of Inl e \<Rightarrow> Inl e | Inr _ \<Rightarrow> Inr ?p)"
    unfolding open_one_def
    by (auto simp: io_bind_eq io_return_def dest!: sys_call_content open_create_eq file_len_eq)
  then have "grown d d' \<and> (r = Inr h \<longrightarrow> h = ?p \<and> sp_length f \<le> length (content d' ?p))"
  proof cases
    case 1
    then show ?thesis using grown_refl by blast
  next
    case 2
    show ?thesis
    proof (cases "cur < sp_length f")
      case True
      then have "set_len ?p (sp_length f) d1 = (r2, d')" "length (content d1 ?p) \<le> sp_length f" using 2 by auto
      from set_len_eq [OF this] show ?thesis
        using 2(1,5) grown_trans [OF grown_refl [OF 2(1)]] by (auto split: sum.splits)
    next
      case False
      then have "content d' = content d" "r = Inr ?p" using 2 by (auto simp: io_return_def)
      then show ?thesis using False 2(2) grown_refl by auto
    qed
  qed
  then show "grown d d'" "r = Inr h \<Longrightarrow> h = ?p \<and> sp_length f \<le> length (content d' ?p)" by blast+
qed

lemma open_one_free: "dk_faults d = [] \<Longrightarrow> \<exists>d'. open_one f d = (Inr (sp_path f), d') \<and> dk_faults d' = []"
  by (auto simp: open_one_def io_bind_def sys_call_free open_create_def file_len_def set_len_def io_return_def)

lemma open_files_eq:
  "open_files w i fs d = (r, d') \<Longrightarrow> grown d d' \<and> (\<forall>hs. r = Inr hs \<longrightarrow>
     list_all2 (\<lambda>h f. h = None \<or> h = Some (sp_path f) \<and> sp_length f \<le> length (content d' (sp_path f))) hs fs)"
proof (induction fs arbitrary: i d r)
  case (Cons f fs)
  from Cons.prems consider (skip) r1 where "open_files w (i + 1) fs d = (r1, d')"
      "(\<exists>e. r1 = Inl e \<and> r = Inl e) \<or> (\<exists>hs. r1 = Inr hs \<and> r = Inr (None # hs))"
    | (fail) e where "open_one f d = (Inl e, d')" "r = Inl e"
    | (one) h d1 r1 where "open_one f d = (Inr h, d1)" "open_files w (i + 1) fs d1 = (r1, d')"
      "(\<exists>e. r1 = Inl e \<and> r = Inl e) \<or> (\<exists>hs. r1 = Inr hs \<and> r = Inr (Some h # hs))"
    unfolding open_files_Cons by (auto simp: io_bind_eq io_return_def split: if_splits)
  then show ?case
  proof cases
    case skip
    then show ?thesis using Cons.IH [OF skip(1)] by auto
  next
    case fail
    then show ?thesis using open_one_eq(1) by blast
  next
    case one
    have grow: "grown d d1" "grown d1 d'" and h: "h = sp_path f" "sp_length f \<le> length (content d1 h)"
      using open_one_eq [OF one(1)] Cons.IH [OF one(2)] by auto
    have "sp_length f \<le> length (content d' h)" using h(2) grown_length [OF grow(2), of h] by simp
    then show ?thesis
      using one(3) h(1) grown_trans [OF grow] Cons.IH [OF one(2)]
      by auto
  qed
qed (auto simp: io_return_def grown_refl)

lemma open_files_opened: "open_files w 0 (ly_files ly) d = (Inr hs, d') \<Longrightarrow> opened ly hs d' \<and> grown d d'"
  using open_files_eq [of w 0 "ly_files ly" d "Inr hs" d'] by (auto simp: opened_def list_all2_conv_all_nth)

lemma open_files_free:
  "dk_faults d = [] \<Longrightarrow> \<exists>d'. open_files None i fs d = (Inr (map (\<lambda>f. Some (sp_path f)) fs), d') \<and> dk_faults d' = []"
proof (induction fs arbitrary: i d)
  case (Cons f fs)
  obtain d1 where d1: "open_one f d = (Inr (sp_path f), d1)" "dk_faults d1 = []" using open_one_free Cons.prems by blast
  from Cons.IH [OF d1(2), of "i + 1"] d1(1) show ?case
    unfolding open_files_Cons by (auto simp: io_bind_def io_return_def)
qed (simp add: io_return_def)

section \<open>The storage task against its contracts\<close>

text \<open>
  The first contract: the torrent is one flat byte string, a write replaces the bytes of its piece and a
  read returns bytes of its piece. A piece index outside the torrent writes nothing and reads zeros.
\<close>

definition flat_write :: "layout \<Rightarrow> nat \<Rightarrow> bytes \<Rightarrow> bytes \<Rightarrow> bytes" where
  "flat_write ly idx data st =
     (if idx < ly_num_pieces ly then
        take (idx * ly_piece_length ly) st @ data @ drop (idx * ly_piece_length ly + length data) st
      else st)"

definition flat_read :: "layout \<Rightarrow> nat \<Rightarrow> nat \<Rightarrow> nat \<Rightarrow> bytes \<Rightarrow> bytes" where
  "flat_read ly idx start len st =
     (if idx < ly_num_pieces ly then take len (drop (idx * ly_piece_length ly + start) st) else replicate len 0)"

fun flat_loop :: "layout \<Rightarrow> storage_command list \<Rightarrow> bytes \<Rightarrow> storage_event list \<times> bytes" where
  "flat_loop ly [] st = ([], st)"
| "flat_loop ly (Shutdown # cmds) st = ([], st)"
| "flat_loop ly (Write idx data # cmds) st =
     (if length data = ly_piece_size ly idx then
        apfst (Cons (Written idx)) (flat_loop ly cmds (flat_write ly idx data st))
      else apfst (Cons (StorageError (Some idx) (Io ''write piece ''))) (flat_loop ly cmds st))"
| "flat_loop ly (Read idx start len # cmds) st =
     apfst (Cons (Reply (if start + len \<le> ly_piece_size ly idx then Inr (flat_read ly idx start len st)
                         else Inl (Io ''read past piece end''))))
       (flat_loop ly cmds st)"

text \<open>
  The second contract, under failing system calls and selective download: after a write was acknowledged,
  a successful read of that piece returns the written bytes, until a later write to the same piece.
\<close>

fun admissible ::
    "layout \<Rightarrow> (nat \<rightharpoonup> bytes) \<Rightarrow> storage_command list \<Rightarrow> storage_event list \<Rightarrow> bool" where
  "admissible ly st [] evs \<longleftrightarrow> evs = []"
| "admissible ly st (Shutdown # cmds) evs \<longleftrightarrow> evs = []"
| "admissible ly st (Write idx data # cmds) (Written i # evs) \<longleftrightarrow>
     i = idx \<and> length data = ly_piece_size ly idx \<and>
     admissible ly (if idx < ly_num_pieces ly then st(idx \<mapsto> data) else st) cmds evs"
| "admissible ly st (Write idx data # cmds) (StorageError i e # evs) \<longleftrightarrow>
     i = Some idx \<and> admissible ly (st(idx := None)) cmds evs"
| "admissible ly st (Read idx start len # cmds) (Reply r # evs) \<longleftrightarrow>
     (\<forall>bs. r = Inr bs \<longrightarrow> (case st idx of None \<Rightarrow> True | Some data \<Rightarrow> bs = take len (drop start data))) \<and>
     admissible ly st cmds evs"
| "admissible ly st _ _ \<longleftrightarrow> False"

lemma cells_of_disjoint:
  assumes "sound_layout ly" "c \<in> set (cells_of ly i)" "c \<in> set (cells_of ly j)"
  shows "i = j"
proof -
  have ok: "layout_ok ly" using assms(1) by (simp add: sound_layout_def)
  have num: "i < ly_num_pieces ly" "j < ly_num_pieces ly" using assms length_cells_of(2) by fastforce+
  then obtain g h where "c = cells ly ! g" "g < ly_total_length ly" "g div ly_piece_length ly = i"
      "c = cells ly ! h" "h < ly_total_length ly" "h div ly_piece_length ly = j"
    using assms(2,3) unfolding cells_of_def piece_cells [OF ok num(1)] piece_cells [OF ok num(2)] by blast
  then show ?thesis
    using distinct_cells_from [of 0 "ly_files ly"] length_cells [OF ok] by (metis cells_def nth_eq_iff_index_eq)
qed

lemma slices_outside:
  assumes "sound_layout ly" "\<not> idx < ly_num_pieces ly"
  shows "slices ly (idx * ly_piece_length ly + start) len = []"
proof -
  let ?sl = "slices ly (idx * ly_piece_length ly + start) len"
  have "ly_total_length ly \<le> idx * ly_piece_length ly"
    using assms piece_in_stream [of ly idx] by (simp add: sound_layout_def)
  then have "expand ?sl = []" using slices_cells [of ly] length_cells [of ly] assms(1) by (simp add: sound_layout_def)
  then show ?thesis
    using proper_slices [OF assms(1), of "idx * ly_piece_length ly + start" len] by (cases ?sl) (auto simp: proper_def)
qed

lemma write_piece_stream:
  assumes "sound_layout ly" "opened ly files d" "write_piece ly files idx data d = (Inr (), d')"
  shows "stream_of ly d' = flat_write ly idx data (stream_of ly d)"
proof (cases "idx < ly_num_pieces ly")
  case False
  then show ?thesis
    using write_piece_cells [OF assms] length_cells_of(2) [OF assms(1)] by (simp add: stream_of_def flat_write_def)
next
  case True
  let ?a = "idx * ly_piece_length ly" and ?n = "length data"
  note W = write_piece_cells [OF assms]
  have n: "?n = ly_piece_size ly idx" "length (cells_of ly idx) = ?n"
    using W length_cells_of(1) [OF assms(1) True] by auto
  have split: "cells ly = take ?a (cells ly) @ cells_of ly idx @ drop (?a + ?n) (cells ly)"
    unfolding cells_of_def n(1) [symmetric] by (metis append.assoc append_take_drop_id take_add)
  have dist: "distinct (cells ly)" by (simp add: cells_def distinct_cells_from)
  then have out: "set (take ?a (cells ly)) \<inter> set (cells_of ly idx) = {}" "set (drop (?a + ?n) (cells ly)) \<inter> set (cells_of ly idx) = {}"
    using split by (metis distinct_append set_append inf_commute Int_Un_distrib sup_eq_bot_iff)+
  have same: "map (cell_byte ly d') xs = map (cell_byte ly d) xs"
    if "set xs \<subseteq> set (cells ly)" "set xs \<inter> set (cells_of ly idx) = {}" for xs
    using W that by (intro map_cong) auto
  have "stream_of ly d' = map (cell_byte ly d') (take ?a (cells ly)) @ map (cell_byte ly d') (cells_of ly idx) @
      map (cell_byte ly d') (drop (?a + ?n) (cells ly))"
    unfolding stream_of_def by (subst split) simp
  also have "\<dots> = map (cell_byte ly d) (take ?a (cells ly)) @ data @ map (cell_byte ly d) (drop (?a + ?n) (cells ly))"
    using W n same [OF set_take_subset out(1)] same [OF set_drop_subset out(2)] by simp
  finally show ?thesis using True by (simp add: flat_write_def stream_of_def take_map drop_map)
qed

lemma read_range_stream:
  assumes "sound_layout ly" "opened ly files d" "None \<notin> set files" "dk_faults d = []" "start + len \<le> ly_piece_size ly idx"
  shows "read_range ly files idx start len d = (Inr (flat_read ly idx start len (stream_of ly d)), d)"
proof -
  let ?g = "idx * ly_piece_length ly + start"
  have ex: "expand (slices ly ?g len) = take len (drop ?g (cells ly))"
    using assms(1) by (simp add: slices_cells sound_layout_def)
  show ?thesis
  proof (cases "idx < ly_num_pieces ly")
    case True
    have "idx * ly_piece_length ly + ly_piece_size ly idx \<le> length (cells ly)"
      using assms(1) True length_cells [of ly] piece_in_stream [of ly idx] ly_piece_size_min [of ly idx]
      by (auto simp: sound_layout_def)
    then have len: "0 + length (expand (slices ly ?g len)) = length (replicate len (0 :: u8))"
      using ex assms(5) by simp
    have "\<forall>c \<in> set (expand (slices ly ?g len)). readable files d c"
      using ex opened_readable [OF assms(2,3)] by (auto dest: in_set_takeD in_set_dropD)
    then obtain bs where bs: "read_slices files (slices ly ?g len) (replicate len 0) 0 d = (Inr bs, d)"
      using read_slices_free [OF proper_slices [OF assms(1)] opened_handles [OF assms(2)] len assms(4)] by blast
    have "bs = map (cell_byte ly d) (take len (drop ?g (cells ly)))"
      using read_slices_cells [OF proper_slices [OF assms(1)] opened_handles [OF assms(2)] len bs] ex by simp
    then show ?thesis
      using bs True assms(5) by (simp add: read_range_def flat_read_def stream_of_def take_map drop_map)
  next
    case False
    then have "slices ly ?g len = []" by (rule slices_outside [OF assms(1)])
    then show ?thesis using False assms(5) by (simp add: read_range_def flat_read_def io_return_def)
  qed
qed

lemma storage_loop_flat:
  "sound_layout ly \<Longrightarrow> opened ly files d \<Longrightarrow> None \<notin> set files \<Longrightarrow> dk_faults d = [] \<Longrightarrow>
     \<exists>d'. storage_loop ly files cmds d = (fst (flat_loop ly cmds (stream_of ly d)), d') \<and>
       stream_of ly d' = snd (flat_loop ly cmds (stream_of ly d)) \<and> dk_faults d' = []"
proof (induction ly files cmds d rule: storage_loop.induct)
  case (3 ly files idx data cmds d)
  show ?case
  proof (cases "length data = ly_piece_size ly idx")
    case True
    then obtain d1 where d1: "write_piece ly files idx data d = (Inr (), d1)" "dk_faults d1 = []"
      using write_piece_free 3(2-5) by blast
    have "opened ly files d1" using write_piece_cells [OF 3(2,3) d1(1)] by blast
    from "3.IH" [OF refl d1(1) [symmetric] refl 3(2) this 3(4) d1(2)] obtain d' where
      "storage_loop ly files cmds d1 = (fst (flat_loop ly cmds (stream_of ly d1)), d')"
      "stream_of ly d' = snd (flat_loop ly cmds (stream_of ly d1))" "dk_faults d' = []" by blast
    then show ?thesis
      using d1(1) True write_piece_stream [OF 3(2,3) d1(1)] by simp
  next
    case False
    then have w: "write_piece ly files idx data d = (Inl (Io ''write piece ''), d)"
      by (simp add: write_piece_def io_fail_def)
    from "3.IH" [OF refl w [symmetric] refl 3(2-5)] show ?thesis using w False by auto
  qed
next
  case (4 ly files idx start len cmds d)
  show ?case
  proof (cases "start + len \<le> ly_piece_size ly idx")
    case True
    note r = read_range_stream [OF 4(2-5) True]
    from "4.IH" [OF refl r [symmetric] 4(2-5)] show ?thesis using r True by auto
  next
    case False
    then have r: "read_range ly files idx start len d = (Inl (Io ''read past piece end''), d)"
      by (simp add: read_range_def io_fail_def)
    from "4.IH" [OF refl r [symmetric] 4(2-5)] show ?thesis using r False by auto
  qed
qed auto

definition stored :: "layout \<Rightarrow> disk \<Rightarrow> (nat \<rightharpoonup> bytes) \<Rightarrow> bool" where
  "stored ly d st \<longleftrightarrow>
     (\<forall>idx data. st idx = Some data \<longrightarrow> idx < ly_num_pieces ly \<and> map (cell_byte ly d) (cells_of ly idx) = data)"

lemma stored_write:
  assumes "sound_layout ly" "opened ly files d" "write_piece ly files idx data d = (r, d')" "stored ly d st"
  shows "stored ly d' (st(idx := None))"
    "r = Inr () \<Longrightarrow> stored ly d' (if idx < ly_num_pieces ly then st(idx \<mapsto> data) else st)"
proof -
  note W = write_piece_cells [OF assms(1-3)]
  have other: "map (cell_byte ly d') (cells_of ly j) = map (cell_byte ly d) (cells_of ly j)" if "j \<noteq> idx" for j
    using W that cells_of_subset [of ly j] cells_of_disjoint [OF assms(1), of _ j idx] by (intro map_cong) blast+
  then show none: "stored ly d' (st(idx := None))"
    using assms(4) unfolding stored_def by (metis fun_upd_apply option.distinct(1))
  assume "r = Inr ()"
  then have "idx < ly_num_pieces ly \<Longrightarrow> map (cell_byte ly d') (cells_of ly idx) = data"
    using W length_cells_of(1) [OF assms(1), of idx] by simp
  moreover have "\<not> idx < ly_num_pieces ly \<Longrightarrow> st idx = None"
    using assms(4) by (cases "st idx") (auto simp: stored_def)
  ultimately show "stored ly d' (if idx < ly_num_pieces ly then st(idx \<mapsto> data) else st)"
    using none unfolding stored_def by (cases "idx < ly_num_pieces ly") (auto simp: fun_upd_idem split: if_splits)
qed

lemma stored_content: "stored ly d st \<Longrightarrow> content d' = content d \<Longrightarrow> stored ly d' st"
  unfolding stored_def by (frule cell_byte_content [of _ _ ly]) simp

lemma read_range_content:
  assumes "sound_layout ly" "opened ly files d" "read_range ly files idx start len d = (r, d')"
  shows "content d' = content d"
proof (cases "idx < ly_num_pieces ly")
  case True
  show ?thesis using read_range_cells [OF assms(1) opened_handles [OF assms(2)] assms(3) True] by (rule conjunct1)
next
  case False
  then have "slices ly (idx * ly_piece_length ly + start) len = []" by (rule slices_outside [OF assms(1)])
  with assms(3) show ?thesis
    by (cases "start + len \<le> ly_piece_size ly idx") (simp_all add: read_range_def io_fail_def io_return_def)
qed

lemma storage_loop_admissible:
  "sound_layout ly \<Longrightarrow> opened ly files d \<Longrightarrow> stored ly d st \<Longrightarrow>
     admissible ly st cmds (fst (storage_loop ly files cmds d))"
proof (induction ly files cmds d arbitrary: st rule: storage_loop.induct)
  case (3 ly files idx data cmds d)
  obtain r d1 where w: "write_piece ly files idx data d = (r, d1)" by fastforce
  have op: "opened ly files d1" using write_piece_cells [OF 3(2,3) w] by (rule conjunct1)
  obtain evs d2 where loop: "storage_loop ly files cmds d1 = (evs, d2)" by fastforce
  note IH = "3.IH" [OF refl w [symmetric] refl 3(2) op, unfolded loop fst_conv] and S = stored_write [OF 3(2,3) w 3(4)]
  show ?case
  proof (cases r)
    case (Inl e)
    have "admissible ly (st(idx := None)) cmds evs" by (rule IH [OF S(1)])
    then show ?thesis
      using w loop Inl by (simp only: storage_loop.simps Let_def split_conv admissible.simps sum.case fst_conv simp_thms)
  next
    case (Inr u)
    then have "length data = ly_piece_size ly idx" using write_piece_cells [OF 3(2,3) w] by simp
    moreover have "admissible ly (if idx < ly_num_pieces ly then st(idx \<mapsto> data) else st) cmds evs"
      by (rule IH [OF S(2)]) (simp add: Inr)
    ultimately show ?thesis
      using w loop Inr by (simp only: storage_loop.simps Let_def split_conv admissible.simps sum.case fst_conv simp_thms)
  qed
next
  case (4 ly files idx start len cmds d)
  obtain r d1 where r: "read_range ly files idx start len d = (r, d1)" by fastforce
  have c: "content d1 = content d" by (rule read_range_content [OF 4(2,3) r])
  have "\<forall>bs. r = Inr bs \<longrightarrow> (case st idx of None \<Rightarrow> True | Some data \<Rightarrow> bs = take len (drop start data))"
  proof (cases "st idx")
    case (Some data)
    then have "idx < ly_num_pieces ly" "map (cell_byte ly d) (cells_of ly idx) = data"
      using 4(4) unfolding stored_def by blast+
    then show ?thesis using read_range_cells [OF 4(2) opened_handles [OF 4(3)] r] Some by simp
  qed simp
  moreover obtain evs d2 where loop: "storage_loop ly files cmds d1 = (evs, d2)" by fastforce
  moreover have "admissible ly st cmds evs"
    using "4.IH" [OF refl r [symmetric] 4(2) opened_content [OF 4(3) c] stored_content [OF 4(4) c]] loop by simp
  ultimately show ?case
    using r by (simp only: storage_loop.simps Let_def split_conv admissible.simps fst_conv simp_thms)
qed auto

text \<open>The pieces that a run has stored, read off its events.\<close>

fun store_after ::
    "layout \<Rightarrow> (nat \<rightharpoonup> bytes) \<Rightarrow> storage_command list \<Rightarrow> storage_event list \<Rightarrow> (nat \<rightharpoonup> bytes)" where
  "store_after ly st (Write idx data # cmds) (Written i # evs) =
     store_after ly (if idx < ly_num_pieces ly then st(idx \<mapsto> data) else st) cmds evs"
| "store_after ly st (Write idx data # cmds) (ev # evs) = store_after ly (st(idx := None)) cmds evs"
| "store_after ly st (Read idx start len # cmds) (ev # evs) = store_after ly st cmds evs"
| "store_after ly st cmds evs = st"

definition backed :: "layout \<Rightarrow> path option list \<Rightarrow> (nat \<rightharpoonup> bytes) \<Rightarrow> bool" where
  "backed ly files st \<longleftrightarrow> (\<forall>idx data. st idx = Some data \<longrightarrow> (\<forall>c \<in> set (cells_of ly idx). files ! fst c \<noteq> None))"

lemma write_slices_files:
  "write_slices files sl data o' t d = (Inr t', d') \<Longrightarrow> \<forall>c \<in> set (expand sl). files ! fst c \<noteq> None"
proof (induction sl arbitrary: o' t d)
  case (Cons a sl)
  obtain i off n where a: "a = (i, off, n)" by (cases a)
  from Cons.prems [unfolded a] show ?case
  proof (cases rule: write_slices_Cons)
    case (now f d1 d2 r1 t1)
    then have "files ! i \<noteq> None" "\<forall>c \<in> set (expand sl). files ! fst c \<noteq> None" using Cons.IH by (simp, blast)
    then show ?thesis by (auto simp: a)
  qed auto
qed simp

lemma write_piece_files:
  assumes "sound_layout ly" "write_piece ly files idx data d = (Inr (), d')"
  shows "\<forall>c \<in> set (cells_of ly idx). files ! fst c \<noteq> None"
proof -
  obtain t d1 where "write_slices files (slices_for_piece ly idx (ly_piece_size ly idx)) data 0 [] d = (Inr t, d1)"
    using assms(2) by (auto simp: write_piece_def Let_def io_bind_eq io_fail_def split: if_splits)
  from write_slices_files [OF this] show ?thesis by (simp only: expand_piece [OF assms(1)])
qed

lemma storage_loop_stored:
  "sound_layout ly \<Longrightarrow> opened ly files d \<Longrightarrow> stored ly d st \<Longrightarrow> backed ly files st \<Longrightarrow>
     storage_loop ly files cmds d = (evs, d') \<Longrightarrow>
     opened ly files d' \<and> stored ly d' (store_after ly st cmds evs) \<and> backed ly files (store_after ly st cmds evs)"
proof (induction ly files cmds d arbitrary: st evs rule: storage_loop.induct)
  case (3 ly files idx data cmds d)
  obtain r d1 where w: "write_piece ly files idx data d = (r, d1)" by fastforce
  have op: "opened ly files d1" using write_piece_cells [OF 3(2,3) w] by (rule conjunct1)
  obtain evs' where loop: "storage_loop ly files cmds d1 = (evs', d')" using 3(6) w by (auto split: prod.splits)
  note IH = "3.IH" [OF refl w [symmetric] refl 3(2) op] and S = stored_write [OF 3(2,3) w 3(4)]
  show ?case
  proof (cases r)
    case (Inl e)
    have "backed ly files (st(idx := None))" using 3(5) by (simp add: backed_def)
    then have "opened ly files d' \<and> stored ly d' (store_after ly (st(idx := None)) cmds evs') \<and>
        backed ly files (store_after ly (st(idx := None)) cmds evs')" by (rule IH [OF S(1) _ loop])
    then show ?thesis using 3(6) w loop Inl by auto
  next
    case (Inr u)
    then have "backed ly files (if idx < ly_num_pieces ly then st(idx \<mapsto> data) else st)"
      using 3(5) write_piece_files [OF 3(2), of files idx data d d1] w unfolding backed_def by auto
    from IH [OF S(2) this loop] show ?thesis using 3(6) w loop Inr by (auto simp: fun_upd_def)
  qed
next
  case (4 ly files idx start len cmds d)
  obtain r d1 where r: "read_range ly files idx start len d = (r, d1)" by fastforce
  have c: "content d1 = content d" by (rule read_range_content [OF 4(2,3) r])
  obtain evs' where loop: "storage_loop ly files cmds d1 = (evs', d')" using 4(6) r by (auto split: prod.splits)
  from "4.IH" [OF refl r [symmetric] 4(2) opened_content [OF 4(3) c] stored_content [OF 4(4) c] 4(5) loop]
  show ?case using 4(6) r loop by auto
qed auto

section \<open>The resume scan\<close>

lemma scan_read_eq:
  "proper ly sl \<Longrightarrow> handles ly files \<Longrightarrow> o' + length (expand sl) = length buf \<Longrightarrow>
     scan_read files sl buf o' d = apfst res_ok (read_slices files sl buf o' d)"
proof (induction sl arbitrary: o' buf d)
  case (Cons a sl)
  obtain i off n where a: "a = (i, off, n)" by (cases a)
  note proper = proper_Cons [OF Cons.prems(1) [unfolded a]]
  have i: "i < length files" using proper(3) Cons.prems(2) by (simp add: handles_def)
  have len: "o' + n \<le> length buf" using Cons.prems(3) a by simp
  have "scan_read files sl (pwrite o' bs buf) (o' + n) d2 =
      apfst res_ok (read_slices files sl (pwrite o' bs buf) (o' + n) d2)"
    if "read_at f off n d1 = (Inr bs, d2)" for f d1 bs d2
  proof (rule Cons.IH [OF proper(1) Cons.prems(2)])
    show "o' + n + length (expand sl) = length (pwrite o' bs buf)"
      using read_at_eq [OF that] Cons.prems(3) len by (simp add: a pwrite_def)
  qed
  then show ?case
    using i len by (auto simp: a file_at_def io_bind_def io_return_def io_fail_def split: option.splits prod.splits sum.splits)
qed (simp add: io_return_def)

definition resumable :: "(bytes \<Rightarrow> bytes) \<Rightarrow> layout \<Rightarrow> disk \<Rightarrow> nat \<Rightarrow> bytes \<Rightarrow> bool" where
  "resumable sha1 ly d idx expected \<longleftrightarrow>
     (\<forall>c \<in> set (cells_of ly idx). snd c < length (content d (sp_path (ly_files ly ! fst c)))) \<and>
     sha1 (map (cell_byte ly d) (cells_of ly idx)) = expected"

lemma drain_all_eq: "drain_all q out = out @ map fst (filter snd q)"
  by (induction q out rule: drain_all.induct) (auto split: prod.splits)

lemma open_scan_free:
  "dk_faults d = [] \<Longrightarrow>
     open_scan fs d = (Inr (map (\<lambda>f. if dk_files d (sp_path f) = None then None else Some (sp_path f)) fs), d)"
  by (induction fs) (simp_all add: io_return_def io_bind_def open_read_def sys_call_free)

lemma scan_loop_eq:
  assumes "sound_layout ly" "handles ly files" "dk_faults d = []"
    and "\<And>c. c \<in> set (cells ly) \<Longrightarrow> readable files d c \<longleftrightarrow> snd c < length (content d (sp_path (ly_files ly ! fst c)))"
  shows "list_all (\<lambda>(idx, h). idx < ly_num_pieces ly) items \<Longrightarrow>
    \<exists>q' out'. scan_loop sha1 ly files items q out d = (q', out', d) \<and>
      drain_all q' out' = drain_all q out @ map fst (filter (\<lambda>(idx, h). resumable sha1 ly d idx h) items)"
proof (induction items arbitrary: q out)
  case (Cons item items)
  obtain idx h where item: "item = (idx, h)" by fastforce
  obtain q1 out1 where d1: "(if length q \<ge> MAX_IN_FLIGHT then drain_one q out else (q, out)) = (q1, out1)" by fastforce
  have q1: "drain_all q1 out1 = drain_all q out"
    using d1 by (cases q) (auto simp: drain_all_eq split: if_splits)
  let ?psz = "ly_piece_size ly idx" let ?sl = "slices_for_piece ly idx ?psz"
  have idx: "idx < ly_num_pieces ly" using Cons.prems item by simp
  have len: "0 + length (expand ?sl) = length (replicate ?psz (0 :: u8))"
    using expand_piece [OF assms(1)] length_cells_of(1) [OF assms(1) idx] by simp
  note rs = proper_piece [OF assms(1)] assms(2) len
  obtain r where r: "read_slices files ?sl (replicate ?psz 0) 0 d = (r, d)"
    "(\<exists>bs. r = Inr bs) \<longleftrightarrow> (\<forall>c \<in> set (cells_of ly idx). readable files d c)"
    using read_slices_free [OF rs assms(3)] expand_piece [OF assms(1)] by metis
  have bs: "bs = map (cell_byte ly d) (cells_of ly idx)" if "r = Inr bs" for bs
    using read_slices_cells [OF rs r(1)] that expand_piece [OF assms(1)] by simp
  have "(\<exists>bs. r = Inr bs) \<longleftrightarrow> (\<forall>c \<in> set (cells_of ly idx). snd c < length (content d (sp_path (ly_files ly ! fst c))))"
    using r(2) assms(4) cells_of_subset [of ly idx] by blast
  then have good: "resumable sha1 ly d idx h \<longleftrightarrow> (\<exists>bs. r = Inr bs \<and> verify_piece sha1 bs h)"
    using bs by (auto simp: resumable_def verify_piece_def)
  let ?q2 = "case res_ok r of Some buf \<Rightarrow> q1 @ [(idx, verify_piece sha1 buf h)] | None \<Rightarrow> q1"
  have "scan_loop sha1 ly files (item # items) q out d = scan_loop sha1 ly files items ?q2 out1 d"
    using d1 r(1) scan_read_eq [OF rs, of d] by (simp add: item)
  moreover have "drain_all ?q2 out1 = drain_all q out @ map fst (filter (\<lambda>(idx, h). resumable sha1 ly d idx h) [item])"
    using good q1 by (cases r) (auto simp: drain_all_eq item)
  ultimately show ?case using Cons.IH [of ?q2 out1] Cons.prems by fastforce
qed simp

lemma scan_resume_eq:
  assumes "sound_layout ly" "dk_faults d = []"
  shows "scan_resume sha1 ly hashes d =
    (Inr (filter (\<lambda>i. resumable sha1 ly d i (hashes ! i)) [0..<min (ly_num_pieces ly) (length hashes)]), d)"
proof -
  let ?files = "map (\<lambda>f. if dk_files d (sp_path f) = None then None else Some (sp_path f)) (ly_files ly)"
  let ?n = "min (ly_num_pieces ly) (length hashes)"
  let ?items = "take (ly_num_pieces ly) (zip [0..<length hashes] hashes)"
  have items: "?items = map (\<lambda>i. (i, hashes ! i)) [0..<?n]"
    by (rule nth_equalityI) auto
  have hs: "handles ly ?files" by (auto simp: handles_def)
  have rd: "readable ?files d c \<longleftrightarrow> snd c < length (content d (sp_path (ly_files ly ! fst c)))" if "c \<in> set (cells ly)" for c
    using that cells_form [of "fst c" "snd c" ly] by (auto simp: readable_def content_def split: option.splits)
  have "list_all (\<lambda>(idx, h). idx < ly_num_pieces ly) ?items" by (simp add: items list_all_iff)
  from scan_loop_eq [OF assms(1) hs assms(2) rd this, of sha1 "[]" "[]"] obtain q out where
    loop: "scan_loop sha1 ly ?files ?items [] [] d = (q, out, d)"
    and dr: "drain_all q out = map fst (filter (\<lambda>(idx, h). resumable sha1 ly d idx h) ?items)" by auto
  have "map fst (filter (\<lambda>(idx, h). resumable sha1 ly d idx h) ?items) =
      filter (\<lambda>i. resumable sha1 ly d i (hashes ! i)) [0..<?n]"
    by (simp add: items filter_map comp_def)
  moreover have "sort (filter (\<lambda>i. resumable sha1 ly d i (hashes ! i)) [0..<?n]) =
      filter (\<lambda>i. resumable sha1 ly d i (hashes ! i)) [0..<?n]"
    by (intro sorted_sort_id sorted_wrt_filter) simp
  ultimately show ?thesis
    using loop dr by (simp add: scan_resume_def io_bind_def open_scan_free [OF assms(2)])
qed

section \<open>Properties\<close>

text \<open>What allocation makes of the files: existing bytes are kept, missing ones are zero.\<close>

definition initial_stream :: "layout \<Rightarrow> disk \<Rightarrow> bytes" where
  "initial_stream ly d =
     map (\<lambda>(i, k). let c = content d (sp_path (ly_files ly ! i)) in if k < length c then c ! k else 0) (cells ly)"

lemma initial_stream_opened:
  assumes "opened ly files d'" "None \<notin> set files" "grown d d'"
  shows "stream_of ly d' = initial_stream ly d"
proof -
  have "cell_byte ly d' (i, k) = (let c = content d (sp_path (ly_files ly ! i)) in if k < length c then c ! k else 0)"
    if "(i, k) \<in> set (cells ly)" for i k
  proof -
    obtain z where z: "content d' (sp_path (ly_files ly ! i)) = content d (sp_path (ly_files ly ! i)) @ replicate z 0"
      using assms(3) by (auto simp: grown_def)
    have "readable files d' (i, k)" by (rule opened_readable [OF assms(1,2) that])
    moreover have "files ! i \<noteq> None" using that assms(1,2) by (metis cells_form nth_mem opened_def)
    ultimately have "k < length (content d' (sp_path (ly_files ly ! i)))"
      using that assms(1) by (auto simp: readable_def opened_def cells_form)
    then show ?thesis using z by (auto simp: cell_byte_def Let_def nth_append)
  qed
  then show ?thesis by (auto simp: stream_of_def initial_stream_def)
qed

definition sample_disk :: disk where
  "sample_disk = \<lparr>dk_files = Map.empty, dk_faults = []\<rparr>"

lemma sample_sound: "sound_layout sample_layout"
  using sample_layout_ok by (simp add: sound_layout_def sample_layout_def)

lemma run_storage_free:
  assumes "sound_layout ly" "dk_faults d = []"
  shows "\<exists>d'. run_storage ly None cmds d = (fst (flat_loop ly cmds (initial_stream ly d)), d') \<and>
    stream_of ly d' = snd (flat_loop ly cmds (initial_stream ly d)) \<and> dk_faults d' = []"
proof -
  let ?files = "map (\<lambda>f. Some (sp_path f)) (ly_files ly)"
  obtain d1 where d1: "open_files None 0 (ly_files ly) d = (Inr ?files, d1)" "dk_faults d1 = []"
    using open_files_free [OF assms(2)] by blast
  have op: "opened ly ?files d1" "grown d d1" using open_files_opened [OF d1(1)] by auto
  have none: "None \<notin> set ?files" by auto
  have "stream_of ly d1 = initial_stream ly d" by (rule initial_stream_opened [OF op(1) none op(2)])
  then show ?thesis
    using storage_loop_flat [OF assms(1) op(1) none d1(2), of cmds] d1(1) by (simp add: run_storage_def)
qed

text \<open>
  C14: refinement: without I/O errors, the storage task over the real files answers every sequence of
  commands exactly as one flat byte string of the whole torrent does, and leaves the files holding that
  byte string. This needs the file paths of the torrent to be distinct.
\<close>

theorem storage_refines_flat:
  assumes "sound_layout ly" "dk_faults d = []"
  shows "\<exists>d'. run_storage ly None cmds d = (fst (flat_loop ly cmds (initial_stream ly d)), d') \<and>
    stream_of ly d' = snd (flat_loop ly cmds (initial_stream ly d))"
  using run_storage_free [OF assms] by blast

theorem storage_refines_flat_witness:
  "\<exists>d'. run_storage sample_layout None [Write 0 [1, 2, 3, 4], Read 0 2 2] sample_disk =
     (fst (flat_loop sample_layout [Write 0 [1, 2, 3, 4], Read 0 2 2] (initial_stream sample_layout sample_disk)), d')"
  using storage_refines_flat [OF sample_sound, of sample_disk "[Write 0 [1, 2, 3, 4], Read 0 2 2]"]
  by (auto simp: sample_disk_def)





text \<open>
  Without the hypothesis that paths are distinct the refinement fails: two entries with one path share the
  file, so the second piece written overwrites the first. The decoder accepts such torrents.
\<close>

definition aliased_layout :: layout where
  "aliased_layout =
     \<lparr>ly_root = [47],
      ly_files = [\<lparr>sp_path = [47, 97], sp_start = 0, sp_length = 1\<rparr>, \<lparr>sp_path = [47, 97], sp_start = 1, sp_length = 1\<rparr>],
      ly_piece_length = 1, ly_total_length = 2, ly_num_pieces = 2\<rparr>"

lemma aliased_paths_corrupt:
  "fst (run_storage aliased_layout None [Write 0 [7], Write 1 [9], Read 0 0 1] sample_disk) =
     [Written 0, Written 1, Reply (Inr [9])]"
  by code_simp

end
