(* ===== verification/RT_Memspool.thy ===== *)
theory RT_Memspool
  imports RT_Disk
begin

text \<open>
  The in-memory storage back end, \<open>src/src/storage/memspool.rs\<close>, and its agreement with the plain-disk one. A panic
  ends the task without an event.
\<close>

section \<open>The spool\<close>

record memspool =
  ms_pieces :: "bytes option list"
  ms_piece_length :: nat
  ms_num_pieces :: nat
  ms_total_length :: nat

definition memspool_new :: "nat \<Rightarrow> nat \<Rightarrow> nat \<Rightarrow> memspool" where
  "memspool_new piece_len np total_len =
     \<lparr>ms_pieces = replicate np None, ms_piece_length = piece_len, ms_num_pieces = np, ms_total_length = total_len\<rparr>"

definition ms_piece_size :: "memspool \<Rightarrow> nat \<Rightarrow> nat res" where
  "ms_piece_size sp index =
     (if index + 1 = ms_num_pieces sp then
        if ms_piece_length sp = 0 then Inl (Panic ''attempt to calculate the remainder with a divisor of zero'')
        else let r = ms_total_length sp mod ms_piece_length sp in Inr (if r = 0 then ms_piece_length sp else r)
      else Inr (ms_piece_length sp))"

definition ms_write_piece :: "memspool \<Rightarrow> nat \<Rightarrow> bytes \<Rightarrow> memspool res" where
  "ms_write_piece sp index data =
     rbind (ms_piece_size sp index) (\<lambda>actual.
     if length data \<noteq> actual then Inl (Io ''memspool write piece '')
     else if index < length (ms_pieces sp) then Inr (sp\<lparr>ms_pieces := (ms_pieces sp)[index := Some data]\<rparr>)
     else Inl (Io ''memspool index ''))"

definition ms_read_range :: "memspool \<Rightarrow> nat \<Rightarrow> nat \<Rightarrow> nat \<Rightarrow> bytes res" where
  "ms_read_range sp index start len =
     rbind (ms_piece_size sp index) (\<lambda>actual.
     let fin = start + len in
     if fin > actual then Inl (Io ''memspool read past piece end: '')
     else if index < length (ms_pieces sp) then
       (case ms_pieces sp ! index of
          None \<Rightarrow> Inl (Io ''memspool piece '')
        | Some buf \<Rightarrow>
            if fin > length buf then Inl (Panic ''range end index out of range'')
            else Inr (take len (drop start buf)))
     else Inl (Io ''memspool index ''))"

section \<open>The storage task\<close>

fun memspool_loop :: "storage_command list \<Rightarrow> memspool \<Rightarrow> storage_event list" where
  "memspool_loop [] sp = []"
| "memspool_loop (Shutdown # cmds) sp = []"
| "memspool_loop (Write index data # cmds) sp =
     (case ms_write_piece sp index data of
        Inl (Panic _) \<Rightarrow> []
      | Inl e \<Rightarrow> StorageError (Some index) e # memspool_loop cmds sp
      | Inr sp' \<Rightarrow> Written index # memspool_loop cmds sp')"
| "memspool_loop (Read index start len # cmds) sp =
     (case ms_read_range sp index start len of
        Inl (Panic _) \<Rightarrow> []
      | r \<Rightarrow> Reply r # memspool_loop cmds sp)"

text \<open>The number of pieces is cast to \<open>u32\<close>.\<close>

definition run_memspool_storage :: "layout \<Rightarrow> storage_command list \<Rightarrow> storage_event list" where
  "run_memspool_storage ly cmds =
     memspool_loop cmds (memspool_new (ly_piece_length ly) (ly_num_pieces ly mod 2 ^ 32) (ly_total_length ly))"

definition scan_memspool_resume :: "layout \<Rightarrow> nat list res" where
  "scan_memspool_resume ly = Inr []"

section \<open>Agreement with the disk\<close>

text \<open>What a client sees of an event, apart from the text of errors.\<close>

fun outcome :: "storage_event \<Rightarrow> storage_event" where
  "outcome (StorageError i e) = StorageError i (Io [])"
| "outcome (Reply (Inl e)) = Reply (Inl (Io []))"
| "outcome ev = ev"

text \<open>
  Writes are to pieces of the torrent, and reads are of pieces that were written before (the pieces in \<open>W\<close>) or out of the
  range of their piece.
\<close>

fun reads_written :: "layout \<Rightarrow> nat set \<Rightarrow> storage_command list \<Rightarrow> bool" where
  "reads_written ly W [] \<longleftrightarrow> True"
| "reads_written ly W (Shutdown # cmds) \<longleftrightarrow> True"
| "reads_written ly W (Write i data # cmds) \<longleftrightarrow>
     i < ly_num_pieces ly \<and> reads_written ly (if length data = ly_piece_size ly i then insert i W else W) cmds"
| "reads_written ly W (Read i start len # cmds) \<longleftrightarrow>
     (i \<in> W \<or> ly_piece_size ly i < start + len) \<and> reads_written ly W cmds"

definition piece_of :: "layout \<Rightarrow> nat \<Rightarrow> bytes \<Rightarrow> bytes" where
  "piece_of ly i st = take (ly_piece_size ly i) (drop (i * ly_piece_length ly) st)"

text \<open>The spool holds the pieces in \<open>W\<close> as the flat byte string does.\<close>

definition spool_matches :: "layout \<Rightarrow> nat set \<Rightarrow> memspool \<Rightarrow> bytes \<Rightarrow> bool" where
  "spool_matches ly W sp st \<longleftrightarrow>
     ms_piece_length sp = ly_piece_length ly \<and> ms_num_pieces sp = ly_num_pieces ly \<and> ms_total_length sp = ly_total_length ly \<and>
     length (ms_pieces sp) = ly_num_pieces ly \<and> length st = ly_total_length ly \<and>
     (\<forall>i \<in> W. i < ly_num_pieces ly \<and> ms_pieces sp ! i = Some (piece_of ly i st))"

lemma ms_piece_size_matches:
  "spool_matches ly W sp st \<Longrightarrow> layout_ok ly \<Longrightarrow> ms_piece_size sp i = Inr (ly_piece_size ly i)"
  by (simp add: spool_matches_def ms_piece_size_def ly_piece_size_def layout_ok_def Let_def)

lemma stream_piece_bounds:
  assumes "layout_ok ly" "i < ly_num_pieces ly"
  shows "i * ly_piece_length ly + ly_piece_size ly i \<le> ly_total_length ly" "ly_piece_size ly i \<le> ly_piece_length ly"
  using ly_piece_size_min [OF assms] piece_in_stream [OF assms(1), of i] assms(2) by auto

lemma piece_of_flat_write:
  assumes "layout_ok ly" "i < ly_num_pieces ly" "j < ly_num_pieces ly" "length data = ly_piece_size ly j" "length st = ly_total_length ly"
  shows "piece_of ly i (flat_write ly j data st) = (if i = j then data else piece_of ly i st)"
proof -
  let ?p = "ly_piece_length ly"
  note bi = stream_piece_bounds [OF assms(1,2)] and bj = stream_piece_bounds [OF assms(1,3)]
  consider "i = j" | "i < j" | "j < i" by linarith
  then show ?thesis
  proof cases
    case 1
    then show ?thesis using assms bj by (simp add: piece_of_def flat_write_def)
  next
    case 2
    then have "i * ?p + ?p \<le> j * ?p" by (metis Suc_leI add.commute mult_Suc mult_le_mono1)
    then have le: "i * ?p + ly_piece_size ly i \<le> j * ?p" "i * ?p \<le> j * ?p" using bi by linarith+
    then have "j * ?p \<le> length st" using bj assms(5) by linarith
    then show ?thesis using assms(3) le 2 by (simp add: piece_of_def flat_write_def drop_take min_absorb1 min_absorb2)
  next
    case 3
    then have "j * ?p + ?p \<le> i * ?p" by (metis Suc_leI add.commute mult_Suc mult_le_mono1)
    then have "j * ?p + length data \<le> i * ?p" using bj assms(4) by linarith
    then show ?thesis using assms bj 3 by (simp add: piece_of_def flat_write_def)
  qed
qed

lemma spool_write:
  assumes "spool_matches ly W sp st" "layout_ok ly" "i < ly_num_pieces ly" "length data = ly_piece_size ly i"
  shows "spool_matches ly (insert i W) (sp\<lparr>ms_pieces := (ms_pieces sp)[i := Some data]\<rparr>) (flat_write ly i data st)"
proof -
  have "length (flat_write ly i data st) = ly_total_length ly"
    using assms stream_piece_bounds [OF assms(2,3)] by (simp add: spool_matches_def flat_write_def)
  then show ?thesis using assms piece_of_flat_write [OF assms(2) _ assms(3,4)] by (auto simp: spool_matches_def nth_list_update)
qed

lemma spool_read:
  assumes "spool_matches ly W sp st" "layout_ok ly" "i \<in> W" "start + len \<le> ly_piece_size ly i"
  shows "ms_read_range sp i start len = Inr (flat_read ly i start len st)"
proof -
  have i: "i < ly_num_pieces ly" "ms_pieces sp ! i = Some (piece_of ly i st)" "i < length (ms_pieces sp)" "length st = ly_total_length ly"
    using assms(1,3) by (auto simp: spool_matches_def)
  have "length (piece_of ly i st) = ly_piece_size ly i" using stream_piece_bounds [OF assms(2) i(1)] i(4) by (simp add: piece_of_def)
  moreover have "take len (drop start (piece_of ly i st)) = flat_read ly i start len st"
    using assms(4) i(1) by (simp add: piece_of_def flat_read_def drop_take min_absorb1 add.commute)
  ultimately show ?thesis using i assms(4) by (simp add: ms_read_range_def ms_piece_size_matches [OF assms(1,2)] Let_def)
qed

lemma memspool_loop_flat:
  assumes "layout_ok ly"
  shows "spool_matches ly W sp st \<Longrightarrow> reads_written ly W cmds \<Longrightarrow>
     map outcome (memspool_loop cmds sp) = map outcome (fst (flat_loop ly cmds st))"
proof (induction cmds arbitrary: W sp st)
  case (Cons c cmds)
  note sz = ms_piece_size_matches [OF Cons.prems(1) assms]
  show ?case
  proof (cases c)
    case (Write i data)
    then have i: "i < ly_num_pieces ly" "i < length (ms_pieces sp)" using Cons.prems by (auto simp: spool_matches_def)
    show ?thesis
    proof (cases "length data = ly_piece_size ly i")
      case True
      then show ?thesis
        using Write i Cons.IH [OF spool_write [OF Cons.prems(1) assms i(1) True]] Cons.prems(2)
        by (simp add: ms_write_piece_def sz)
    next
      case False
      then show ?thesis using Write Cons.IH [OF Cons.prems(1)] Cons.prems(2) by (simp add: ms_write_piece_def sz)
    qed
  next
    case (Read i start len)
    show ?thesis
    proof (cases "start + len \<le> ly_piece_size ly i")
      case True
      then show ?thesis using Read Cons.IH [OF Cons.prems(1)] Cons.prems(2) spool_read [OF Cons.prems(1) assms _ True] by simp
    next
      case False
      then show ?thesis using Read Cons.IH [OF Cons.prems(1)] Cons.prems(2) by (simp add: ms_read_range_def sz Let_def)
    qed
  qed simp
qed simp



end
