(* ===== verification/RT_Utp_Packet.thy ===== *)
theory RT_Utp_Packet
  imports RT_Prelude
begin

text \<open>
  The uTP packet codec, \<open>src/src/peer/utp/packet.rs\<close>. A \<open>Payload\<close> is a window into a shared buffer that
  the code only uses through its bytes; it is modelled by those bytes.
\<close>

definition HEADER_LEN :: nat where "HEADER_LEN = 20"
definition UTP_VERSION :: u8 where "UTP_VERSION = 1"
definition EXT_NONE :: u8 where "EXT_NONE = 0"
definition EXT_SELECTIVE_ACK :: u8 where "EXT_SELECTIVE_ACK = 1"

datatype packet_type = Data | Fin | State | Reset | Syn

fun to_nibble :: "packet_type \<Rightarrow> u8" where
  "to_nibble Data = 0"
| "to_nibble Fin = 1"
| "to_nibble State = 2"
| "to_nibble Reset = 3"
| "to_nibble Syn = 4"

definition from_nibble :: "u8 \<Rightarrow> packet_type res" where
  "from_nibble v =
     (if v = 0 then Inr Data else if v = 1 then Inr Fin else if v = 2 then Inr State
      else if v = 3 then Inr Reset else if v = 4 then Inr Syn
      else Inl (Network ''utp: unknown packet type ''))"

record extension =
  ex_kind :: u8
  ex_data :: bytes

definition payload_slice :: "bytes \<Rightarrow> nat \<Rightarrow> nat \<Rightarrow> bytes" where
  "payload_slice buf start len = take len (drop start buf)"

record packet =
  pk_type :: packet_type
  pk_connection_id :: u16
  pk_timestamp :: u32
  pk_timestamp_diff :: u32
  pk_wnd_size :: u32
  pk_seq_nr :: u16
  pk_ack_nr :: u16
  pk_extensions :: "extension list"
  pk_payload :: bytes

definition packet_new :: "packet_type \<Rightarrow> u16 \<Rightarrow> u16 \<Rightarrow> u16 \<Rightarrow> packet" where
  "packet_new ty conn seq ack =
     \<lparr>pk_type = ty, pk_connection_id = conn, pk_timestamp = 0, pk_timestamp_diff = 0, pk_wnd_size = 0,
      pk_seq_nr = seq, pk_ack_nr = ack, pk_extensions = [], pk_payload = []\<rparr>"

definition first_kind :: "extension list \<Rightarrow> u8" where
  "first_kind es = (case es of [] \<Rightarrow> EXT_NONE | e # _ \<Rightarrow> ex_kind e)"

fun encode_extension_chain :: "extension list \<Rightarrow> bytes" where
  "encode_extension_chain [] = []"
| "encode_extension_chain (e # es) =
     first_kind es # of_nat (length (ex_data e)) # ex_data e @ encode_extension_chain es"

definition packet_encode :: "packet \<Rightarrow> bytes" where
  "packet_encode p =
     [push_bit 4 (to_nibble (pk_type p)) OR (UTP_VERSION AND 0x0F), first_kind (pk_extensions p)] @
     be16 (pk_connection_id p) @ be32 (pk_timestamp p) @ be32 (pk_timestamp_diff p) @ be32 (pk_wnd_size p) @
     be16 (pk_seq_nr p) @ be16 (pk_ack_nr p) @ encode_extension_chain (pk_extensions p) @ pk_payload p"

text \<open>The loop over the extension chain; it returns the entries and the cursor behind the chain.\<close>

function decode_extensions :: "bytes \<Rightarrow> nat \<Rightarrow> u8 \<Rightarrow> extension list \<Rightarrow> (extension list \<times> nat) res" where
  "decode_extensions buf cursor next_ext acc =
     (if next_ext = EXT_NONE then Inr (acc, cursor)
      else if cursor + 2 > length buf then Inl (Network ''utp: truncated extension chain header'')
      else
        let this_kind = next_ext; next_ext = buf ! cursor; len = unat (buf ! (cursor + 1)); cursor = cursor + 2 in
        if cursor + len > length buf then Inl (Network ''utp: extension body overflows packet: cursor='')
        else decode_extensions buf (cursor + len) next_ext
               (acc @ [\<lparr>ex_kind = this_kind, ex_data = take len (drop cursor buf)\<rparr>]))"
  by pat_completeness auto
termination
  by (relation "measure (\<lambda>(buf, cursor, _). Suc (length buf) - cursor)") auto

declare decode_extensions.simps [simp del]

definition packet_decode :: "bytes \<Rightarrow> packet res" where
  "packet_decode buf =
     (if length buf < HEADER_LEN then Inl (Network ''utp: packet too short: '')
      else
        let type_ver = buf ! 0 in
        rbind (from_nibble (drop_bit 4 type_ver)) (\<lambda>ty.
        let version = type_ver AND 0x0F in
        if version \<noteq> UTP_VERSION then Inl (Network ''utp: unsupported version '')
        else
          rbind (decode_extensions buf HEADER_LEN (buf ! 1) []) (\<lambda>(exts, cursor).
          Inr \<lparr>pk_type = ty, pk_connection_id = be16_at buf 2, pk_timestamp = be32_at buf 4,
               pk_timestamp_diff = be32_at buf 8, pk_wnd_size = be32_at buf 12, pk_seq_nr = be16_at buf 16,
               pk_ack_nr = be16_at buf 18, pk_extensions = exts, pk_payload = drop cursor buf\<rparr>)))"

section \<open>The codec\<close>

text \<open>What an extension chain can carry: no entry of kind 0 and no body above 255 bytes.\<close>

definition wf_packet :: "packet \<Rightarrow> bool" where
  "wf_packet p \<longleftrightarrow> list_all (\<lambda>e. ex_kind e \<noteq> EXT_NONE \<and> length (ex_data e) \<le> 255) (pk_extensions p)"

lemma nibble_byte: "from_nibble (drop_bit 4 b) = Inr ty \<and> b AND 0x0F = UTP_VERSION \<longleftrightarrow>
    b = push_bit 4 (to_nibble ty) OR (UTP_VERSION AND 0x0F)"
proof
  assume *: "from_nibble (drop_bit 4 b) = Inr ty \<and> b AND 0x0F = UTP_VERSION"
  then have "drop_bit 4 b = to_nibble ty" by (auto simp: from_nibble_def split: if_splits)
  moreover have "b = push_bit 4 (drop_bit 4 b) OR (b AND mask 4)"
    by (rule bit_word_eqI) (auto simp: bit_simps simp del: push_bit_numeral)
  moreover have "mask 4 = (0x0F :: u8)" by (simp add: mask_eq_exp_minus_1)
  ultimately show "b = push_bit 4 (to_nibble ty) OR (UTP_VERSION AND 0x0F)"
    using * by (simp add: UTP_VERSION_def)
next
  assume "b = push_bit 4 (to_nibble ty) OR (UTP_VERSION AND 0x0F)"
  then show "from_nibble (drop_bit 4 b) = Inr ty \<and> b AND 0x0F = UTP_VERSION"
    by (cases ty) (simp_all add: from_nibble_def UTP_VERSION_def)
qed

abbreviation wf_ext :: "extension \<Rightarrow> bool" where
  "wf_ext e \<equiv> ex_kind e \<noteq> EXT_NONE \<and> length (ex_data e) \<le> 255"

lemma decode_extensions_step:
  "next_ext \<noteq> EXT_NONE \<Longrightarrow> unat (buf ! (cursor + 1)) = n \<Longrightarrow> cursor + 2 + n \<le> length buf \<Longrightarrow>
     decode_extensions buf cursor next_ext acc =
       decode_extensions buf (cursor + 2 + n) (buf ! cursor)
         (acc @ [\<lparr>ex_kind = next_ext, ex_data = take n (drop (cursor + 2) buf)\<rparr>])"
  by (subst decode_extensions.simps) (simp add: Let_def)

lemma decode_extensions_encode:
  "list_all wf_ext es \<Longrightarrow>
     decode_extensions (pre @ encode_extension_chain es @ rest) (length pre) (first_kind es) acc =
       Inr (acc @ es, length pre + length (encode_extension_chain es))"
proof (induction es arbitrary: pre acc)
  case Nil
  then show ?case by (simp add: decode_extensions.simps first_kind_def)
next
  case (Cons e es)
  let ?n = "length (ex_data e)"
  let ?pre = "pre @ first_kind es # of_nat ?n # ex_data e"
  have n: "unat (of_nat ?n :: u8) = ?n" using Cons.prems by (simp add: unat_of_nat)
  have eq: "pre @ encode_extension_chain (e # es) @ rest = ?pre @ encode_extension_chain es @ rest" by simp
  let ?buf = "?pre @ encode_extension_chain es @ rest"
  have "?buf ! length pre = first_kind es" "unat (?buf ! (length pre + 1)) = ?n"
    "take ?n (drop (length pre + 2) ?buf) = ex_data e" "length pre + 2 + ?n = length ?pre"
    using n by (simp_all add: nth_append)
  then have "decode_extensions ?buf (length pre) (first_kind (e # es)) acc =
      decode_extensions ?buf (length ?pre) (first_kind es) (acc @ [e])"
    using decode_extensions_step [of "ex_kind e" ?buf "length pre" ?n acc] Cons.prems
    by (cases e) (simp add: first_kind_def [of "_ # es"] del: append_Cons append_assoc)
  also have "\<dots> = Inr (acc @ e # es, length ?pre + length (encode_extension_chain es))"
    using Cons.IH [of ?pre "acc @ [e]"] Cons.prems by simp
  finally show ?case unfolding eq by simp
qed

lemma decode_extensions_sound:
  "decode_extensions buf cursor next_ext acc = Inr (exts, c) \<Longrightarrow> cursor \<le> length buf \<Longrightarrow>
     \<exists>es. exts = acc @ es \<and> first_kind es = next_ext \<and> list_all wf_ext es \<and> cursor \<le> c \<and> c \<le> length buf \<and>
       drop cursor buf = encode_extension_chain es @ drop c buf"
proof (induction buf cursor next_ext acc rule: decode_extensions.induct)
  case (1 buf cursor next_ext acc)
  show ?case
  proof (cases "next_ext = EXT_NONE")
    case True
    then show ?thesis using 1(2,3) by (simp add: decode_extensions.simps first_kind_def)
  next
    case False
    let ?n = "unat (buf ! (cursor + 1))"
    let ?e = "\<lparr>ex_kind = next_ext, ex_data = take ?n (drop (cursor + 2) buf)\<rparr>"
    have len: "cursor + 2 + ?n \<le> length buf"
      and rec: "decode_extensions buf (cursor + 2 + ?n) (buf ! cursor) (acc @ [?e]) = Inr (exts, c)"
      using 1(2) False by (auto simp: decode_extensions.simps [of buf cursor] Let_def split: if_splits)
    from "1.IH" [OF False _ refl refl refl refl _ rec len] len obtain es where
      es: "exts = acc @ ?e # es" "first_kind es = buf ! cursor" "list_all wf_ext es" "cursor + 2 + ?n \<le> c" "c \<le> length buf"
        "drop (cursor + 2 + ?n) buf = encode_extension_chain es @ drop c buf" by auto
    have "drop cursor buf = buf ! cursor # drop (Suc cursor) buf" "drop (Suc cursor) buf = buf ! (cursor + 1) # drop (cursor + 2) buf"
      using len by (simp_all add: Cons_nth_drop_Suc)
    then have "drop cursor buf = buf ! cursor # buf ! (cursor + 1) # drop (cursor + 2) buf" by simp
    also have "drop (cursor + 2) buf = ex_data ?e @ encode_extension_chain es @ drop c buf"
      using es(6) append_take_drop_id [of ?n "drop (cursor + 2) buf"] by (simp add: add.commute)
    moreover have "of_nat (length (ex_data ?e)) = buf ! (cursor + 1)"
      using len by (simp add: min_absorb2)
    ultimately have "drop cursor buf = encode_extension_chain (?e # es) @ drop c buf" using es(2) by simp
    moreover have "unat (buf ! (cursor + 1)) < 2 ^ LENGTH(8)" by (rule unsigned_less)
    then have "wf_ext ?e" using False by auto
    ultimately show ?thesis
      using es(1,3-5) by (intro exI [of _ "?e # es"]) (auto simp: first_kind_def)
  qed
qed

lemma length_packet_encode:
  "length (packet_encode p) = HEADER_LEN + length (encode_extension_chain (pk_extensions p)) + length (pk_payload p)"
  by (simp add: packet_encode_def HEADER_LEN_def)

text \<open>The fixed header, as a function of its fields.\<close>

definition header :: "u8 \<Rightarrow> u8 \<Rightarrow> u16 \<Rightarrow> u32 \<Rightarrow> u32 \<Rightarrow> u32 \<Rightarrow> u16 \<Rightarrow> u16 \<Rightarrow> bytes" where
  "header a b conn ts td wnd seq ack = [a, b] @ be16 conn @ be32 ts @ be32 td @ be32 wnd @ be16 seq @ be16 ack"

lemma length_header [simp]: "length (header a b conn ts td wnd seq ack) = HEADER_LEN"
  by (simp add: header_def HEADER_LEN_def)

lemma header_fields:
  "(header a b conn ts td wnd seq ack @ r) ! 0 = a" "(header a b conn ts td wnd seq ack @ r) ! 1 = b"
  "be16_at (header a b conn ts td wnd seq ack @ r) 2 = conn" "be32_at (header a b conn ts td wnd seq ack @ r) 4 = ts"
  "be32_at (header a b conn ts td wnd seq ack @ r) 8 = td" "be32_at (header a b conn ts td wnd seq ack @ r) 12 = wnd"
  "be16_at (header a b conn ts td wnd seq ack @ r) 16 = seq" "be16_at (header a b conn ts td wnd seq ack @ r) 18 = ack"
  by (simp_all add: header_def be16_def be32_def be16_at_def be32_at_def)

lemma header_exists:
  assumes "HEADER_LEN \<le> length buf"
  shows "\<exists>a b conn ts td wnd seq ack. buf = header a b conn ts td wnd seq ack @ drop HEADER_LEN buf"
proof -
  have "buf = take 20 buf @ drop HEADER_LEN buf" by (simp add: HEADER_LEN_def)
  moreover obtain a0 a1 a2 a3 a4 a5 a6 a7 a8 a9 b0 b1 b2 b3 b4 b5 b6 b7 b8 b9 where
    "take 20 buf = [a0, a1, a2, a3, a4, a5, a6, a7, a8, a9, b0, b1, b2, b3, b4, b5, b6, b7, b8, b9]"
    using assms by (auto simp: HEADER_LEN_def numeral_eq_Suc Suc_le_length_iff)
  moreover have "[a0, a1, a2, a3, a4, a5, a6, a7, a8, a9, b0, b1, b2, b3, b4, b5, b6, b7, b8, b9] =
      header a0 a1 (of_be16 a2 a3) (of_be32 a4 a5 a6 a7) (of_be32 a8 a9 b0 b1) (of_be32 b2 b3 b4 b5)
        (of_be16 b6 b7) (of_be16 b8 b9)"
    by (simp add: header_def)
  ultimately show ?thesis by metis
qed

lemma packet_encode_header:
  "packet_encode p = header (push_bit 4 (to_nibble (pk_type p)) OR (UTP_VERSION AND 0x0F)) (first_kind (pk_extensions p))
     (pk_connection_id p) (pk_timestamp p) (pk_timestamp_diff p) (pk_wnd_size p) (pk_seq_nr p) (pk_ack_nr p) @
     encode_extension_chain (pk_extensions p) @ pk_payload p"
  by (simp add: packet_encode_def header_def)

lemma packet_decode_encode:
  assumes "wf_packet p"
  shows "packet_decode (packet_encode p) = Inr p"
proof -
  let ?a = "push_bit 4 (to_nibble (pk_type p)) OR (UTP_VERSION AND 0x0F)"
  let ?h = "header ?a (first_kind (pk_extensions p)) (pk_connection_id p) (pk_timestamp p) (pk_timestamp_diff p)
     (pk_wnd_size p) (pk_seq_nr p) (pk_ack_nr p)"
  let ?ch = "encode_extension_chain (pk_extensions p)"
  have "decode_extensions (?h @ ?ch @ pk_payload p) HEADER_LEN (first_kind (pk_extensions p)) [] =
      Inr (pk_extensions p, HEADER_LEN + length ?ch)"
    using decode_extensions_encode [of "pk_extensions p" ?h "pk_payload p" "[]"] assms by (simp add: wf_packet_def)
  moreover have "from_nibble (drop_bit 4 ?a) = Inr (pk_type p)" "?a AND 0x0F = UTP_VERSION"
    using nibble_byte [of ?a "pk_type p"] by blast+
  ultimately show ?thesis
    unfolding packet_encode_header packet_decode_def Let_def header_fields by simp
qed

lemma packet_decode_sound:
  assumes "packet_decode buf = Inr p"
  shows "wf_packet p \<and> packet_encode p = buf"
proof -
  have len: "HEADER_LEN \<le> length buf" using assms by (auto simp: packet_decode_def split: if_splits)
  then obtain a b conn ts td wnd seq ack where h: "buf = header a b conn ts td wnd seq ack @ drop HEADER_LEN buf"
    using header_exists by blast
  obtain ty exts c where ty: "from_nibble (drop_bit 4 (buf ! 0)) = Inr ty" "buf ! 0 AND 0x0F = UTP_VERSION"
    and ex: "decode_extensions buf HEADER_LEN (buf ! 1) [] = Inr (exts, c)"
    and p: "p = \<lparr>pk_type = ty, pk_connection_id = be16_at buf 2, pk_timestamp = be32_at buf 4,
      pk_timestamp_diff = be32_at buf 8, pk_wnd_size = be32_at buf 12, pk_seq_nr = be16_at buf 16,
      pk_ack_nr = be16_at buf 18, pk_extensions = exts, pk_payload = drop c buf\<rparr>"
    using assms len by (auto simp: packet_decode_def Let_def split: if_splits)
  from decode_extensions_sound [OF ex len] have es: "first_kind exts = buf ! 1" "list_all wf_ext exts"
    "drop HEADER_LEN buf = encode_extension_chain exts @ drop c buf" by auto
  have "buf ! 0 = push_bit 4 (to_nibble ty) OR (UTP_VERSION AND 0x0F)" using ty nibble_byte by blast
  moreover have "buf ! 0 = a" "buf ! 1 = b" "be16_at buf 2 = conn" "be32_at buf 4 = ts" "be32_at buf 8 = td"
    "be32_at buf 12 = wnd" "be16_at buf 16 = seq" "be16_at buf 18 = ack"
    by (subst h, rule header_fields)+
  ultimately show ?thesis
    using h es unfolding p packet_encode_header wf_packet_def by simp
qed

interpretation utp_codec: codec packet_encode packet_decode wf_packet
  by unfold_locales (rule packet_decode_encode)

section \<open>Properties\<close>

text \<open>
  C8: the uTP decoder accepts a datagram as packet \<open>p\<close> exactly when the datagram is the encoding of \<open>p\<close> and
  the extensions of \<open>p\<close> can be represented; it terminates on every input, however long the chain claims to be.
\<close>

theorem packet_decode_iff: "packet_decode buf = Inr p \<longleftrightarrow> wf_packet p \<and> buf = packet_encode p"
  using packet_decode_encode packet_decode_sound by blast

end
