(* ===== verification/RT_Utp_Connection.thy ===== *)
theory RT_Utp_Connection
  imports Complex_Main RT_Utp_Packet RT_Maps
begin

text \<open>
  The uTP connection state machine, \<open>src/src/peer/utp/connection.rs\<close>: sequencing, selective acks,
  retransmission, the LEDBAT window. Instants and durations are integers in milliseconds. The window is
  computed in \<open>f64\<close>: real arithmetic in which every operation is followed by a rounding function \<open>fl\<close>,
  a parameter. The initial sequence number of a receiver is random in the code and an argument here.
\<close>

definition INITIAL_RTO :: int where "INITIAL_RTO = 1000"
definition MAX_RTO :: int where "MAX_RTO = 15000"
definition HARD_TIMEOUT :: int where "HARD_TIMEOUT = 60000"
definition INITIAL_WINDOW_PACKETS :: nat where "INITIAL_WINDOW_PACKETS = 8"
definition MAX_DATA_PAYLOAD :: nat where "MAX_DATA_PAYLOAD = 1200"
definition RECV_WINDOW_BYTES :: nat where "RECV_WINDOW_BYTES = 1024 * 1024"
definition MAX_PENDING_IN :: nat where "MAX_PENDING_IN = RECV_WINDOW_BYTES div MAX_DATA_PAYLOAD + 1"

section \<open>LEDBAT\<close>

record ledbat =
  lb_cwnd_bytes :: real
  lb_fixed_floor :: "nat option"
  lb_base_history :: "nat list"
  lb_cur_slot_start :: "int option"
  lb_has_sample :: bool

definition LEDBAT_TARGET_MICROS :: real where "LEDBAT_TARGET_MICROS = 100000"
definition LEDBAT_MAX_CWND_INCREASE :: real where "LEDBAT_MAX_CWND_INCREASE = 1200"
definition LEDBAT_MIN_WINDOW :: real where "LEDBAT_MIN_WINDOW = 2400"
definition LEDBAT_MAX_WINDOW :: real where "LEDBAT_MAX_WINDOW = 1048576"
definition BASE_DELAY_SLOT :: int where "BASE_DELAY_SLOT = 60000"
definition BASE_DELAY_SLOTS :: nat where "BASE_DELAY_SLOTS = 13"

definition ledbat_new :: ledbat where
  "ledbat_new =
     \<lparr>lb_cwnd_bytes = of_nat (INITIAL_WINDOW_PACKETS * MAX_DATA_PAYLOAD), lb_fixed_floor = None,
      lb_base_history = [], lb_cur_slot_start = None, lb_has_sample = False\<rparr>"

fun push_slots :: "nat \<Rightarrow> nat \<Rightarrow> nat list \<Rightarrow> nat list" where
  "push_slots 0 sample h = h"
| "push_slots (Suc n) sample h =
     (let h = h @ [sample] in push_slots n sample (if length h > BASE_DELAY_SLOTS then tl h else h))"

definition update_base :: "ledbat \<Rightarrow> nat \<Rightarrow> int \<Rightarrow> nat \<times> ledbat" where
  "update_base lb sample now =
     (let flr = (case lb_fixed_floor lb of None \<Rightarrow> sample | Some f \<Rightarrow> min f sample);
          lb = lb\<lparr>lb_fixed_floor := Some flr\<rparr>;
          lb = (case lb_cur_slot_start lb of
              None \<Rightarrow> lb\<lparr>lb_base_history := lb_base_history lb @ [sample], lb_cur_slot_start := Some now\<rparr>
            | Some start \<Rightarrow>
                if duration_since now start \<ge> BASE_DELAY_SLOT then
                  let slots_passed = nat (max (duration_since now start div BASE_DELAY_SLOT) 1)
                  in lb\<lparr>lb_base_history := push_slots slots_passed sample (lb_base_history lb),
                        lb_cur_slot_start := Some (start + BASE_DELAY_SLOT * int slots_passed)\<rparr>
                else if lb_base_history lb \<noteq> [] then
                  lb\<lparr>lb_base_history := butlast (lb_base_history lb) @ [min (last (lb_base_history lb)) sample]\<rparr>
                else lb\<lparr>lb_base_history := lb_base_history lb @ [sample]\<rparr>);
          hist_min = (if lb_base_history lb = [] then flr else foldl min (hd (lb_base_history lb)) (tl (lb_base_history lb)))
      in (max hist_min flr, lb))"

definition clamp :: "real \<Rightarrow> real \<Rightarrow> real \<Rightarrow> real" where
  "clamp x lo hi = (if x < lo then lo else if x > hi then hi else x)"

definition on_ack :: "(real \<Rightarrow> real) \<Rightarrow> ledbat \<Rightarrow> nat \<Rightarrow> nat \<Rightarrow> nat \<Rightarrow> int \<Rightarrow> ledbat" where
  "on_ack fl lb sample bytes_acked peer_wnd now =
     (if sample = 0 \<or> bytes_acked = 0 then lb
      else
        let lb = lb\<lparr>lb_has_sample := True\<rparr>;
            (base, lb) = update_base lb sample now;
            queuing = of_nat (sample - base);
            off_target = fl (fl (LEDBAT_TARGET_MICROS - queuing) / LEDBAT_TARGET_MICROS);
            window_factor = fl (fl (of_nat bytes_acked) / lb_cwnd_bytes lb);
            gain = fl (fl (LEDBAT_MAX_CWND_INCREASE * off_target) * window_factor);
            cwnd = clamp (fl (lb_cwnd_bytes lb + gain)) LEDBAT_MIN_WINDOW LEDBAT_MAX_WINDOW;
            cwnd = (if peer_wnd > 0 then max (min cwnd (of_nat peer_wnd)) LEDBAT_MIN_WINDOW else cwnd)
        in lb\<lparr>lb_cwnd_bytes := cwnd\<rparr>)"

definition window_packets :: "(real \<Rightarrow> real) \<Rightarrow> ledbat \<Rightarrow> nat option" where
  "window_packets fl lb =
     (if \<not> lb_has_sample lb then None
      else Some (max (nat \<lfloor>fl (lb_cwnd_bytes lb / of_nat MAX_DATA_PAYLOAD)\<rfloor>) 2))"

section \<open>Connection state\<close>

datatype conn_state = SynSent | SynReceived | Connected | FinSent | Closed | ResetState

record in_flight =
  if_seq_nr :: u16
  if_send_time :: int
  if_rto :: int
  if_packet :: packet

record connection =
  cn_state :: conn_state
  cn_send_id :: u16
  cn_recv_id :: u16
  cn_next_seq_nr :: u16
  cn_peer_seq_nr_acked :: u16
  cn_out_blocks :: "bytes list"
  cn_out_head :: nat
  cn_out_len :: nat
  cn_in_buf :: bytes
  cn_peer_logical_acked :: nat
  cn_pending_in :: "(nat, bytes) btree"
  cn_in_flight :: "in_flight list"
  cn_accept_token :: "u16 option"
  cn_return_path_confirmed :: bool
  cn_deadline :: int
  cn_fast_rtx_seq :: "u16 option"
  cn_last_fast_rtx_seq :: "u16 option"
  cn_cc :: ledbat

text \<open>\<open>seq_le\<close>: \<open>(0..=32768).contains(&(b.wrapping_sub(a) as i32))\<close>.\<close>

definition seq_le :: "u16 \<Rightarrow> u16 \<Rightarrow> bool" where
  "seq_le a b \<longleftrightarrow> unat (b - a) \<le> 32768"

definition recv_window :: "connection \<Rightarrow> u32" where
  "recv_window c = of_nat (RECV_WINDOW_BYTES - length (cn_in_buf c) mod 2 ^ 32)"

definition new_initiator :: "u16 \<Rightarrow> int \<Rightarrow> connection \<times> packet" where
  "new_initiator recv_id now =
     (let conn = \<lparr>cn_state = SynSent, cn_send_id = recv_id + 1, cn_recv_id = recv_id, cn_next_seq_nr = 1,
            cn_peer_seq_nr_acked = 0, cn_out_blocks = [], cn_out_head = 0, cn_out_len = 0, cn_in_buf = [],
            cn_peer_logical_acked = 0, cn_pending_in = [], cn_in_flight = [], cn_accept_token = None,
            cn_return_path_confirmed = True, cn_deadline = now + HARD_TIMEOUT, cn_fast_rtx_seq = None,
            cn_last_fast_rtx_seq = None, cn_cc = ledbat_new\<rparr>;
          syn = packet_new Syn (cn_recv_id conn) (cn_next_seq_nr conn) 0
      in (conn\<lparr>cn_next_seq_nr := cn_next_seq_nr conn + 1,
               cn_in_flight := cn_in_flight conn @
                 [\<lparr>if_seq_nr = 1, if_send_time = now, if_rto = INITIAL_RTO, if_packet = syn\<rparr>]\<rparr>, syn))"

definition new_receiver_with_seq :: "packet \<Rightarrow> int \<Rightarrow> u16 \<Rightarrow> (connection \<times> packet) option" where
  "new_receiver_with_seq syn now init_seq =
     (if pk_type syn \<noteq> Syn then None
      else
        let conn = \<lparr>cn_state = SynReceived, cn_send_id = pk_connection_id syn,
              cn_recv_id = pk_connection_id syn + 1, cn_next_seq_nr = init_seq,
              cn_peer_seq_nr_acked = pk_seq_nr syn, cn_out_blocks = [], cn_out_head = 0, cn_out_len = 0,
              cn_in_buf = [], cn_peer_logical_acked = 0, cn_pending_in = [], cn_in_flight = [],
              cn_accept_token = Some init_seq, cn_return_path_confirmed = False,
              cn_deadline = now + HARD_TIMEOUT, cn_fast_rtx_seq = None, cn_last_fast_rtx_seq = None,
              cn_cc = ledbat_new\<rparr>;
            state = \<lparr>pk_type = State, pk_connection_id = cn_send_id conn, pk_timestamp = 0,
              pk_timestamp_diff = 0, pk_wnd_size = recv_window conn, pk_seq_nr = cn_next_seq_nr conn,
              pk_ack_nr = pk_seq_nr syn, pk_extensions = [], pk_payload = []\<rparr>
        in Some (conn\<lparr>cn_state := Connected\<rparr>, state))"

definition is_closed :: "connection \<Rightarrow> bool" where
  "is_closed c \<longleftrightarrow> cn_state c = Closed \<or> cn_state c = ResetState"

definition fin_complete :: "connection \<Rightarrow> bool" where
  "fin_complete c \<longleftrightarrow> cn_state c = FinSent \<and> cn_in_flight c = []"

section \<open>Application side\<close>

definition enqueue_send_block :: "connection \<Rightarrow> bytes \<Rightarrow> bool \<times> connection" where
  "enqueue_send_block c block =
     (if cn_state c \<in> {FinSent, Closed, ResetState} then (False, c)
      else if block = [] then (False, c)
      else (True, c\<lparr>cn_out_len := cn_out_len c + length block, cn_out_blocks := cn_out_blocks c @ [block]\<rparr>))"

definition enqueue_send :: "connection \<Rightarrow> bytes \<Rightarrow> connection" where
  "enqueue_send c bs = (if bs = [] then c else snd (enqueue_send_block c bs))"

definition outstanding_send_bytes :: "connection \<Rightarrow> nat" where
  "outstanding_send_bytes c =
     cn_out_len c + sum_list (map (\<lambda>e. length (pk_payload (if_packet e))) (cn_in_flight c))"

definition undelivered_receive_bytes :: "connection \<Rightarrow> nat" where
  "undelivered_receive_bytes c =
     length (cn_in_buf c) + sum_list (map (\<lambda>(_, p). length p) (cn_pending_in c))"

definition take_received :: "connection \<Rightarrow> nat \<Rightarrow> bytes \<times> connection" where
  "take_received c mx =
     (let n = min (length (cn_in_buf c)) mx
      in (take n (cn_in_buf c), c\<lparr>cn_in_buf := drop n (cn_in_buf c)\<rparr>))"

definition close :: "connection \<Rightarrow> connection" where
  "close c =
     (if cn_state c \<in> {FinSent, Closed, ResetState, SynSent} then c else c\<lparr>cn_state := FinSent\<rparr>)"

section \<open>Selective acks\<close>

definition MAX_SACK_BYTES :: nat where "MAX_SACK_BYTES = 64"

definition sack_mark :: "nat \<Rightarrow> bytes \<Rightarrow> nat \<Rightarrow> bytes" where
  "sack_mark frontier m logical =
     (let dist = logical - frontier in
      if dist < 2 then m
      else
        let offset = dist - 2; byte = offset div 8 in
        if byte \<ge> MAX_SACK_BYTES then m
        else
          let m = (if byte \<ge> length m then
                let new_len = min ((byte div 4 + 1) * 4) MAX_SACK_BYTES
                in m @ replicate (new_len - length m) 0
              else m)
          in if byte \<ge> length m then m else m[byte := m ! byte OR push_bit (offset mod 8) 1])"

definition build_sack :: "connection \<Rightarrow> extension option" where
  "build_sack c =
     (if cn_pending_in c = [] then None
      else
        let m = foldl (sack_mark (cn_peer_logical_acked c)) [0, 0, 0, 0] (map fst (cn_pending_in c)) in
        if list_all (\<lambda>b. b = 0) m then None
        else Some \<lparr>ex_kind = EXT_SELECTIVE_ACK, ex_data = m\<rparr>)"

definition build_state_ack :: "connection \<Rightarrow> packet" where
  "build_state_ack c =
     \<lparr>pk_type = State, pk_connection_id = cn_send_id c, pk_timestamp = 0, pk_timestamp_diff = 0,
      pk_wnd_size = recv_window c, pk_seq_nr = cn_next_seq_nr c, pk_ack_nr = cn_peer_seq_nr_acked c,
      pk_extensions = (case build_sack c of None \<Rightarrow> [] | Some e \<Rightarrow> [e]), pk_payload = []\<rparr>"

definition sacked :: "u16 \<Rightarrow> bytes \<Rightarrow> in_flight \<Rightarrow> bool" where
  "sacked base m e =
     (let offset = unat (if_seq_nr e - base); byte = offset div 8
      in byte < length m \<and> drop_bit (offset mod 8) (m ! byte) AND 1 = 1)"

definition count_ones :: "u8 \<Rightarrow> nat" where
  "count_ones b = length (filter (bit b) [0..<8])"

definition process_sack :: "connection \<Rightarrow> u16 \<Rightarrow> bytes \<Rightarrow> nat \<times> connection" where
  "process_sack c ack_nr m =
     (let base = ack_nr + 2;
          pruned_bytes = sum_list (map (\<lambda>e. length (pk_payload (if_packet e))) (filter (sacked base m) (cn_in_flight c)));
          c = c\<lparr>cn_in_flight := filter (\<lambda>e. \<not> sacked base m e) (cn_in_flight c)\<rparr>;
          sacked_count = sum_list (map count_ones m);
          c = (if sacked_count \<ge> 3 then
                 case cn_in_flight c of
                   front # _ \<Rightarrow>
                     let gap = if_seq_nr front in
                     if cn_last_fast_rtx_seq c \<noteq> Some gap then
                       c\<lparr>cn_fast_rtx_seq := Some gap, cn_last_fast_rtx_seq := Some gap\<rparr>
                     else c
                 | [] \<Rightarrow> c
               else c)
      in (pruned_bytes, c))"

section \<open>Incoming packets\<close>

definition matches_incoming :: "connection \<Rightarrow> packet \<Rightarrow> bool" where
  "matches_incoming c p \<longleftrightarrow>
     pk_connection_id p = cn_recv_id c \<or> (pk_type p = Syn \<and> pk_connection_id p = cn_send_id c)"

text \<open>The loop that frees the packets the cumulative ack covers: freed payload bytes and what is left.\<close>

fun free_acked :: "u16 \<Rightarrow> in_flight list \<Rightarrow> nat \<times> in_flight list" where
  "free_acked acked [] = (0, [])"
| "free_acked acked (e # es) =
     (if seq_le (if_seq_nr e) acked then
        let (n, rest) = free_acked acked es in (length (pk_payload (if_packet e)) + n, rest)
      else (0, e # es))"

definition confirm_return_path :: "connection \<Rightarrow> packet \<Rightarrow> connection" where
  "confirm_return_path c p =
     (if \<not> cn_return_path_confirmed c \<and> pk_type p \<noteq> Syn then
        case cn_accept_token c of
          None \<Rightarrow> c
        | Some token \<Rightarrow>
            let lo = token - 1; hi = cn_next_seq_nr c - 1 in
            if seq_le lo (pk_ack_nr p) \<and> seq_le (pk_ack_nr p) hi then c\<lparr>cn_return_path_confirmed := True\<rparr>
            else c
      else c)"

definition process_acks :: "(real \<Rightarrow> real) \<Rightarrow> connection \<Rightarrow> packet \<Rightarrow> int \<Rightarrow> connection" where
  "process_acks fl c p now =
     (let acked_through = pk_ack_nr p;
          (bytes_acked, rest) = free_acked acked_through (cn_in_flight c);
          c = c\<lparr>cn_in_flight := rest\<rparr>;
          c = confirm_return_path c p;
          (bytes_acked, c) =
            (case find (\<lambda>e. ex_kind e = EXT_SELECTIVE_ACK) (pk_extensions p) of
               Some sack \<Rightarrow> (let (n, c) = process_sack c acked_through (ex_data sack) in (bytes_acked + n, c))
             | None \<Rightarrow> (bytes_acked, c))
      in if bytes_acked > 0 then
           c\<lparr>cn_cc := on_ack fl (cn_cc c) (unat (pk_timestamp_diff p)) bytes_acked (unat (pk_wnd_size p)) now\<rparr>
         else c)"

text \<open>The loop that delivers stashed packets behind the frontier; every round removes an entry.\<close>

function drain_pending_in :: "connection \<Rightarrow> connection" where
  "drain_pending_in c =
     (if length (cn_in_buf c) < RECV_WINDOW_BYTES then
        case btree_get (cn_pending_in c) (cn_peer_logical_acked c + 1) of
          None \<Rightarrow> c
        | Some buf \<Rightarrow>
            drain_pending_in
              (c\<lparr>cn_pending_in := btree_remove (cn_peer_logical_acked c + 1) (cn_pending_in c),
                 cn_in_buf := cn_in_buf c @ buf,
                 cn_peer_seq_nr_acked := cn_peer_seq_nr_acked c + 1,
                 cn_peer_logical_acked := cn_peer_logical_acked c + 1\<rparr>)
      else c)"
  by pat_completeness auto

lemma btree_remove_shorter: "btree_get m k = Some v \<Longrightarrow> length (btree_remove k m) < length m"
  unfolding btree_remove_def btree_get_def
  by (rule length_filter_less [where x = "(k, v)"]) (auto dest: map_of_SomeD)

termination drain_pending_in
  by (relation "measure (\<lambda>c. length (cn_pending_in c))") (simp_all add: btree_remove_shorter)

declare drain_pending_in.simps [simp del]

definition receive_data :: "connection \<Rightarrow> packet \<Rightarrow> connection" where
  "receive_data c p =
     (let payload_seq = pk_seq_nr p in
      if seq_le payload_seq (cn_peer_seq_nr_acked c) then c
      else
        let dist = payload_seq - cn_peer_seq_nr_acked c in
        if dist = 1 then
          if length (cn_in_buf c) \<ge> RECV_WINDOW_BYTES then c
          else drain_pending_in
                 (c\<lparr>cn_in_buf := cn_in_buf c @ pk_payload p, cn_peer_seq_nr_acked := payload_seq,
                    cn_peer_logical_acked := cn_peer_logical_acked c + 1\<rparr>)
        else
          let logical = cn_peer_logical_acked c + unat dist in
          if btree_get (cn_pending_in c) logical \<noteq> None \<or> length (cn_pending_in c) < MAX_PENDING_IN then
            c\<lparr>cn_pending_in := btree_insert logical (pk_payload p) (cn_pending_in c)\<rparr>
          else c)"

definition handle_incoming :: "(real \<Rightarrow> real) \<Rightarrow> connection \<Rightarrow> packet \<Rightarrow> int \<Rightarrow> packet option \<times> connection" where
  "handle_incoming fl c p now =
     (if \<not> matches_incoming c p then (None, c)
      else if pk_type p = Reset then (None, c\<lparr>cn_state := ResetState\<rparr>)
      else
        let c = process_acks fl c p now in
        (case pk_type p of
           Syn \<Rightarrow> (Some (build_state_ack c), c)
         | State \<Rightarrow>
             (None, if cn_state c = SynSent
                    then c\<lparr>cn_state := Connected, cn_peer_seq_nr_acked := pk_seq_nr p - 1\<rparr> else c)
         | Data \<Rightarrow> (let c = receive_data c p in (Some (build_state_ack c), c))
         | Fin \<Rightarrow>
             (let c = c\<lparr>cn_peer_seq_nr_acked := pk_seq_nr p\<rparr>; ack = build_state_ack c
              in (Some ack, if cn_out_len c = 0 \<and> cn_in_flight c = [] then c\<lparr>cn_state := Closed\<rparr> else c))
         | Reset \<Rightarrow> (None, c)))"

section \<open>Outgoing packets\<close>

definition out_packet :: "connection \<Rightarrow> packet_type \<Rightarrow> bytes \<Rightarrow> packet" where
  "out_packet c ty payload =
     \<lparr>pk_type = ty, pk_connection_id = cn_send_id c, pk_timestamp = 0, pk_timestamp_diff = 0,
      pk_wnd_size = recv_window c, pk_seq_nr = cn_next_seq_nr c, pk_ack_nr = cn_peer_seq_nr_acked c,
      pk_extensions = [], pk_payload = payload\<rparr>"

definition push_out :: "connection \<Rightarrow> packet \<Rightarrow> int \<Rightarrow> connection" where
  "push_out c p now =
     c\<lparr>cn_in_flight := cn_in_flight c @
          [\<lparr>if_seq_nr = cn_next_seq_nr c, if_send_time = now, if_rto = INITIAL_RTO, if_packet = p\<rparr>],
       cn_next_seq_nr := cn_next_seq_nr c + 1\<rparr>"

definition fast_retransmit :: "connection \<Rightarrow> int \<Rightarrow> packet list \<times> connection" where
  "fast_retransmit c now =
     (case cn_fast_rtx_seq c of
        None \<Rightarrow> ([], c)
      | Some seq \<Rightarrow>
          let c = c\<lparr>cn_fast_rtx_seq := None\<rparr> in
          case position (\<lambda>e. if_seq_nr e = seq) (cn_in_flight c) of
            None \<Rightarrow> ([], c)
          | Some i \<Rightarrow>
              let e = cn_in_flight c ! i;
                  e = e\<lparr>if_packet := (if_packet e)\<lparr>pk_ack_nr := cn_peer_seq_nr_acked c\<rparr>, if_send_time := now\<rparr>
              in ([if_packet e], c\<lparr>cn_in_flight := (cn_in_flight c)[i := e]\<rparr>))"

function packetize :: "nat \<Rightarrow> int \<Rightarrow> connection \<Rightarrow> packet list \<Rightarrow> packet list \<times> connection" where
  "packetize window now c out =
     (if cn_out_len c > 0 \<and> length (cn_in_flight c) < window then
        case cn_out_blocks c of
          [] \<Rightarrow> (out, c)
        | block # blocks \<Rightarrow>
            let n = min (length block - cn_out_head c) MAX_DATA_PAYLOAD;
                payload = payload_slice block (cn_out_head c) n;
                c = c\<lparr>cn_out_head := cn_out_head c + n, cn_out_len := cn_out_len c - n\<rparr>;
                c = (if cn_out_head c \<ge> length block then c\<lparr>cn_out_blocks := blocks, cn_out_head := 0\<rparr> else c);
                p = out_packet c Data payload
            in packetize window now (push_out c p now) (out @ [p])
      else (out, c))"
  by pat_completeness auto
termination packetize
  by (relation "measure (\<lambda>(window, now, c, out). window - length (cn_in_flight c))")
    (auto simp: push_out_def Let_def split: if_splits)

declare packetize.simps [simp del]

definition pending_send_packets :: "(real \<Rightarrow> real) \<Rightarrow> connection \<Rightarrow> int \<Rightarrow> packet list \<times> connection" where
  "pending_send_packets fl c now =
     (if is_closed c then ([], c)
      else if cn_state c = SynSent \<or> cn_state c = SynReceived then ([], c)
      else
        let (out, c) = fast_retransmit c now;
            window = (case window_packets fl (cn_cc c) of Some w \<Rightarrow> w | None \<Rightarrow> INITIAL_WINDOW_PACKETS);
            (out, c) = packetize window now c out
        in if cn_state c = FinSent \<and> cn_out_len c = 0 \<and> \<not> list_ex (\<lambda>e. pk_type (if_packet e) = Fin) (cn_in_flight c)
           then let p = out_packet c Fin [] in (out @ [p], push_out c p now)
           else (out, c))"

text \<open>The retransmission loop of \<open>tick\<close>.\<close>

fun resend_loop :: "u16 \<Rightarrow> int \<Rightarrow> in_flight list \<Rightarrow> packet list \<times> in_flight list" where
  "resend_loop ack now [] = ([], [])"
| "resend_loop ack now (e # es) =
     (let (out, rest) = resend_loop ack now es in
      if duration_since now (if_send_time e) \<ge> if_rto e then
        let e = e\<lparr>if_packet := (if_packet e)\<lparr>pk_ack_nr := ack\<rparr>, if_send_time := now, if_rto := min (if_rto e * 2) MAX_RTO\<rparr>
        in (if_packet e # out, e # rest)
      else (out, e # rest))"

definition utp_tick :: "connection \<Rightarrow> int \<Rightarrow> packet list \<times> connection" where
  "utp_tick c now =
     (if is_closed c then ([], c)
      else if now \<ge> cn_deadline c then ([], c\<lparr>cn_state := ResetState\<rparr>)
      else
        let (out, fl') = resend_loop (cn_peer_seq_nr_acked c) now (cn_in_flight c)
        in (out, c\<lparr>cn_in_flight := fl'\<rparr>))"

section \<open>Which operation touches what\<close>

text \<open>The receive side and the send side of a connection.\<close>

definition rx :: "connection \<Rightarrow> u16 \<times> bytes \<times> nat \<times> (nat, bytes) btree" where
  "rx c = (cn_peer_seq_nr_acked c, cn_in_buf c, cn_peer_logical_acked c, cn_pending_in c)"

definition tx :: "connection \<Rightarrow> u16 \<times> bytes list \<times> nat \<times> nat" where
  "tx c = (cn_next_seq_nr c, cn_out_blocks c, cn_out_head c, cn_out_len c)"

lemmas side_defs = rx_def tx_def

lemma free_acked_subset: "free_acked a es = (n, rest) \<Longrightarrow> set rest \<subseteq> set es"
  by (induction es arbitrary: n rest) (auto split: if_splits prod.splits)

lemma confirm_return_path_frame:
  "rx (confirm_return_path c p) = rx c" "tx (confirm_return_path c p) = tx c"
  "cn_in_flight (confirm_return_path c p) = cn_in_flight c" "cn_state (confirm_return_path c p) = cn_state c"
  "cn_deadline (confirm_return_path c p) = cn_deadline c"
  by (auto simp: confirm_return_path_def side_defs Let_def split: option.splits)

lemma process_sack_frame:
  assumes "process_sack c a m = (n, c')"
  shows "rx c' = rx c" "tx c' = tx c" "cn_in_flight c' = filter (\<lambda>e. \<not> sacked (a + 2) m e) (cn_in_flight c)"
    "cn_state c' = cn_state c" "cn_deadline c' = cn_deadline c" "cn_cc c' = cn_cc c" "cn_return_path_confirmed c' = cn_return_path_confirmed c"
  using assms by (auto simp: process_sack_def side_defs Let_def split: if_splits list.splits)

text \<open>Processing an acknowledgement: the cumulative part, perhaps a selective part, perhaps a delay sample.\<close>

lemma process_acks_split:
  obtains n rest k c2 where "free_acked (pk_ack_nr p) (cn_in_flight c) = (n, rest)"
    "c2 = confirm_return_path (c\<lparr>cn_in_flight := rest\<rparr>) p \<or>
      (\<exists>m dat. process_sack (confirm_return_path (c\<lparr>cn_in_flight := rest\<rparr>) p) (pk_ack_nr p) dat = (m, c2))"
    "process_acks fl c p now =
      (if k > 0 then c2\<lparr>cn_cc := on_ack fl (cn_cc c2) (unat (pk_timestamp_diff p)) k (unat (pk_wnd_size p)) now\<rparr> else c2)"
proof -
  obtain n rest where f: "free_acked (pk_ack_nr p) (cn_in_flight c) = (n, rest)" by fastforce
  let ?c1 = "confirm_return_path (c\<lparr>cn_in_flight := rest\<rparr>) p"
  obtain k c2 where c2: "(case find (\<lambda>e. ex_kind e = EXT_SELECTIVE_ACK) (pk_extensions p) of
        Some sack \<Rightarrow> (let (m, c) = process_sack ?c1 (pk_ack_nr p) (ex_data sack) in (n + m, c))
      | None \<Rightarrow> (n, ?c1)) = (k, c2)" by fastforce
  then have "c2 = ?c1 \<or> (\<exists>m dat. process_sack ?c1 (pk_ack_nr p) dat = (m, c2))"
    by (auto split: option.splits prod.splits)
  moreover have "process_acks fl c p now =
      (if k > 0 then c2\<lparr>cn_cc := on_ack fl (cn_cc c2) (unat (pk_timestamp_diff p)) k (unat (pk_wnd_size p)) now\<rparr> else c2)"
    using f c2 by (simp add: process_acks_def)
  ultimately show thesis using that f by blast
qed

lemma process_acks_frame:
  "rx (process_acks fl c p now) = rx c" "tx (process_acks fl c p now) = tx c"
  "set (cn_in_flight (process_acks fl c p now)) \<subseteq> set (cn_in_flight c)"
  "cn_state (process_acks fl c p now) = cn_state c" "cn_deadline (process_acks fl c p now) = cn_deadline c"
proof -
  obtain n rest k c2 where f: "free_acked (pk_ack_nr p) (cn_in_flight c) = (n, rest)"
    and c2: "c2 = confirm_return_path (c\<lparr>cn_in_flight := rest\<rparr>) p \<or>
      (\<exists>m dat. process_sack (confirm_return_path (c\<lparr>cn_in_flight := rest\<rparr>) p) (pk_ack_nr p) dat = (m, c2))"
    and eq: "process_acks fl c p now =
      (if k > 0 then c2\<lparr>cn_cc := on_ack fl (cn_cc c2) (unat (pk_timestamp_diff p)) k (unat (pk_wnd_size p)) now\<rparr> else c2)"
    by (rule process_acks_split)
  let ?c1 = "confirm_return_path (c\<lparr>cn_in_flight := rest\<rparr>) p"
  have c1: "rx ?c1 = rx c" "tx ?c1 = tx c" "cn_in_flight ?c1 = rest" "cn_state ?c1 = cn_state c" "cn_deadline ?c1 = cn_deadline c"
    by (simp_all add: confirm_return_path_frame) (simp_all add: side_defs)
  from c2 have frame: "rx c2 = rx c \<and> tx c2 = tx c \<and> set (cn_in_flight c2) \<subseteq> set (cn_in_flight c) \<and>
      cn_state c2 = cn_state c \<and> cn_deadline c2 = cn_deadline c"
  proof
    assume "c2 = ?c1"
    then show ?thesis using c1 free_acked_subset [OF f] by simp
  next
    assume "\<exists>m dat. process_sack ?c1 (pk_ack_nr p) dat = (m, c2)"
    then obtain m dat where "process_sack ?c1 (pk_ack_nr p) dat = (m, c2)" by blast
    from process_sack_frame [OF this] show ?thesis using c1 free_acked_subset [OF f] by (auto dest!: subsetD)
  qed
  show "rx (process_acks fl c p now) = rx c" "tx (process_acks fl c p now) = tx c"
    "set (cn_in_flight (process_acks fl c p now)) \<subseteq> set (cn_in_flight c)"
    "cn_state (process_acks fl c p now) = cn_state c" "cn_deadline (process_acks fl c p now) = cn_deadline c"
    using frame by (auto simp: eq side_defs)
qed

lemma drain_frame:
  "tx (drain_pending_in c) = tx c \<and> cn_in_flight (drain_pending_in c) = cn_in_flight c \<and>
   cn_state (drain_pending_in c) = cn_state c \<and> cn_deadline (drain_pending_in c) = cn_deadline c"
proof (induction c rule: drain_pending_in.induct)
  case (1 c)
  then show ?case
    by (subst (1 2 3 4) drain_pending_in.simps) (auto simp: side_defs split: option.splits)
qed

lemma receive_data_frame:
  "tx (receive_data c p) = tx c" "cn_in_flight (receive_data c p) = cn_in_flight c"
  "cn_state (receive_data c p) = cn_state c" "cn_deadline (receive_data c p) = cn_deadline c"
  by (auto simp: receive_data_def Let_def drain_frame) (auto simp: side_defs)

lemma handle_incoming_tx:
  assumes "handle_incoming fl c p now = (r, c')"
  shows "tx c' = tx c" "set (cn_in_flight c') \<subseteq> set (cn_in_flight c)" "cn_deadline c' = cn_deadline c"
    "cn_state c' = cn_state c \<or> cn_state c' = ResetState \<or> cn_state c' = Closed \<or> (cn_state c = SynSent \<and> cn_state c' = Connected)"
proof -
  note frames = process_acks_frame receive_data_frame
  have upd: "tx (c\<lparr>cn_state := s\<rparr>) = tx c" "tx (c\<lparr>cn_peer_seq_nr_acked := a\<rparr>) = tx c" for c s a
    by (simp_all add: side_defs)
  show "tx c' = tx c" "set (cn_in_flight c') \<subseteq> set (cn_in_flight c)" "cn_deadline c' = cn_deadline c"
    "cn_state c' = cn_state c \<or> cn_state c' = ResetState \<or> cn_state c' = Closed \<or> (cn_state c = SynSent \<and> cn_state c' = Connected)"
    using assms
    by (auto simp: handle_incoming_def Let_def frames upd split: if_splits packet_type.splits
        dest!: subsetD [OF frames(3)])
qed

text \<open>On the receive side, an incoming packet acts as follows.\<close>

lemma handle_incoming_rx:
  assumes "handle_incoming fl c p now = (r, c')"
  shows "rx c' = (if \<not> matches_incoming c p then rx c
    else case pk_type p of
      Data \<Rightarrow> rx (receive_data (process_acks fl c p now) p)
    | Fin \<Rightarrow> rx (c\<lparr>cn_peer_seq_nr_acked := pk_seq_nr p\<rparr>)
    | State \<Rightarrow> (if cn_state c = SynSent then rx (c\<lparr>cn_peer_seq_nr_acked := pk_seq_nr p - 1\<rparr>) else rx c)
    | _ \<Rightarrow> rx c)"
proof -
  have "cn_in_buf (process_acks fl c p now) = cn_in_buf c" "cn_peer_logical_acked (process_acks fl c p now) = cn_peer_logical_acked c"
    "cn_pending_in (process_acks fl c p now) = cn_pending_in c"
    "cn_peer_seq_nr_acked (process_acks fl c p now) = cn_peer_seq_nr_acked c"
    using process_acks_frame(1) [of fl c p now] by (simp_all add: rx_def)
  then show ?thesis
    using assms process_acks_frame(4) [of fl c p now]
    by (auto simp: handle_incoming_def Let_def rx_def split: if_splits packet_type.splits)
qed

end
