(* ===== verification/RT_Utp_Link.thy ===== *)
theory RT_Utp_Link
  imports RT_Utp_Connection "HOL-Library.Sublist"
begin

text \<open>
  Two uTP connections joined by a network that may lose, duplicate, delay and reorder packets: the bytes
  the receiving application takes are a prefix of the bytes the sending application handed over.
\<close>

section \<open>Sequence numbers near each other\<close>

lemma seq_near:
  assumes "x \<le> y + 32768" "y \<le> x + 32767"
  shows "seq_le (b + of_nat y) (b + of_nat x) \<longleftrightarrow> y \<le> x"
    "x < y \<Longrightarrow> unat ((b + of_nat y) - (b + of_nat x :: u16)) = y - x"
proof -
  have up: "unat (of_nat y - of_nat x :: u16) = y - x" if "x \<le> y"
  proof -
    have "of_nat y - of_nat x = (of_nat (y - x) :: u16)" using that by (simp add: of_nat_diff)
    then show ?thesis using assms(2) by (simp add: unat_of_nat)
  qed
  have down: "unat (of_nat x - of_nat y :: u16) = x - y" if "y \<le> x"
  proof -
    have "of_nat x - of_nat y = (of_nat (x - y) :: u16)" using that by (simp add: of_nat_diff)
    then show ?thesis using assms(1) by (simp add: unat_of_nat)
  qed
  have neg: "unat (of_nat x - of_nat y :: u16) > 32768" if "x < y"
  proof -
    let ?k = "of_nat (y - x) :: u16"
    have k: "unat ?k = y - x" using that assms(2) by (simp add: unat_of_nat del: of_nat_diff)
    have "of_nat x - of_nat y = - ?k" using that by (simp add: of_nat_diff)
    then have "uint (of_nat x - of_nat y :: u16) = (- uint ?k) mod 65536" by (simp add: uint_word_ariths)
    moreover have "uint ?k = int (y - x)" using k by (metis uint_nat)
    ultimately have "uint (of_nat x - of_nat y :: u16) = 65536 - int (y - x)"
      using that assms(2) by (simp add: zmod_zminus1_eq_if)
    then have "int (unat (of_nat x - of_nat y :: u16)) = 65536 - int (y - x)" by simp
    then show ?thesis using that assms(2) by linarith
  qed
  show "seq_le (b + of_nat y) (b + of_nat x) \<longleftrightarrow> y \<le> x"
    using down neg assms(1) by (cases "y \<le> x") (auto simp: seq_le_def)
  show "x < y \<Longrightarrow> unat ((b + of_nat y) - (b + of_nat x :: u16)) = y - x" using up by simp
qed

section \<open>The sender\<close>

text \<open>
  \<open>hist\<close> holds the payloads of the DATA packets sent so far and \<open>fins\<close> counts the FINs after them. Packet
  \<open>n\<close> of the hist (from 0) carries sequence number \<open>base + 1 + n\<close>.
\<close>

definition genuine :: "u16 \<Rightarrow> bytes list \<Rightarrow> nat \<Rightarrow> packet \<Rightarrow> bool" where
  "genuine base hist fins p \<longleftrightarrow>
     pk_type p = Syn \<or>
     (pk_type p = Data \<and> (\<exists>n < length hist. pk_seq_nr p = base + of_nat (n + 1) \<and> pk_payload p = hist ! n)) \<or>
     (pk_type p = Fin \<and> (\<exists>k. length hist < k \<and> k \<le> length hist + fins \<and> pk_seq_nr p = base + of_nat k))"

definition unsent :: "connection \<Rightarrow> bytes" where
  "unsent c = drop (cn_out_head c) (concat (cn_out_blocks c))"

definition closing :: "connection \<Rightarrow> bool" where
  "closing c \<longleftrightarrow> cn_state c \<in> {FinSent, Closed, ResetState}"

definition tx_ok :: "u16 \<Rightarrow> bytes list \<Rightarrow> nat \<Rightarrow> bytes \<Rightarrow> connection \<Rightarrow> bool" where
  "tx_ok base hist fins sent c \<longleftrightarrow>
     list_all (\<lambda>b. b \<noteq> []) (cn_out_blocks c) \<and>
     (case cn_out_blocks c of [] \<Rightarrow> cn_out_head c = 0 | b # _ \<Rightarrow> cn_out_head c < length b) \<and>
     cn_out_len c = length (unsent c) \<and>
     cn_next_seq_nr c = base + of_nat (length hist + fins + 1) \<and>
     (0 < fins \<longrightarrow> closing c \<and> cn_out_len c = 0) \<and>
     (\<forall>e \<in> set (cn_in_flight c). genuine base hist fins (if_packet e)) \<and>
     sent = concat hist @ unsent c"

text \<open>Operations that leave the send queue alone keep the invariant.\<close>

lemma tx_ok_cong:
  assumes "tx_ok base hist fins sent c" "tx c' = tx c" "closing c \<Longrightarrow> closing c'"
    "\<And>e. e \<in> set (cn_in_flight c') \<Longrightarrow> genuine base hist fins (if_packet e)"
  shows "tx_ok base hist fins sent c'"
proof -
  have eq: "cn_next_seq_nr c' = cn_next_seq_nr c" "cn_out_blocks c' = cn_out_blocks c" "cn_out_head c' = cn_out_head c"
    "cn_out_len c' = cn_out_len c" using assms(2) by (simp_all add: tx_def)
  then have "unsent c' = unsent c" by (simp add: unsent_def)
  then show ?thesis using assms(1,3,4) unfolding tx_ok_def eq by auto
qed

lemma tx_ok_genuine: "tx_ok base hist fins sent c \<Longrightarrow> e \<in> set (cn_in_flight c) \<Longrightarrow> genuine base hist fins (if_packet e)"
  by (simp add: tx_ok_def)

lemma genuine_log: "genuine base hist 0 p \<Longrightarrow> genuine base (hist @ [d]) 0 p"
  by (auto simp: genuine_def nth_append intro: less_SucI)

lemma genuine_append: "genuine base hist 0 p \<Longrightarrow> genuine base (hist @ ds) 0 p"
proof (induction ds rule: rev_induct)
  case (snoc d ds)
  then show ?case using genuine_log [of base "hist @ ds" p d] by simp
qed simp

lemma genuine_fin: "genuine base hist fins p \<Longrightarrow> genuine base hist (fins + 1) p"
  by (fastforce simp: genuine_def)

lemma genuine_ack [simp]: "genuine base hist fins (p\<lparr>pk_ack_nr := a\<rparr>) = genuine base hist fins p"
  by (simp add: genuine_def)

lemma unsent_block:
  assumes "cn_out_blocks c = b # bs" "cn_out_head c < length b" "n \<le> length b - cn_out_head c"
  shows "take n (unsent c) = payload_slice b (cn_out_head c) n"
    "drop n (unsent c) = drop (cn_out_head c + n) b @ concat bs"
  using assms by (auto simp: unsent_def payload_slice_def add.commute)

text \<open>One round of the packetizing loop.\<close>

definition advance :: "connection \<Rightarrow> bytes \<Rightarrow> bytes list \<Rightarrow> nat \<Rightarrow> connection" where
  "advance c b bs n =
     (let c = c\<lparr>cn_out_head := cn_out_head c + n, cn_out_len := cn_out_len c - n\<rparr>
      in if cn_out_head c \<ge> length b then c\<lparr>cn_out_blocks := bs, cn_out_head := 0\<rparr> else c)"

lemma packetize_Cons:
  assumes "cn_out_len c > 0" "length (cn_in_flight c) < w" "cn_out_blocks c = b # bs"
    "n = min (length b - cn_out_head c) MAX_DATA_PAYLOAD"
  shows "packetize w now c out =
    packetize w now (push_out (advance c b bs n) (out_packet (advance c b bs n) Data (payload_slice b (cn_out_head c) n)) now)
      (out @ [out_packet (advance c b bs n) Data (payload_slice b (cn_out_head c) n)])"
  using assms by (subst packetize.simps) (simp add: advance_def Let_def)

lemma advance_tx_ok:
  assumes "tx_ok base hist 0 sent c" "cn_out_blocks c = b # bs" "n = min (length b - cn_out_head c) MAX_DATA_PAYLOAD"
  defines "p \<equiv> out_packet (advance c b bs n) Data (payload_slice b (cn_out_head c) n)"
  defines "hist' \<equiv> hist @ [payload_slice b (cn_out_head c) n]"
  shows "tx_ok base hist' 0 sent (push_out (advance c b bs n) p now)" "genuine base hist' 0 p"
proof -
  let ?c = "advance c b bs n"
  have head: "cn_out_head c < length b" and bs: "list_all (\<lambda>b. b \<noteq> []) bs" "b \<noteq> []"
    and len: "cn_out_len c = length (unsent c)" and seq: "cn_next_seq_nr c = base + of_nat (length hist + 1)"
    and fl: "\<forall>e \<in> set (cn_in_flight c). genuine base hist 0 (if_packet e)" and sent: "sent = concat hist @ unsent c"
    using assms(1,2) by (auto simp: tx_ok_def)
  have n: "n \<le> length b - cn_out_head c" "n \<le> length (unsent c)" using assms(2,3) head by (auto simp: unsent_def)
  note un = unsent_block [OF assms(2) head n(1)]
  have un': "unsent ?c = drop n (unsent c)"
    using un(2) assms(2) head n by (auto simp: advance_def Let_def unsent_def)
  have frame: "cn_in_flight ?c = cn_in_flight c" "cn_next_seq_nr ?c = cn_next_seq_nr c" "cn_out_len ?c = cn_out_len c - n"
    "cn_state ?c = cn_state c"
    by (auto simp: advance_def Let_def)
  show gen: "genuine base hist' 0 p"
    using seq frame by (auto simp: genuine_def p_def hist'_def out_packet_def intro!: exI [of _ "length hist"])
  have "case cn_out_blocks ?c of [] \<Rightarrow> cn_out_head ?c = 0 | b # _ \<Rightarrow> cn_out_head ?c < length b"
    "list_all (\<lambda>b. b \<noteq> []) (cn_out_blocks ?c)"
    using assms(2) bs head by (auto simp: advance_def Let_def split: list.splits)
  moreover have "cn_out_len ?c = length (unsent ?c)" using frame len un' by simp
  moreover have "sent = concat hist' @ unsent ?c"
    using sent un(1) un' by (simp add: hist'_def flip: un(1))
  moreover have "unsent (push_out ?c p now) = unsent ?c" by (simp add: unsent_def push_out_def)
  ultimately show "tx_ok base hist' 0 sent (push_out ?c p now)"
    using seq frame fl gen genuine_log
    by (auto simp: tx_ok_def push_out_def hist'_def closing_def split: list.splits)
qed

text \<open>The packets a call added to the retransmission queue: the ones it sent for the first time.\<close>

definition new_packets :: "connection \<Rightarrow> connection \<Rightarrow> packet list" where
  "new_packets c c' = map if_packet (drop (length (cn_in_flight c)) (cn_in_flight c'))"

lemma packetize_prefix:
  "packetize w now c out = (out', c') \<Longrightarrow> \<exists>es. cn_in_flight c' = cn_in_flight c @ es"
proof (induction w now c out arbitrary: out' c' rule: packetize.induct)
  case (1 w now c out)
  show ?case
  proof (cases "cn_out_len c > 0 \<and> length (cn_in_flight c) < w \<and> cn_out_blocks c \<noteq> []")
    case False
    then show ?thesis using 1(2) by (auto simp: packetize.simps [of w now c] split: list.splits if_splits)
  next
    case True
    then obtain b bs where b: "cn_out_blocks c = b # bs" by (cases "cn_out_blocks c") auto
    have guard: "0 < cn_out_len c \<and> length (cn_in_flight c) < w" using True by blast
    define n where n: "n = min (length b - cn_out_head c) MAX_DATA_PAYLOAD"
    define p where "p = out_packet (advance c b bs n) Data (payload_slice b (cn_out_head c) n)"
    have "packetize w now (push_out (advance c b bs n) p now) (out @ [p]) = (out', c')"
      using 1(2) packetize_Cons [OF _ _ b n, of w now out] True by (simp add: p_def)
    then have "\<exists>es. cn_in_flight c' = cn_in_flight (push_out (advance c b bs n) p now) @ es"
      using 1(1) [OF guard b n refl refl refl] by (simp add: p_def advance_def Let_def)
    then show ?thesis by (auto simp: push_out_def advance_def Let_def)
  qed
qed

lemma packetize_tx:
  "tx_ok base hist 0 sent c \<Longrightarrow> packetize w now c out = (out', c') \<Longrightarrow>
     \<exists>ds ps. out' = out @ ps \<and> tx_ok base (hist @ ds) 0 sent c' \<and> (\<forall>p \<in> set ps. genuine base (hist @ ds) 0 p) \<and>
       rx c' = rx c \<and> cn_state c' = cn_state c \<and> new_packets c c' = ps \<and> map pk_payload ps = ds \<and>
       (\<forall>p \<in> set ps. pk_type p = Data) \<and> length (cn_in_flight c) \<le> length (cn_in_flight c')"
proof (induction "w - length (cn_in_flight c)" arbitrary: c hist out rule: less_induct)
  case less
  show ?case
  proof (cases "cn_out_len c > 0 \<and> length (cn_in_flight c) < w \<and> cn_out_blocks c \<noteq> []")
    case False
    then have "out' = out" "c' = c" using less(3) by (auto simp: packetize.simps [of w now c] split: list.splits if_splits)
    then show ?thesis using less(2) by (intro exI [of _ "[]"]) (simp add: new_packets_def)
  next
    case True
    then obtain b bs where b: "cn_out_blocks c = b # bs" by (cases "cn_out_blocks c") auto
    define n where n: "n = min (length b - cn_out_head c) MAX_DATA_PAYLOAD"
    define d where "d = payload_slice b (cn_out_head c) n"
    define p where "p = out_packet (advance c b bs n) Data d"
    define c1 where "c1 = push_out (advance c b bs n) p now"
    have step: "tx_ok base (hist @ [d]) 0 sent c1" "genuine base (hist @ [d]) 0 p"
      using advance_tx_ok [OF less(2) b n] by (simp_all add: d_def p_def c1_def)
    have eq: "packetize w now c1 (out @ [p]) = (out', c')"
      using less(3) packetize_Cons [OF _ _ b n, of w now out] True by (simp add: d_def p_def c1_def)
    have c1: "length (cn_in_flight c1) = length (cn_in_flight c) + 1" "rx c1 = rx c" "cn_state c1 = cn_state c"
      "map if_packet (drop (length (cn_in_flight c)) (cn_in_flight c1)) = [p]"
      by (simp_all add: c1_def push_out_def advance_def Let_def rx_def)
    have p: "pk_payload p = d" "pk_type p = Data" by (simp_all add: p_def out_packet_def)
    have "w - length (cn_in_flight c1) < w - length (cn_in_flight c)" using True c1(1) by linarith
    from less(1) [OF this step(1) eq] c1 obtain ds ps where IH: "out' = (out @ [p]) @ ps"
        "tx_ok base ((hist @ [d]) @ ds) 0 sent c'" "\<forall>p \<in> set ps. genuine base ((hist @ [d]) @ ds) 0 p"
        "rx c' = rx c" "cn_state c' = cn_state c" "new_packets c1 c' = ps" "map pk_payload ps = ds"
        "\<forall>p \<in> set ps. pk_type p = Data" "length (cn_in_flight c1) \<le> length (cn_in_flight c')" by auto
    obtain es where "cn_in_flight c' = cn_in_flight c1 @ es" using packetize_prefix [OF eq] by blast
    then have "new_packets c c' = p # ps" using c1(1,4) IH(6) by (simp add: new_packets_def)
    moreover have "genuine base ((hist @ [d]) @ ds) 0 p" using genuine_append step(2) by blast
    ultimately show ?thesis using IH p c1(1) by (intro exI [of _ "d # ds"] exI [of _ "p # ps"]) auto
  qed
qed

lemma genuine_mono:
  assumes "genuine base hist fins p" "fins \<le> fins'" "0 < fins \<Longrightarrow> ds = []"
  shows "genuine base (hist @ ds) fins' p"
proof (cases "0 < fins")
  case True
  then show ?thesis using assms by (fastforce simp: genuine_def)
next
  case False
  then have "genuine base (hist @ ds) 0 p" using assms genuine_append by auto
  then show ?thesis by (auto simp: genuine_def)
qed

lemma fast_retransmit_tx:
  assumes "tx_ok base hist fins sent c" "fast_retransmit c now = (out, c')"
  shows "tx_ok base hist fins sent c'" "\<forall>p \<in> set out. genuine base hist fins p" "rx c' = rx c" "cn_state c' = cn_state c"
    "cn_deadline c' = cn_deadline c"
proof -
  let ?ok = "tx_ok base hist fins sent c' \<and> (\<forall>p \<in> set out. genuine base hist fins p) \<and> rx c' = rx c \<and>
      cn_state c' = cn_state c \<and> cn_deadline c' = cn_deadline c"
  have "tx_ok base hist fins sent (c\<lparr>cn_fast_rtx_seq := None\<rparr>)"
    by (rule tx_ok_cong [OF assms(1)]) (use tx_ok_genuine [OF assms(1)] in \<open>simp_all add: tx_def closing_def\<close>)
  then have keep: ?ok if "out = []" "c' = c \<or> c' = c\<lparr>cn_fast_rtx_seq := None\<rparr>"
    using that assms(1) by (auto simp: rx_def)
  have ?ok
  proof (cases "cn_fast_rtx_seq c")
    case None
    then show ?thesis using keep assms(2) by (simp add: fast_retransmit_def)
  next
    case (Some seq)
    show ?thesis
    proof (cases "position (\<lambda>e. if_seq_nr e = seq) (cn_in_flight c)")
      case None
      then show ?thesis using keep assms(2) Some by (simp add: fast_retransmit_def del: position_None)
    next
      case pos: (Some i)
      let ?e = "(cn_in_flight c ! i)\<lparr>if_packet := (if_packet (cn_in_flight c ! i))\<lparr>pk_ack_nr := cn_peer_seq_nr_acked c\<rparr>, if_send_time := now\<rparr>"
      have out: "out = [if_packet ?e]" "c' = c\<lparr>cn_fast_rtx_seq := None, cn_in_flight := (cn_in_flight c)[i := ?e]\<rparr>"
        using assms(2) Some pos by (auto simp: fast_retransmit_def Let_def)
      have all: "\<forall>e \<in> set (cn_in_flight c). genuine base hist fins (if_packet e)" using assms(1) by (simp add: tx_ok_def)
      then have gen: "genuine base hist fins (if_packet ?e)" using position_SomeD [OF pos] nth_mem by simp
      then have "\<forall>e \<in> set ((cn_in_flight c)[i := ?e]). genuine base hist fins (if_packet e)"
        using all set_update_subset_insert [of "cn_in_flight c" i ?e] by blast
      then have "tx_ok base hist fins sent c'"
        using assms(1) by (intro tx_ok_cong [OF assms(1)]) (simp_all add: out(2) tx_def closing_def)
      then show ?thesis using gen out by (simp add: rx_def)
    qed
  qed
  then show "tx_ok base hist fins sent c'" "\<forall>p \<in> set out. genuine base hist fins p" "rx c' = rx c" "cn_state c' = cn_state c"
    "cn_deadline c' = cn_deadline c" by blast+
qed

lemma send_fin_tx:
  assumes "tx_ok base hist fins sent c" "cn_state c = FinSent" "cn_out_len c = 0"
  shows "tx_ok base hist (fins + 1) sent (push_out c (out_packet c Fin []) now)"
    "genuine base hist (fins + 1) (out_packet c Fin [])"
proof -
  show gen: "genuine base hist (fins + 1) (out_packet c Fin [])"
    using assms(1) by (auto simp: genuine_def out_packet_def tx_ok_def intro!: exI [of _ "length hist + fins + 1"])
  show "tx_ok base hist (fins + 1) sent (push_out c (out_packet c Fin []) now)"
    using assms gen genuine_fin [of base hist fins]
    by (auto simp: tx_ok_def push_out_def unsent_def closing_def split: list.splits)
qed

definition new_data :: "connection \<Rightarrow> connection \<Rightarrow> bytes list" where
  "new_data c c' = map pk_payload (filter (\<lambda>p. pk_type p = Data) (new_packets c c'))"

definition new_fins :: "connection \<Rightarrow> connection \<Rightarrow> nat" where
  "new_fins c c' = length (filter (\<lambda>p. pk_type p = Fin) (new_packets c c'))"

lemma new_unchanged: "length (cn_in_flight c') = length (cn_in_flight c) \<Longrightarrow> new_data c c' = [] \<and> new_fins c c' = 0"
  by (simp add: new_data_def new_fins_def new_packets_def)

lemma pending_send_tx:
  assumes "tx_ok base hist fins sent c" "pending_send_packets fl c now = (out, c')"
  shows "tx_ok base (hist @ new_data c c') (fins + new_fins c c') sent c' \<and>
    (\<forall>p \<in> set out. genuine base (hist @ new_data c c') (fins + new_fins c c') p) \<and>
    (0 < fins \<longrightarrow> new_data c c' = []) \<and> rx c' = rx c"
proof (cases "is_closed c \<or> cn_state c = SynSent \<or> cn_state c = SynReceived")
  case True
  then have "out = []" "c' = c" using assms(2) by (auto simp: pending_send_packets_def split: if_splits)
  then show ?thesis using assms(1) new_unchanged [of c c] by simp
next
  case False
  obtain o1 c1 where f: "fast_retransmit c now = (o1, c1)" by fastforce
  note F = fast_retransmit_tx [OF assms(1) f]
  let ?w = "case window_packets fl (cn_cc c1) of Some w \<Rightarrow> w | None \<Rightarrow> INITIAL_WINDOW_PACKETS"
  obtain o2 c2 where pk: "packetize ?w now c1 o1 = (o2, c2)" by fastforce
  have len: "length (cn_in_flight c1) = length (cn_in_flight c)"
    using f by (auto simp: fast_retransmit_def Let_def split: option.splits)
  have P: "\<exists>ps ds. o2 = o1 @ ps \<and> tx_ok base (hist @ ds) fins sent c2 \<and> (\<forall>p \<in> set ps. genuine base (hist @ ds) fins p) \<and>
      (0 < fins \<longrightarrow> ds = []) \<and> rx c2 = rx c \<and> new_packets c c2 = ps \<and> map pk_payload ps = ds \<and>
      (\<forall>p \<in> set ps. pk_type p = Data) \<and> length (cn_in_flight c) \<le> length (cn_in_flight c2)"
  proof (cases "fins = 0")
    case True
    then show ?thesis using packetize_tx [OF F(1) [unfolded True] pk] F(3) len by (auto simp: new_packets_def)
  next
    case False
    then have "0 < fins" by simp
    then have "cn_out_len c1 = 0" using F(1) unfolding tx_ok_def by blast
    then have "o2 = o1" "c2 = c1" using pk by (simp_all add: packetize.simps)
    then show ?thesis using F len by (intro exI [of _ "[]"]) (auto simp: new_packets_def)
  qed
  then obtain ds ps where ps: "o2 = o1 @ ps" "tx_ok base (hist @ ds) fins sent c2" "\<forall>p \<in> set ps. genuine base (hist @ ds) fins p"
    "0 < fins \<longrightarrow> ds = []" "rx c2 = rx c" "new_packets c c2 = ps" "map pk_payload ps = ds" "\<forall>p \<in> set ps. pk_type p = Data"
    "length (cn_in_flight c) \<le> length (cn_in_flight c2)" by blast
  have o2: "\<forall>p \<in> set o2. genuine base (hist @ ds) fins p"
    using ps(1,3,4) F(2) genuine_mono [of base hist fins _ fins ds] by auto
  have ds: "filter (\<lambda>p. pk_type p = Data) ps = ps" "filter (\<lambda>p. pk_type p = Fin) ps = []"
    using ps(8) by (auto simp: filter_id_conv filter_empty_conv)
  show ?thesis
  proof (cases "cn_state c2 = FinSent \<and> cn_out_len c2 = 0 \<and> \<not> list_ex (\<lambda>e. pk_type (if_packet e) = Fin) (cn_in_flight c2)")
    case True
    then have out: "out = o2 @ [out_packet c2 Fin []]" "c' = push_out c2 (out_packet c2 Fin []) now"
      using assms(2) False f pk by (auto simp: pending_send_packets_def Let_def)
    have "new_packets c c' = ps @ [out_packet c2 Fin []]" using ps(6,9) by (simp add: out(2) new_packets_def push_out_def)
    then have new: "new_data c c' = ds" "new_fins c c' = 1"
      using ds ps(7) by (simp_all add: new_data_def new_fins_def out_packet_def)
    have "rx c' = rx c2" by (simp add: out(2) push_out_def rx_def)
    then show ?thesis
      using send_fin_tx(1) [OF ps(2), of now] send_fin_tx(2) [OF ps(2)] True out ps(4,5) o2 genuine_fin [of base "hist @ ds" fins]
      unfolding new by auto
  next
    case no: False
    then have eq: "out = o2" "c' = c2" using assms(2) False f pk by (auto simp: pending_send_packets_def Let_def)
    then have "new_data c c' = ds" "new_fins c c' = 0" using ds ps(6,7) by (simp_all add: new_data_def new_fins_def)
    then show ?thesis using ps(2,4,5) o2 eq by simp
  qed
qed

lemma resend_loop_genuine:
  "(\<And>e. e \<in> set es \<Longrightarrow> genuine base hist fins (if_packet e)) \<Longrightarrow> resend_loop ack now es = (out, es') \<Longrightarrow>
     (\<forall>p \<in> set out. genuine base hist fins p) \<and> (\<forall>e \<in> set es'. genuine base hist fins (if_packet e))"
proof (induction es arbitrary: out es')
  case (Cons e es)
  obtain o1 r1 where r1: "resend_loop ack now es = (o1, r1)" by fastforce
  from Cons.IH [OF _ r1] Cons.prems show ?case by (auto simp: r1 Let_def split: if_splits)
qed simp

lemma tick_tx:
  assumes "tx_ok base hist fins sent c" "utp_tick c now = (out, c')"
  shows "tx_ok base hist fins sent c'" "\<forall>p \<in> set out. genuine base hist fins p" "rx c' = rx c"
proof -
  obtain o1 es' where r: "resend_loop (cn_peer_seq_nr_acked c) now (cn_in_flight c) = (o1, es')" by fastforce
  note R = resend_loop_genuine [OF tx_ok_genuine [OF assms(1)] r]
  from assms(2) consider (1) "out = []" "c' = c" | (2) "out = []" "c' = c\<lparr>cn_state := ResetState\<rparr>"
    | (3) "out = o1" "c' = c\<lparr>cn_in_flight := es'\<rparr>"
    by (auto simp: utp_tick_def r split: if_splits)
  then have "tx_ok base hist fins sent c' \<and> (\<forall>p \<in> set out. genuine base hist fins p) \<and> rx c' = rx c"
  proof cases
    case 2
    have "tx_ok base hist fins sent c'"
      by (rule tx_ok_cong [OF assms(1)]) (use tx_ok_genuine [OF assms(1)] in \<open>simp_all add: 2(2) tx_def closing_def\<close>)
    then show ?thesis using 2 by (simp add: rx_def)
  next
    case 3
    have "tx_ok base hist fins sent c'"
      by (rule tx_ok_cong [OF assms(1)]) (use R in \<open>simp_all add: 3(2) tx_def closing_def\<close>)
    then show ?thesis using 3 R by (simp add: rx_def)
  qed (use assms(1) in simp)
  then show "tx_ok base hist fins sent c'" "\<forall>p \<in> set out. genuine base hist fins p" "rx c' = rx c" by blast+
qed

lemma incoming_tx:
  assumes "tx_ok base hist fins sent c" "handle_incoming fl c p now = (r, c')"
  shows "tx_ok base hist fins sent c'"
proof (rule tx_ok_cong [OF assms(1)])
  note H = handle_incoming_tx [OF assms(2)]
  show "tx c' = tx c" by (rule H(1))
  show "closing c'" if "closing c" using H(4) that by (auto simp: closing_def)
  show "genuine base hist fins (if_packet e)" if "e \<in> set (cn_in_flight c')" for e
    using H(2) that tx_ok_genuine [OF assms(1)] by blast
qed

lemma enqueue_tx:
  assumes "tx_ok base hist fins sent c" "enqueue_send_block c block = (r, c')"
  shows "tx_ok base hist fins (if r then sent @ block else sent) c'" "rx c' = rx c"
proof -
  let ?c = "c\<lparr>cn_out_len := cn_out_len c + length block, cn_out_blocks := cn_out_blocks c @ [block]\<rparr>"
  have head: "cn_out_head c \<le> length (concat (cn_out_blocks c))"
    using assms(1) by (cases "cn_out_blocks c") (simp_all add: tx_ok_def)
  then have un: "unsent ?c = unsent c @ block" by (simp add: unsent_def)
  have "tx_ok base hist fins (if r then sent @ block else sent) c' \<and> rx c' = rx c"
  proof (cases "r \<and> block \<noteq> []")
    case True
    then have c': "c' = ?c" "\<not> closing c"
      using assms(2) by (auto simp: enqueue_send_block_def closing_def split: if_splits)
    then have "fins = 0" using assms(1) by (auto simp: tx_ok_def)
    then have "tx_ok base hist fins (sent @ block) c'"
      using assms(1) True un by (cases "cn_out_blocks c") (simp_all add: tx_ok_def c'(1))
    then show ?thesis using True c'(1) by (simp add: rx_def)
  next
    case False
    then have "c' = c" using assms(2) by (auto simp: enqueue_send_block_def split: if_splits)
    then show ?thesis using assms(1) False by auto
  qed
  then show "tx_ok base hist fins (if r then sent @ block else sent) c'" "rx c' = rx c" by blast+
qed

lemma close_tx: "tx_ok base hist fins sent c \<Longrightarrow> tx_ok base hist fins sent (close c)" "rx (close c) = rx c"
proof -
  show "rx (close c) = rx c" by (simp add: close_def rx_def)
  assume ok: "tx_ok base hist fins sent c"
  show "tx_ok base hist fins sent (close c)"
    by (rule tx_ok_cong [OF ok]) (use tx_ok_genuine [OF ok] in \<open>auto simp: close_def tx_def closing_def split: if_splits\<close>)
qed

lemma take_tx:
  assumes "tx_ok base hist fins sent c" "take_received c mx = (bs, c')"
  shows "tx_ok base hist fins sent c'"
proof -
  have c': "tx c' = tx c" "cn_state c' = cn_state c" "cn_in_flight c' = cn_in_flight c"
    using assms(2) by (auto simp: take_received_def Let_def tx_def)
  show ?thesis
    by (rule tx_ok_cong [OF assms(1) c'(1)]) (use tx_ok_genuine [OF assms(1)] c' in \<open>simp_all add: closing_def\<close>)
qed

section \<open>The receiver\<close>

text \<open>
  \<open>fin\<close> is the position of the last FIN that arrived, \<open>got\<close> what the application has taken. The ack position
  is the delivery frontier, or the FIN's position once one arrived.
\<close>

definition ack_pos :: "nat option \<Rightarrow> connection \<Rightarrow> nat" where
  "ack_pos fin c = (case fin of None \<Rightarrow> cn_peer_logical_acked c | Some f \<Rightarrow> f)"

definition rx_ok :: "u16 \<Rightarrow> bytes list \<Rightarrow> nat \<Rightarrow> nat option \<Rightarrow> bytes \<Rightarrow> connection \<Rightarrow> bool" where
  "rx_ok base hist fins fin got c \<longleftrightarrow>
     cn_peer_seq_nr_acked c = base + of_nat (ack_pos fin c) \<and>
     (\<forall>f. fin = Some f \<longrightarrow> length hist < f \<and> f \<le> length hist + fins) \<and>
     cn_peer_logical_acked c \<le> length hist \<and>
     got @ cn_in_buf c = concat (take (cn_peer_logical_acked c) hist) \<and>
     btree_ok (cn_pending_in c) \<and>
     (\<forall>k v. btree_get (cn_pending_in c) k = Some v \<longrightarrow> 0 < k \<and> k \<le> length hist \<and> v = hist ! (k - 1))"

lemma rx_ok_cong: "rx c' = rx c \<Longrightarrow> rx_ok base hist fins fin got c' = rx_ok base hist fins fin got c"
proof -
  assume "rx c' = rx c"
  then have eq: "cn_peer_seq_nr_acked c' = cn_peer_seq_nr_acked c" "cn_in_buf c' = cn_in_buf c"
    "cn_peer_logical_acked c' = cn_peer_logical_acked c" "cn_pending_in c' = cn_pending_in c" by (simp_all add: rx_def)
  show ?thesis unfolding rx_ok_def ack_pos_def eq ..
qed

lemma rx_ok_stash:
  "rx_ok base hist fins fin got c \<Longrightarrow> btree_get (cn_pending_in c) k = Some v \<Longrightarrow> 0 < k \<and> k \<le> length hist \<and> v = hist ! (k - 1)"
  unfolding rx_ok_def by blast

lemma rx_ok_mono:
  assumes "rx_ok base hist fins fin got c" "fins \<le> fins'" "0 < fins \<longrightarrow> ds = []"
  shows "rx_ok base (hist @ ds) fins' fin got c"
proof -
  have "fin \<noteq> None \<longrightarrow> 0 < fins" using assms(1) by (auto simp: rx_ok_def)
  then have fin: "\<forall>f. fin = Some f \<longrightarrow> length (hist @ ds) < f \<and> f \<le> length (hist @ ds) + fins'"
    using assms by (auto simp: rx_ok_def)
  have stash: "\<forall>k v. btree_get (cn_pending_in c) k = Some v \<longrightarrow> 0 < k \<and> k \<le> length (hist @ ds) \<and> v = (hist @ ds) ! (k - 1)"
    by (fastforce dest: rx_ok_stash [OF assms(1)] simp: nth_append)
  have le: "cn_peer_logical_acked c \<le> length hist" using assms(1) by (simp add: rx_ok_def)
  then have tk: "take (cn_peer_logical_acked c) (hist @ ds) = take (cn_peer_logical_acked c) hist" by simp
  show ?thesis unfolding rx_ok_def tk
    by (intro conjI fin stash) (use assms(1) le in \<open>simp_all add: rx_ok_def\<close>)
qed

lemma drain_rx:
  "rx_ok base hist fins None got c \<Longrightarrow> rx_ok base hist fins None got (drain_pending_in c)"
proof (induction c rule: drain_pending_in.induct)
  case (1 c)
  let ?k = "cn_peer_logical_acked c + 1"
  show ?case
  proof (cases "length (cn_in_buf c) < RECV_WINDOW_BYTES \<and> btree_get (cn_pending_in c) ?k \<noteq> None")
    case False
    then have "drain_pending_in c = c" by (subst drain_pending_in.simps) (auto split: option.splits)
    then show ?thesis using 1(2) by simp
  next
    case True
    then obtain buf where buf: "btree_get (cn_pending_in c) ?k = Some buf" by auto
    let ?c = "c\<lparr>cn_pending_in := btree_remove ?k (cn_pending_in c), cn_in_buf := cn_in_buf c @ buf,
       cn_peer_seq_nr_acked := cn_peer_seq_nr_acked c + 1, cn_peer_logical_acked := ?k\<rparr>"
    have eq: "drain_pending_in c = drain_pending_in ?c"
      using True buf by (subst drain_pending_in.simps) simp
    have k: "cn_peer_logical_acked c < length hist" "buf = hist ! cn_peer_logical_acked c"
      using rx_ok_stash [OF 1(2) buf] by simp_all
    then have data: "concat (take ?k hist) = concat (take (cn_peer_logical_acked c) hist) @ buf"
      by (simp add: take_Suc_conv_app_nth)
    have ok: "btree_ok (cn_pending_in c)" "got @ cn_in_buf c = concat (take (cn_peer_logical_acked c) hist)"
      "cn_peer_seq_nr_acked c = base + of_nat (cn_peer_logical_acked c)"
      using 1(2) by (simp_all add: rx_ok_def ack_pos_def)
    have "btree_get (btree_remove ?k (cn_pending_in c)) i = Some v \<longrightarrow> 0 < i \<and> i \<le> length hist \<and> v = hist ! (i - 1)" for i v
      using rx_ok_stash [OF 1(2), of i v] by (simp add: btree_get_remove)
    moreover have "btree_ok (btree_remove ?k (cn_pending_in c))" by (rule btree.ok_rem [OF ok(1)])
    moreover have "got @ (cn_in_buf c @ buf) = concat (take ?k hist)" using ok(2) data by simp
    ultimately have "rx_ok base hist fins None got ?c"
      using k(1) ok(3) by (simp add: rx_ok_def ack_pos_def)
    then have "rx_ok base hist fins None got (drain_pending_in ?c)" using 1(1) [OF _ buf] True by blast
    then show ?thesis unfolding eq .
  qed
qed

text \<open>
  A DATA packet whose position is within half the sequence space of the ack position is filed correctly:
  behind it as a duplicate, next to it into the buffer, ahead of it under its own position.
\<close>

definition near :: "nat \<Rightarrow> nat \<Rightarrow> bool" where
  "near a k \<longleftrightarrow> a \<le> k + 32768 \<and> k \<le> a + 32767"

lemma rx_ok_stash_insert:
  assumes "rx_ok base hist fins fin got c" "0 < k" "k \<le> length hist"
  shows "rx_ok base hist fins fin got (c\<lparr>cn_pending_in := btree_insert k (hist ! (k - 1)) (cn_pending_in c)\<rparr>)"
proof -
  have ok: "btree_ok (cn_pending_in c)" using assms(1) by (simp add: rx_ok_def)
  have "\<forall>i v. btree_get (btree_insert k (hist ! (k - 1)) (cn_pending_in c)) i = Some v \<longrightarrow>
      0 < i \<and> i \<le> length hist \<and> v = hist ! (i - 1)"
    unfolding btree_get_insert [OF ok] using rx_ok_stash [OF assms(1)] assms(2,3) by simp
  then show ?thesis using assms(1) ok by (cases fin) (simp_all add: rx_ok_def ack_pos_def)
qed

lemma rx_ok_next:
  assumes "rx_ok base hist fins None got c" "k = cn_peer_logical_acked c + 1" "k \<le> length hist"
  shows "rx_ok base hist fins None got
    (c\<lparr>cn_in_buf := cn_in_buf c @ hist ! (k - 1), cn_peer_seq_nr_acked := base + of_nat k,
       cn_peer_logical_acked := cn_peer_logical_acked c + 1\<rparr>)"
proof -
  have "concat (take k hist) = concat (take (cn_peer_logical_acked c) hist) @ hist ! (k - 1)"
    using assms(2,3) by (simp add: take_Suc_conv_app_nth)
  moreover have "got @ cn_in_buf c = concat (take (cn_peer_logical_acked c) hist)" using assms(1) by (simp add: rx_ok_def)
  ultimately have "got @ (cn_in_buf c @ hist ! (k - 1)) = concat (take k hist)" by simp
  then show ?thesis using assms by (simp add: rx_ok_def ack_pos_def)
qed

lemma receive_data_rx:
  assumes "rx_ok base hist fins fin got c" "pk_seq_nr p = base + of_nat k" "0 < k" "k \<le> length hist"
    "pk_payload p = hist ! (k - 1)" "near (ack_pos fin c) k"
  shows "rx_ok base hist fins fin got (receive_data c p)"
proof -
  let ?a = "ack_pos fin c"
  have a: "cn_peer_seq_nr_acked c = base + of_nat ?a" using assms(1) by (simp add: rx_ok_def)
  have seq: "seq_le (base + of_nat k) (base + of_nat ?a) \<longleftrightarrow> k \<le> ?a"
    "?a < k \<Longrightarrow> unat ((base + of_nat k) - (base + of_nat ?a :: u16)) = k - ?a"
    using seq_near [of ?a k base] assms(6) by (simp_all add: near_def)
  show ?thesis
  proof (cases "k \<le> ?a")
    case True
    then have "receive_data c p = c" using seq(1) a assms(2) by (simp add: receive_data_def)
    then show ?thesis using assms(1) by simp
  next
    case False
    then have fin: "fin = None" using assms(1,4) by (cases fin) (auto simp: rx_ok_def ack_pos_def)
    then have la: "?a = cn_peer_logical_acked c" by (simp add: ack_pos_def)
    have d: "unat (pk_seq_nr p - cn_peer_seq_nr_acked c) = k - ?a" using seq(2) False a assms(2) by simp
    have one: "pk_seq_nr p - cn_peer_seq_nr_acked c = 1 \<longleftrightarrow> k = ?a + 1"
    proof -
      have "pk_seq_nr p - cn_peer_seq_nr_acked c = 1 \<longleftrightarrow> unat (pk_seq_nr p - cn_peer_seq_nr_acked c) = 1"
        by (metis unat_1 word_unat_eq_iff)
      then show ?thesis using d False by auto
    qed
    have nle: "\<not> seq_le (pk_seq_nr p) (cn_peer_seq_nr_acked c)" using seq(1) a assms(2) False by simp
    show ?thesis
    proof (cases "k = ?a + 1")
      case True
      have "rx_ok base hist fins None got
          (c\<lparr>cn_in_buf := cn_in_buf c @ pk_payload p, cn_peer_seq_nr_acked := pk_seq_nr p,
             cn_peer_logical_acked := cn_peer_logical_acked c + 1\<rparr>)"
        unfolding assms(2,5) by (rule rx_ok_next) (use assms(1,4) fin la True in simp_all)
      then show ?thesis using nle one True assms(1) drain_rx fin by (simp add: receive_data_def)
    next
      case far: False
      have "cn_peer_logical_acked c + unat (pk_seq_nr p - cn_peer_seq_nr_acked c) = k" using d la False by simp
      then show ?thesis
        using nle one far assms(1) rx_ok_stash_insert [OF assms(1,3,4)] assms(5) by (simp add: receive_data_def Let_def)
    qed
  qed
qed

section \<open>The link\<close>

text \<open>
  One direction of a connection: a sender, a receiver, and the packets the sender has put on the wire. Packets
  stay on the wire, so each may arrive any number of times, in any order, or never. The other fields record
  the run: the payloads and FINs sent so far, the position of the last FIN that arrived, the bytes the sending
  application handed over and the bytes the receiving one took.
\<close>

record link =
  ln_snd :: connection
  ln_rcv :: connection
  ln_net :: "packet list"
  ln_hist :: "bytes list"
  ln_fins :: nat
  ln_fin :: "nat option"
  ln_sent :: bytes
  ln_got :: bytes

definition at_position :: "u16 \<Rightarrow> link \<Rightarrow> nat \<Rightarrow> packet \<Rightarrow> bool" where
  "at_position base l k p \<longleftrightarrow> pk_seq_nr p = base + of_nat k \<and>
     (pk_type p = Data \<and> 0 < k \<and> k \<le> length (ln_hist l) \<and> pk_payload p = ln_hist l ! (k - 1) \<or>
      pk_type p = Fin \<and> length (ln_hist l) < k \<and> k \<le> length (ln_hist l) + ln_fins l)"

text \<open>
  The sender may meet any packet at all. The receiver meets DATA and FIN packets of this sender and arbitrary
  SYN, STATE and RESET packets. A DATA packet is not delayed by more than half the 16-bit sequence space
  (\<open>near\<close>), the standing assumption behind sequence numbers that wrap.
\<close>

inductive link_step :: "(real \<Rightarrow> real) \<Rightarrow> u16 \<Rightarrow> link \<Rightarrow> link \<Rightarrow> bool" for fl base where
  SEnqueue: "enqueue_send_block (ln_snd l) b = (r, c) \<Longrightarrow>
    link_step fl base l (l\<lparr>ln_snd := c, ln_sent := (if r then ln_sent l @ b else ln_sent l)\<rparr>)"
| SPump: "pending_send_packets fl (ln_snd l) now = (out, c) \<Longrightarrow>
    link_step fl base l (l\<lparr>ln_snd := c, ln_net := ln_net l @ out, ln_hist := ln_hist l @ new_data (ln_snd l) c,
      ln_fins := ln_fins l + new_fins (ln_snd l) c\<rparr>)"
| STick: "utp_tick (ln_snd l) now = (out, c) \<Longrightarrow> link_step fl base l (l\<lparr>ln_snd := c, ln_net := ln_net l @ out\<rparr>)"
| SRecv: "handle_incoming fl (ln_snd l) p now = (r, c) \<Longrightarrow> link_step fl base l (l\<lparr>ln_snd := c\<rparr>)"
| STake: "take_received (ln_snd l) mx = (bs, c) \<Longrightarrow> link_step fl base l (l\<lparr>ln_snd := c\<rparr>)"
| SClose: "link_step fl base l (l\<lparr>ln_snd := close (ln_snd l)\<rparr>)"
| RDeliver: "p \<in> set (ln_net l) \<Longrightarrow> at_position base l k p \<Longrightarrow>
    pk_type p = Data \<longrightarrow> near (ack_pos (ln_fin l) (ln_rcv l)) k \<Longrightarrow> handle_incoming fl (ln_rcv l) p now = (r, c) \<Longrightarrow>
    link_step fl base l (l\<lparr>ln_rcv := c,
      ln_fin := (if pk_type p = Fin \<and> matches_incoming (ln_rcv l) p then Some k else ln_fin l)\<rparr>)"
| RControl: "pk_type p \<in> {Syn, State, Reset} \<Longrightarrow> handle_incoming fl (ln_rcv l) p now = (r, c) \<Longrightarrow>
    link_step fl base l (l\<lparr>ln_rcv := c\<rparr>)"
| RTake: "take_received (ln_rcv l) mx = (bs, c) \<Longrightarrow> link_step fl base l (l\<lparr>ln_rcv := c, ln_got := ln_got l @ bs\<rparr>)"
| REnqueue: "enqueue_send_block (ln_rcv l) b = (r, c) \<Longrightarrow> link_step fl base l (l\<lparr>ln_rcv := c\<rparr>)"
| RPump: "pending_send_packets fl (ln_rcv l) now = (out, c) \<Longrightarrow> link_step fl base l (l\<lparr>ln_rcv := c\<rparr>)"
| RTick: "utp_tick (ln_rcv l) now = (out, c) \<Longrightarrow> link_step fl base l (l\<lparr>ln_rcv := c\<rparr>)"
| RClose: "link_step fl base l (l\<lparr>ln_rcv := close (ln_rcv l)\<rparr>)"

text \<open>
  Either side may be the sender. With the initiator sending, both sides start right after the receiver met the
  SYN; with the accepting side sending, right after the initiator met the STATE packet that answered it.
\<close>

definition new_link :: "connection \<Rightarrow> connection \<Rightarrow> packet list \<Rightarrow> link" where
  "new_link s r net = \<lparr>ln_snd = s, ln_rcv = r, ln_net = net, ln_hist = [], ln_fins = 0, ln_fin = None, ln_sent = [], ln_got = []\<rparr>"

inductive link_start :: "(real \<Rightarrow> real) \<Rightarrow> u16 \<Rightarrow> link \<Rightarrow> bool" for fl where
  initiator_sends: "new_initiator rid now = (s, syn) \<Longrightarrow> new_receiver_with_seq syn now' seq = Some (r, ack) \<Longrightarrow>
    link_start fl 1 (new_link s r [syn])"
| receiver_sends: "new_initiator rid now = (r, syn) \<Longrightarrow> new_receiver_with_seq syn now' seq = Some (s, ack) \<Longrightarrow>
    handle_incoming fl r ack now'' = (x, r') \<Longrightarrow> link_start fl (seq - 1) (new_link s r' [])"

definition link_reachable :: "(real \<Rightarrow> real) \<Rightarrow> u16 \<Rightarrow> link \<Rightarrow> bool" where
  "link_reachable fl base l \<longleftrightarrow> (\<exists>l0. link_start fl base l0 \<and> (link_step fl base)\<^sup>*\<^sup>* l0 l)"

subsection \<open>The invariant\<close>

definition link_ok :: "u16 \<Rightarrow> link \<Rightarrow> bool" where
  "link_ok base l \<longleftrightarrow>
     tx_ok base (ln_hist l) (ln_fins l) (ln_sent l) (ln_snd l) \<and>
     rx_ok base (ln_hist l) (ln_fins l) (ln_fin l) (ln_got l) (ln_rcv l) \<and>
     cn_state (ln_rcv l) \<noteq> SynSent \<and>
     (\<forall>p \<in> set (ln_net l). genuine base (ln_hist l) (ln_fins l) p)"

lemma packetize_frame:
  "packetize w now c out = (out', c') \<Longrightarrow> rx c' = rx c \<and> cn_state c' = cn_state c \<and> cn_deadline c' = cn_deadline c"
proof (induction w now c out arbitrary: out' c' rule: packetize.induct)
  case (1 w now c out)
  show ?case
  proof (cases "cn_out_len c > 0 \<and> length (cn_in_flight c) < w \<and> cn_out_blocks c \<noteq> []")
    case False
    then have "c' = c" using 1(2) by (auto simp: packetize.simps [of w now c] split: list.splits if_splits)
    then show ?thesis by simp
  next
    case True
    then obtain b bs where b: "cn_out_blocks c = b # bs" by (cases "cn_out_blocks c") auto
    have guard: "0 < cn_out_len c \<and> length (cn_in_flight c) < w" using True by blast
    define n where n: "n = min (length b - cn_out_head c) MAX_DATA_PAYLOAD"
    define p where "p = out_packet (advance c b bs n) Data (payload_slice b (cn_out_head c) n)"
    let ?c = "push_out (advance c b bs n) p now"
    have "packetize w now ?c (out @ [p]) = (out', c')"
      using 1(2) packetize_Cons [OF _ _ b n, of w now out] True by (simp add: p_def)
    then have "rx c' = rx ?c \<and> cn_state c' = cn_state ?c \<and> cn_deadline c' = cn_deadline ?c"
      using 1(1) [OF guard b n refl refl refl] by (simp add: p_def advance_def Let_def)
    moreover have "rx ?c = rx c" "cn_state ?c = cn_state c" "cn_deadline ?c = cn_deadline c"
      by (simp_all add: push_out_def advance_def Let_def rx_def)
    ultimately show ?thesis by simp
  qed
qed

lemma pending_send_frame:
  assumes "pending_send_packets fl c now = (out, c')"
  shows "rx c' = rx c \<and> cn_state c' = cn_state c \<and> cn_deadline c' = cn_deadline c"
proof (cases "is_closed c \<or> cn_state c = SynSent \<or> cn_state c = SynReceived")
  case True
  then show ?thesis using assms by (auto simp: pending_send_packets_def split: if_splits)
next
  case False
  obtain o1 c1 where f: "fast_retransmit c now = (o1, c1)" by fastforce
  let ?w = "case window_packets fl (cn_cc c1) of Some w \<Rightarrow> w | None \<Rightarrow> INITIAL_WINDOW_PACKETS"
  obtain o2 c2 where pk: "packetize ?w now c1 o1 = (o2, c2)" by fastforce
  have "rx c1 = rx c \<and> cn_state c1 = cn_state c \<and> cn_deadline c1 = cn_deadline c"
    using f by (auto simp: fast_retransmit_def Let_def rx_def split: option.splits)
  moreover have "rx c' = rx c2 \<and> cn_state c' = cn_state c2 \<and> cn_deadline c' = cn_deadline c2"
    using assms False f pk by (auto simp: pending_send_packets_def Let_def push_out_def rx_def split: if_splits)
  ultimately show ?thesis using packetize_frame [OF pk] by simp
qed

lemma tick_frame:
  "utp_tick c now = (out, c') \<Longrightarrow>
     rx c' = rx c \<and> (cn_state c' = cn_state c \<or> cn_state c' = ResetState) \<and> cn_deadline c' = cn_deadline c"
  by (auto simp: utp_tick_def rx_def split: if_splits prod.splits)

lemma enqueue_frame:
  "enqueue_send_block c b = (r, c') \<Longrightarrow> rx c' = rx c \<and> cn_state c' = cn_state c \<and> cn_deadline c' = cn_deadline c"
  by (auto simp: enqueue_send_block_def rx_def split: if_splits)

lemma incoming_rx:
  assumes "rx_ok base hist fins fin got c" "handle_incoming fl c p now = (r, c')" "cn_state c \<noteq> SynSent"
    "pk_type p \<in> {Syn, State, Reset} \<or> at_position base l k p \<and> (pk_type p = Data \<longrightarrow> near (ack_pos fin c) k)"
    "hist = ln_hist l" "fins = ln_fins l"
  shows "rx_ok base hist fins (if pk_type p = Fin \<and> matches_incoming c p then Some k else fin) got c'"
proof -
  note R = handle_incoming_rx [OF assms(2)]
  consider "\<not> matches_incoming c p \<or> pk_type p \<in> {Syn, State, Reset}"
    | (data) "matches_incoming c p" "pk_type p = Data" | (fin) "matches_incoming c p" "pk_type p = Fin"
    by (cases "pk_type p") auto
  then show ?thesis
  proof cases
    case 1
    then have eq: "rx c' = rx c" and nf: "\<not> (pk_type p = Fin \<and> matches_incoming c p)"
      using R assms(3) by (auto split: packet_type.splits)
    have "(if pk_type p = Fin \<and> matches_incoming c p then Some k else fin) = fin" using nf by (rule if_not_P)
    then show ?thesis using assms(1) unfolding rx_ok_cong [OF eq] by simp
  next
    case data
    let ?c = "process_acks fl c p now"
    have eq: "rx ?c = rx c" by (rule process_acks_frame)
    then have "ack_pos fin ?c = ack_pos fin c" by (auto simp: rx_def ack_pos_def split: option.splits)
    then have "rx_ok base hist fins fin got (receive_data ?c p)"
      using assms data rx_ok_cong [OF eq, of base hist fins fin got]
      by (intro receive_data_rx [of base hist fins fin got ?c p k]) (auto simp: at_position_def)
    moreover have "rx c' = rx (receive_data ?c p)" using R data by simp
    ultimately have "rx_ok base hist fins fin got c'" using rx_ok_cong by blast
    then show ?thesis using data by simp
  next
    case fin
    have "rx_ok base hist fins (Some k) got (c\<lparr>cn_peer_seq_nr_acked := pk_seq_nr p\<rparr>)"
      using assms fin by (auto simp: rx_ok_def ack_pos_def at_position_def)
    moreover have "rx c' = rx (c\<lparr>cn_peer_seq_nr_acked := pk_seq_nr p\<rparr>)" using R fin by simp
    ultimately have "rx_ok base hist fins (Some k) got c'" using rx_ok_cong by blast
    then show ?thesis using fin by simp
  qed
qed

lemma take_rx:
  assumes "rx_ok base hist fins fin got c" "take_received c mx = (bs, c')"
  shows "rx_ok base hist fins fin (got @ bs) c'" "cn_state c' = cn_state c"
proof -
  have c': "c' = c\<lparr>cn_in_buf := drop (length bs) (cn_in_buf c)\<rparr>" "bs = take (length bs) (cn_in_buf c)"
    using assms(2) by (auto simp: take_received_def Let_def)
  then have "(got @ bs) @ cn_in_buf c' = got @ cn_in_buf c" by (metis append.assoc append_take_drop_id connection.select_convs(9) connection.surjective connection.update_convs(9))
  then show "rx_ok base hist fins fin (got @ bs) c'"
    using assms(1) unfolding c'(1) by (cases fin) (simp_all add: rx_ok_def ack_pos_def)
  show "cn_state c' = cn_state c" by (simp add: c'(1))
qed

lemma link_step_ok:
  assumes "link_step fl base l l'" "link_ok base l"
  shows "link_ok base l'"
proof -
  have tx: "tx_ok base (ln_hist l) (ln_fins l) (ln_sent l) (ln_snd l)"
    and rcv: "rx_ok base (ln_hist l) (ln_fins l) (ln_fin l) (ln_got l) (ln_rcv l)"
    and st: "cn_state (ln_rcv l) \<noteq> SynSent" and net: "\<forall>p \<in> set (ln_net l). genuine base (ln_hist l) (ln_fins l) p"
    using assms(2) by (auto simp: link_ok_def)
  have keep: "link_ok base (l\<lparr>ln_rcv := c\<rparr>)" if "rx c = rx (ln_rcv l)" "cn_state c \<noteq> SynSent" for c
    using assms(2) that(2) unfolding link_ok_def by (simp add: rx_ok_cong [OF that(1)])
  from assms(1) show ?thesis
  proof cases
    case (SEnqueue b r c)
    then show ?thesis using enqueue_tx(1) [OF tx SEnqueue(2)] assms(2) by (simp add: link_ok_def)
  next
    case (SPump now out c)
    note P = pending_send_tx [OF tx SPump(2)]
    have "\<forall>p \<in> set (ln_net l). genuine base (ln_hist l @ new_data (ln_snd l) c) (ln_fins l + new_fins (ln_snd l) c) p"
      using net P genuine_mono by (metis le_add1)
    moreover have "rx_ok base (ln_hist l @ new_data (ln_snd l) c) (ln_fins l + new_fins (ln_snd l) c) (ln_fin l) (ln_got l) (ln_rcv l)"
      using rx_ok_mono [OF rcv] P by simp
    ultimately show ?thesis using P st by (auto simp: link_ok_def SPump(1))
  next
    case (STick now out c)
    then show ?thesis using tick_tx [OF tx STick(2)] assms(2) by (auto simp: link_ok_def)
  next
    case (SRecv p now r c)
    then show ?thesis using incoming_tx [OF tx SRecv(2)] assms(2) by (simp add: link_ok_def)
  next
    case (STake mx bs c)
    then show ?thesis using take_tx [OF tx STake(2)] assms(2) by (simp add: link_ok_def)
  next
    case SClose
    then show ?thesis using close_tx(1) [OF tx] assms(2) by (simp add: link_ok_def)
  next
    case (RDeliver p k now r c)
    have "cn_state c \<noteq> SynSent" using handle_incoming_tx(4) [OF RDeliver(5)] st by auto
    moreover have "rx_ok base (ln_hist l) (ln_fins l) (if pk_type p = Fin \<and> matches_incoming (ln_rcv l) p then Some k else ln_fin l) (ln_got l) c"
      by (rule incoming_rx [OF rcv RDeliver(5) st _ refl refl]) (use RDeliver(3,4) in blast)
    ultimately show ?thesis using tx net by (simp add: link_ok_def RDeliver(1))
  next
    case (RControl p now r c)
    then have "rx c = rx (ln_rcv l)" using handle_incoming_rx [OF RControl(3)] st by (auto split: packet_type.splits)
    moreover have "cn_state c \<noteq> SynSent" using handle_incoming_tx(4) [OF RControl(3)] st by auto
    ultimately show ?thesis using keep RControl(1) by simp
  next
    case (RTake mx bs c)
    then show ?thesis using take_rx [OF rcv RTake(2)] assms(2) by (simp add: link_ok_def)
  next
    case (REnqueue b r c)
    then show ?thesis using enqueue_frame [OF REnqueue(2)] st keep by simp
  next
    case (RPump now out c)
    then show ?thesis using pending_send_frame [OF RPump(2)] st keep by simp
  next
    case (RTick now out c)
    then show ?thesis using tick_frame [OF RTick(2)] st keep by auto
  next
    case RClose
    then show ?thesis using keep [of "close (ln_rcv l)"] st by (auto simp: close_def rx_def)
  qed
qed

lemma link_start_ok: "link_start fl base l \<Longrightarrow> link_ok base l"
proof (induction rule: link_start.induct)
  case (initiator_sends rid now s syn now' seq r ack)
  then show ?case
    by (auto simp: new_initiator_def new_receiver_with_seq_def Let_def packet_new_def new_link_def link_ok_def tx_ok_def rx_ok_def
        unsent_def genuine_def ack_pos_def btree_get_def btree_ok_def)
next
  case (receiver_sends rid now r syn now' seq s ack now'' x r')
  let ?r = "process_acks fl r ack now''"
  have r: "rx r = (0, [], 0, [])" "cn_state r = SynSent" "matches_incoming r ack" "pk_type ack = State" "pk_seq_nr ack = seq"
    using receiver_sends(1,2)
    by (auto simp: new_initiator_def new_receiver_with_seq_def Let_def packet_new_def rx_def matches_incoming_def)
  then have "r' = ?r\<lparr>cn_state := Connected, cn_peer_seq_nr_acked := seq - 1\<rparr>"
    using receiver_sends(3) process_acks_frame(4) [of fl r ack now''] by (simp add: handle_incoming_def Let_def)
  then have "rx_ok (seq - 1) [] 0 None [] r'" "cn_state r' \<noteq> SynSent"
    using r(1) process_acks_frame(1) [of fl r ack now''] by (auto simp: rx_ok_def rx_def ack_pos_def btree_get_def btree_ok_def)
  moreover have "tx_ok (seq - 1) [] 0 [] s"
    using receiver_sends(2) by (auto simp: new_receiver_with_seq_def Let_def tx_ok_def unsent_def split: if_splits)
  ultimately show ?case by (simp add: link_ok_def new_link_def)
qed

lemma link_invariant: "link_reachable fl base l \<Longrightarrow> link_ok base l"
proof -
  assume "link_reachable fl base l"
  then obtain l0 where start: "link_start fl base l0" and run: "(link_step fl base)\<^sup>*\<^sup>* l0 l" by (auto simp: link_reachable_def)
  from run show ?thesis
    by (induction rule: rtranclp_induct) (use link_start_ok [OF start] link_step_ok in blast)+
qed

text \<open>A complete exchange: handshake, one block, one packet, delivered.\<close>

definition sample_pair :: "(connection \<times> packet) \<times> (connection \<times> packet)" where
  "sample_pair = (let (s, syn) = new_initiator 5 0 in ((s, syn), the (new_receiver_with_seq syn 0 100)))"

definition sample_sender :: connection where
  "sample_sender = snd (handle_incoming (\<lambda>x. x) (fst (fst sample_pair)) (snd (snd sample_pair)) 0)"

definition sample_queued :: connection where "sample_queued = snd (enqueue_send_block sample_sender [7, 8])"

definition sample_pumped :: "packet list \<times> connection" where
  "sample_pumped = pending_send_packets (\<lambda>x. x) sample_queued 0"

definition sample_received :: connection where
  "sample_received = snd (handle_incoming (\<lambda>x. x) (fst (snd sample_pair)) (hd (fst sample_pumped)) 0)"

lemmas sample_link_defs = sample_pair_def sample_sender_def sample_queued_def sample_pumped_def sample_received_def
  new_initiator_def new_receiver_with_seq_def packet_new_def handle_incoming_def matches_incoming_def process_acks_def
  confirm_return_path_def seq_le_def enqueue_send_block_def pending_send_packets_def is_closed_def fast_retransmit_def
  window_packets_def ledbat_new_def INITIAL_WINDOW_PACKETS_def MAX_DATA_PAYLOAD_def push_out_def out_packet_def
  payload_slice_def receive_data_def Let_def

lemma unat_minus_1_u16: "unat (- 1 :: u16) = 65535"
  by (simp add: unsigned_minus_1_eq_mask mask_eq_exp_minus_1)

lemma sample_values:
  "fst sample_pumped = [out_packet (sample_queued\<lparr>cn_out_blocks := [], cn_out_len := 0\<rparr>) Data [7, 8]]"
  "new_data sample_queued (snd sample_pumped) = [[7, 8]]" "new_fins sample_queued (snd sample_pumped) = 0"
  "cn_in_buf sample_received = [7, 8]"
  by (simp_all add: sample_link_defs packetize.simps new_data_def new_fins_def new_packets_def drain_pending_in.simps RECV_WINDOW_BYTES_def btree_get_def unat_minus_1_u16)

lemma sample_exchange:
  "\<exists>l. link_reachable (\<lambda>x. x) 1 l \<and> ln_got l = [7, 8] \<and> ln_sent l = [7, 8]"
proof -
  obtain s syn r ack where pair: "sample_pair = ((s, syn), (r, ack))" by (metis surj_pair)
  let ?fl = "\<lambda>x :: real. x" and ?p = "hd (fst sample_pumped)"
  have start: "link_start ?fl 1 (new_link s r [syn])"
    using pair by (intro initiator_sends [of 5 0 s syn 0 100 r ack]) (auto simp: sample_pair_def new_receiver_with_seq_def Let_def new_initiator_def packet_new_def)
  let ?l0 = "new_link s r [syn]"
  let ?l1 = "?l0\<lparr>ln_snd := sample_sender\<rparr>"
  let ?l2 = "?l1\<lparr>ln_snd := sample_queued, ln_sent := [7, 8]\<rparr>"
  let ?l3 = "?l2\<lparr>ln_snd := snd sample_pumped, ln_net := [syn, ?p], ln_hist := [[7, 8]], ln_fins := 0\<rparr>"
  let ?l4 = "?l3\<lparr>ln_rcv := sample_received, ln_fin := None\<rparr>"
  let ?l5 = "?l4\<lparr>ln_rcv := sample_received\<lparr>cn_in_buf := []\<rparr>, ln_got := [7, 8]\<rparr>"
  have "handle_incoming ?fl (ln_snd ?l0) ack 0 = (fst (handle_incoming ?fl s ack 0), sample_sender)"
    by (simp add: sample_sender_def new_link_def pair)
  then have 1: "link_step ?fl 1 ?l0 ?l1" by (rule SRecv)
  have "enqueue_send_block sample_sender [7, 8] = (True, sample_queued)"
    by (simp add: sample_link_defs unat_minus_1_u16)
  then have 2: "link_step ?fl 1 ?l1 ?l2" using SEnqueue [of ?l1 "[7, 8]" True sample_queued ?fl 1] by (simp add: new_link_def)
  have "pending_send_packets ?fl (ln_snd ?l2) 0 = (fst sample_pumped, snd sample_pumped)" by (simp add: sample_pumped_def)
  from SPump [OF this, of 1] have 3: "link_step ?fl 1 ?l2 ?l3" using sample_values(1-3) by (simp add: new_link_def)
  have p: "?p = out_packet (sample_queued\<lparr>cn_out_blocks := [], cn_out_len := 0\<rparr>) Data [7, 8]" by (simp add: sample_values(1))
  have "at_position 1 ?l3 1 ?p" "near 0 1"
    by (simp_all add: p at_position_def near_def new_link_def) (simp add: sample_link_defs unat_minus_1_u16)
  moreover have "cn_peer_logical_acked r = 0" using pair by (auto simp: sample_link_defs)
  moreover have "handle_incoming ?fl (ln_rcv ?l3) ?p 0 = (fst (handle_incoming ?fl r ?p 0), sample_received)"
    by (simp add: sample_received_def new_link_def pair)
  moreover have "pk_type ?p = Data" by (simp add: p out_packet_def)
  ultimately have 4: "link_step ?fl 1 ?l3 ?l4"
    using RDeliver [of ?p ?l3 1 1 ?fl 0 "fst (handle_incoming ?fl r ?p 0)" sample_received] by (simp add: new_link_def ack_pos_def)
  have 5: "link_step ?fl 1 ?l4 ?l5"
    using RTake [of ?l4 10 "[7, 8]" "sample_received\<lparr>cn_in_buf := []\<rparr>" ?fl 1] sample_values(4)
    by (simp add: take_received_def new_link_def)
  have "(link_step ?fl 1)\<^sup>*\<^sup>* ?l0 ?l5" using 1 2 3 4 5 by (meson converse_rtranclp_into_rtranclp rtranclp.rtrancl_refl)
  then show ?thesis using start by (intro exI [of _ ?l5]) (auto simp: link_reachable_def new_link_def)
qed



end
