(* ===== verification/RT_Utp_Run.thy ===== *)
theory RT_Utp_Run
  imports RT_Utp_Link
begin

text \<open>
  One uTP connection under an arbitrary peer and an arbitrary local application: what bounds its memory, its
  window and its lifetime, and what opens the accept gate.
\<close>

section \<open>Runs of one connection\<close>

text \<open>\<open>mx\<close> bounds the payloads the peer sends, in practice the size of a datagram.\<close>

inductive conn_new :: "int \<Rightarrow> connection \<Rightarrow> bool" for now where
  initiated: "new_initiator rid now = (c, syn) \<Longrightarrow> conn_new now c"
| accepted: "new_receiver_with_seq syn now seq = Some (c, ack) \<Longrightarrow> conn_new now c"

inductive conn_step :: "(real \<Rightarrow> real) \<Rightarrow> nat \<Rightarrow> connection \<Rightarrow> connection \<Rightarrow> bool" for fl mx where
  Incoming: "length (pk_payload p) \<le> mx \<Longrightarrow> handle_incoming fl c p now = (r, c') \<Longrightarrow> conn_step fl mx c c'"
| Enqueue: "enqueue_send_block c b = (r, c') \<Longrightarrow> conn_step fl mx c c'"
| Pump: "pending_send_packets fl c now = (out, c') \<Longrightarrow> conn_step fl mx c c'"
| Tick: "utp_tick c now = (out, c') \<Longrightarrow> conn_step fl mx c c'"
| Take: "take_received c n = (bs, c') \<Longrightarrow> conn_step fl mx c c'"
| Close: "conn_step fl mx c (close c)"

abbreviation conn_run :: "(real \<Rightarrow> real) \<Rightarrow> nat \<Rightarrow> int \<Rightarrow> connection \<Rightarrow> bool" where
  "conn_run fl mx now c \<equiv> \<exists>c0. conn_new now c0 \<and> (conn_step fl mx)\<^sup>*\<^sup>* c0 c"

lemma conn_run_induct [consumes 1, case_names new step]:
  assumes "conn_run fl mx now c" "\<And>c. conn_new now c \<Longrightarrow> P c" "\<And>c c'. P c \<Longrightarrow> conn_step fl mx c c' \<Longrightarrow> P c'"
  shows "P c"
proof -
  from assms(1) obtain c0 where "conn_new now c0" "(conn_step fl mx)\<^sup>*\<^sup>* c0 c" by blast
  from this(2) show ?thesis by (induction rule: rtranclp_induct) (use assms(2,3) \<open>conn_new now c0\<close> in blast)+
qed

lemma conn_new_values:
  "conn_new now c \<Longrightarrow> cn_deadline c = now + HARD_TIMEOUT \<and> rx c = (fst (rx c), [], 0, []) \<and> length (cn_in_flight c) \<le> 1 \<and> cn_cc c = ledbat_new"
  by (induction rule: conn_new.induct)
    (auto simp: new_initiator_def new_receiver_with_seq_def Let_def rx_def split: if_splits)

section \<open>Receive-side memory\<close>

definition rx_bounded :: "nat \<Rightarrow> connection \<Rightarrow> bool" where
  "rx_bounded mx c \<longleftrightarrow> length (cn_in_buf c) \<le> RECV_WINDOW_BYTES - 1 + mx \<and> length (cn_pending_in c) \<le> MAX_PENDING_IN \<and>
     btree_ok (cn_pending_in c) \<and> (\<forall>e \<in> set (cn_pending_in c). length (snd e) \<le> mx)"

lemma rx_bounded_cong: "rx c' = rx c \<Longrightarrow> rx_bounded mx c \<Longrightarrow> rx_bounded mx c'"
  by (simp add: rx_bounded_def rx_def)

lemma btree_insert_subset: "set (btree_insert k v m) \<subseteq> insert (k, v) (set m)"
  by (induction k v m rule: btree_insert.induct) auto

lemma btree_insert_length: "length (btree_insert k v m) \<le> Suc (length m)"
  by (induction k v m rule: btree_insert.induct) auto

lemma btree_overwrite_length: "btree_ok m \<Longrightarrow> btree_get m k \<noteq> None \<Longrightarrow> length (btree_insert k v m) = length m"
  by (induction k v m rule: btree_insert.induct) (force simp: btree_ok_def btree_get_def dest: map_of_SomeD split: if_splits)+

lemma drain_bounded: "rx_bounded mx c \<Longrightarrow> rx_bounded mx (drain_pending_in c)"
proof (induction c rule: drain_pending_in.induct)
  case (1 c)
  let ?k = "cn_peer_logical_acked c + 1"
  show ?case
  proof (cases "length (cn_in_buf c) < RECV_WINDOW_BYTES \<and> btree_get (cn_pending_in c) ?k \<noteq> None")
    case False
    then have "drain_pending_in c = c" by (subst drain_pending_in.simps) (auto split: option.splits)
    then show ?thesis using 1(2) by simp
  next
    case True
    then obtain buf where buf: "btree_get (cn_pending_in c) ?k = Some buf" by auto
    let ?c = "c\<lparr>cn_pending_in := btree_remove ?k (cn_pending_in c), cn_in_buf := cn_in_buf c @ buf,
       cn_peer_seq_nr_acked := cn_peer_seq_nr_acked c + 1, cn_peer_logical_acked := ?k\<rparr>"
    have eq: "drain_pending_in c = drain_pending_in ?c" using True buf by (subst drain_pending_in.simps) simp
    have ok: "btree_ok (cn_pending_in c)" using 1(2) by (simp add: rx_bounded_def)
    have "(?k, buf) \<in> set (cn_pending_in c)" using buf by (simp add: btree_get_iff [OF ok])
    then have "length buf \<le> mx" using 1(2) unfolding rx_bounded_def by fastforce
    moreover have "length (btree_remove ?k (cn_pending_in c)) \<le> length (cn_pending_in c)" "set (btree_remove ?k (cn_pending_in c)) \<subseteq> set (cn_pending_in c)"
      by (auto simp: btree_remove_def)
    ultimately have "rx_bounded mx ?c"
      using 1(2) True btree.ok_rem [OF ok, of ?k] unfolding rx_bounded_def by auto
    then have "rx_bounded mx (drain_pending_in ?c)" using 1(1) [OF _ buf] True by blast
    then show ?thesis unfolding eq .
  qed
qed

lemma receive_data_bounded:
  assumes "rx_bounded mx c" "length (pk_payload p) \<le> mx"
  shows "rx_bounded mx (receive_data c p)"
proof -
  let ?k = "cn_peer_logical_acked c + unat (pk_seq_nr p - cn_peer_seq_nr_acked c)"
  have ok: "btree_ok (cn_pending_in c)" using assms(1) by (simp add: rx_bounded_def)
  have ins: "rx_bounded mx (c\<lparr>cn_pending_in := btree_insert ?k (pk_payload p) (cn_pending_in c)\<rparr>)"
    if "btree_get (cn_pending_in c) ?k \<noteq> None \<or> length (cn_pending_in c) < MAX_PENDING_IN"
  proof -
    have "length (btree_insert ?k (pk_payload p) (cn_pending_in c)) \<le> MAX_PENDING_IN"
      using that assms(1) btree_overwrite_length [OF ok, of ?k "pk_payload p"] btree_insert_length [of ?k "pk_payload p" "cn_pending_in c"]
      by (auto simp: rx_bounded_def)
    then show ?thesis using assms ok btree_insert_subset [of ?k "pk_payload p" "cn_pending_in c"] by (auto simp: rx_bounded_def)
  qed
  have app: "rx_bounded mx (c\<lparr>cn_in_buf := cn_in_buf c @ pk_payload p, cn_peer_seq_nr_acked := pk_seq_nr p,
      cn_peer_logical_acked := cn_peer_logical_acked c + 1\<rparr>)" if "length (cn_in_buf c) < RECV_WINDOW_BYTES"
    using assms that by (auto simp: rx_bounded_def)
  show ?thesis using assms(1) ins drain_bounded [OF app] by (simp add: receive_data_def Let_def not_le)
qed

lemma step_bounded:
  assumes "conn_step fl mx c c'" "rx_bounded mx c"
  shows "rx_bounded mx c'"
  using assms(1)
proof cases
  case (Incoming p now r)
  note R = handle_incoming_rx [OF Incoming(2)]
  have "rx_bounded mx (receive_data (process_acks fl c p now) p)"
    by (rule receive_data_bounded [OF rx_bounded_cong [OF process_acks_frame(1) assms(2)] Incoming(1)])
  moreover have "rx_bounded mx (c\<lparr>cn_peer_seq_nr_acked := a\<rparr>)" for a using assms(2) by (simp add: rx_bounded_def)
  ultimately show ?thesis
    using R assms(2) rx_bounded_cong by (cases "pk_type p") (auto split: if_splits)
next
  case (Take n bs)
  then show ?thesis using assms(2) by (auto simp: take_received_def Let_def rx_bounded_def)
qed (use assms(2) rx_bounded_cong enqueue_frame pending_send_frame tick_frame close_tx(2) in blast)+

lemma stash_bytes: "(\<forall>e \<in> set m. length (snd e) \<le> mx) \<Longrightarrow> sum_list (map (\<lambda>(_, p). length p) m) \<le> length m * mx"
  by (induction m) (auto simp: case_prod_beta)

text \<open>
  C10: whatever the peer sends and however slowly the application reads, the bytes a connection holds for the
  application stay within the receive window, one payload, and the stash of at most 874 payloads.
\<close>

theorem receive_memory_bounded:
  assumes "conn_run fl mx now c"
  shows "length (cn_in_buf c) \<le> RECV_WINDOW_BYTES - 1 + mx \<and> length (cn_pending_in c) \<le> MAX_PENDING_IN \<and>
    undelivered_receive_bytes c \<le> RECV_WINDOW_BYTES - 1 + mx + MAX_PENDING_IN * mx"
proof -
  have "rx_bounded mx c"
    using assms
  proof (induction rule: conn_run_induct)
    case (new c)
    then show ?case using conn_new_values [of now c] by (auto simp: rx_def rx_bounded_def btree_ok_def)
  qed (use step_bounded in blast)
  then have b: "length (cn_in_buf c) \<le> RECV_WINDOW_BYTES - 1 + mx" "length (cn_pending_in c) \<le> MAX_PENDING_IN"
    "\<forall>e \<in> set (cn_pending_in c). length (snd e) \<le> mx" by (auto simp: rx_bounded_def)
  have "sum_list (map (\<lambda>(_, p). length p) (cn_pending_in c)) \<le> MAX_PENDING_IN * mx"
    using stash_bytes [OF b(3)] mult_le_mono1 [OF b(2), of mx] by linarith
  then show ?thesis using b(1,2) by (simp add: undelivered_receive_bytes_def)
qed

theorem receive_memory_bounded_witness:
  "\<exists>c. conn_run (\<lambda>x. x) 1200 0 c \<and> undelivered_receive_bytes c \<le> RECV_WINDOW_BYTES - 1 + 1200 + MAX_PENDING_IN * 1200"
proof -
  have "conn_run (\<lambda>x. x) 1200 0 (fst (new_initiator 5 0))"
    using initiated [of 5 0 "fst (new_initiator 5 0)" "snd (new_initiator 5 0)"] by auto
  then show ?thesis using receive_memory_bounded by blast
qed

section \<open>Lifetime\<close>

lemma step_deadline: "conn_step fl mx c c' \<Longrightarrow> cn_deadline c' = cn_deadline c"
proof (induction rule: conn_step.induct)
  case (Incoming p c now r c')
  then show ?case by (simp add: handle_incoming_tx(3))
next
  case (Take c n bs c')
  then show ?case by (auto simp: take_received_def Let_def)
qed (auto simp: close_def dest: enqueue_frame pending_send_frame tick_frame)

text \<open>
  C13: no operation moves the deadline, so the first timer tick 60 seconds or more after a connection was
  created resets it, however recently data or acknowledgements passed.
\<close>

theorem deadline_is_fixed:
  assumes "conn_run fl mx created c" "created + HARD_TIMEOUT \<le> now" "\<not> is_closed c"
  shows "utp_tick c now = ([], c\<lparr>cn_state := ResetState\<rparr>)"
proof -
  have "cn_deadline c = created + HARD_TIMEOUT"
    using assms(1)
  proof (induction rule: conn_run_induct)
    case (new c)
    then show ?case using conn_new_values by blast
  qed (simp add: step_deadline)
  then show ?thesis using assms(2,3) by (simp add: utp_tick_def)
qed

theorem deadline_is_fixed_witness:
  "\<exists>c. conn_run (\<lambda>x. x) 1200 0 c \<and> cn_state c = Connected \<and> utp_tick c 60000 = ([], c\<lparr>cn_state := ResetState\<rparr>)"
proof -
  have "conn_run (\<lambda>x. x) 1200 0 sample_sender"
  proof (intro exI conjI)
    show "conn_new 0 (fst (fst sample_pair))"
      using initiated [of 5 0 "fst (new_initiator 5 0)" "snd (new_initiator 5 0)"] by (simp add: sample_pair_def case_prod_beta)
    have "length (pk_payload (snd (snd sample_pair))) \<le> 1200" by (simp add: sample_link_defs)
    then have "conn_step (\<lambda>x. x) 1200 (fst (fst sample_pair)) sample_sender"
      unfolding sample_sender_def by (rule Incoming [OF _ surjective_pairing])
    then show "(conn_step (\<lambda>x. x) 1200)\<^sup>*\<^sup>* (fst (fst sample_pair)) sample_sender" by blast
  qed
  moreover have st: "cn_state sample_sender = Connected" by (simp add: sample_link_defs)
  moreover have "utp_tick sample_sender 60000 = ([], sample_sender\<lparr>cn_state := ResetState\<rparr>)"
    by (rule deadline_is_fixed [OF calculation(1)]) (simp_all add: HARD_TIMEOUT_def is_closed_def st)
  ultimately show ?thesis by blast
qed

section \<open>The send window\<close>

text \<open>What the window relies on of \<open>f64\<close> arithmetic: rounding is monotone and exact on small integers.\<close>

definition ieee_rounding :: "(real \<Rightarrow> real) \<Rightarrow> bool" where
  "ieee_rounding fl \<longleftrightarrow> mono fl \<and> (\<forall>n \<le> 2 ^ 53. fl (of_nat n) = of_nat n)"

definition cwnd_ok :: "ledbat \<Rightarrow> bool" where
  "cwnd_ok lb \<longleftrightarrow> LEDBAT_MIN_WINDOW \<le> lb_cwnd_bytes lb \<and> lb_cwnd_bytes lb \<le> LEDBAT_MAX_WINDOW"

lemma on_ack_cwnd: "cwnd_ok lb \<Longrightarrow> cwnd_ok (on_ack fl lb sample n w now)"
  by (auto simp: on_ack_def cwnd_ok_def Let_def clamp_def LEDBAT_MIN_WINDOW_def LEDBAT_MAX_WINDOW_def
      split: prod.splits)

lemma window_le:
  assumes "ieee_rounding fl" "cwnd_ok lb" "window_packets fl lb = Some w"
  shows "2 \<le> w \<and> w \<le> MAX_PENDING_IN"
proof -
  let ?x = "lb_cwnd_bytes lb / of_nat MAX_DATA_PAYLOAD"
  have "?x \<le> 874" using assms(2) by (simp add: cwnd_ok_def LEDBAT_MAX_WINDOW_def MAX_DATA_PAYLOAD_def)
  then have "fl ?x \<le> fl 874" using assms(1) by (auto simp: ieee_rounding_def mono_def)
  moreover have "(874 :: nat) \<le> 2 ^ 53" by simp
  then have "fl (of_nat 874) = of_nat 874" using assms(1) unfolding ieee_rounding_def by blast
  ultimately have "\<lfloor>fl ?x\<rfloor> \<le> 874" by (simp add: floor_le_iff)
  then have "nat \<lfloor>fl ?x\<rfloor> \<le> 874" by linarith
  then show ?thesis using assms(3) by (auto simp: window_packets_def MAX_PENDING_IN_def RECV_WINDOW_BYTES_def MAX_DATA_PAYLOAD_def split: if_splits)
qed

abbreviation types :: "connection \<Rightarrow> packet_type list" where
  "types c \<equiv> map (\<lambda>e. pk_type (if_packet e)) (cn_in_flight c)"

text \<open>At most 874 packets other than the FIN, and at most one FIN.\<close>

definition flight_ok :: "connection \<Rightarrow> bool" where
  "flight_ok c \<longleftrightarrow> length (filter (\<lambda>t. t \<noteq> Fin) (types c)) \<le> MAX_PENDING_IN \<and> length (filter (\<lambda>t. t = Fin) (types c)) \<le> 1 \<and> cwnd_ok (cn_cc c)"

lemma flight_ok_subseq: "flight_ok c \<Longrightarrow> subseq (types c') (types c) \<Longrightarrow> cwnd_ok (cn_cc c') \<Longrightarrow> flight_ok c'"
  unfolding flight_ok_def by (meson le_trans list_emb_length subseq_filter)

lemma free_acked_subseq: "free_acked a es = (n, rest) \<Longrightarrow> subseq rest es"
  by (induction es arbitrary: n rest) (auto split: if_splits prod.splits)

lemma subseq_types: "subseq (cn_in_flight c') (cn_in_flight c) \<Longrightarrow> subseq (types c') (types c)"
  by (rule subseq_map)

lemma process_acks_flight: "subseq (cn_in_flight (process_acks fl c p now)) (cn_in_flight c)"
  "cwnd_ok (cn_cc c) \<Longrightarrow> cwnd_ok (cn_cc (process_acks fl c p now))"
proof -
  obtain n rest k c2 where f: "free_acked (pk_ack_nr p) (cn_in_flight c) = (n, rest)"
    and c2: "c2 = confirm_return_path (c\<lparr>cn_in_flight := rest\<rparr>) p \<or>
      (\<exists>m dat. process_sack (confirm_return_path (c\<lparr>cn_in_flight := rest\<rparr>) p) (pk_ack_nr p) dat = (m, c2))"
    and eq: "process_acks fl c p now =
      (if k > 0 then c2\<lparr>cn_cc := on_ack fl (cn_cc c2) (unat (pk_timestamp_diff p)) k (unat (pk_wnd_size p)) now\<rparr> else c2)"
    by (rule process_acks_split)
  have cc: "cn_cc (confirm_return_path c p) = cn_cc c" for c
    by (auto simp: confirm_return_path_def Let_def split: option.splits)
  have "subseq (cn_in_flight c2) rest \<and> cn_cc c2 = cn_cc c"
    using c2 process_sack_frame(3,6) by (auto simp: confirm_return_path_frame cc)
  then have c2': "subseq (cn_in_flight c2) (cn_in_flight c)" "cn_cc c2 = cn_cc c"
    using free_acked_subseq [OF f] subseq_order.order_trans by blast+
  show "subseq (cn_in_flight (process_acks fl c p now)) (cn_in_flight c)"
    "cwnd_ok (cn_cc c) \<Longrightarrow> cwnd_ok (cn_cc (process_acks fl c p now))"
    using c2' on_ack_cwnd by (auto simp: eq)
qed

lemma receive_data_cc: "cn_cc (receive_data c p) = cn_cc c"
proof -
  have "cn_cc (drain_pending_in c) = cn_cc c" for c
  proof (induction c rule: drain_pending_in.induct)
    case (1 c)
    then show ?case by (subst drain_pending_in.simps) (auto split: option.splits)
  qed
  then show ?thesis by (auto simp: receive_data_def Let_def)
qed

lemma incoming_flight:
  assumes "handle_incoming fl c p now = (r, c')" "flight_ok c"
  shows "flight_ok c'"
proof -
  have "cn_in_flight c' = cn_in_flight c \<and> cn_cc c' = cn_cc c \<or>
      cn_in_flight c' = cn_in_flight (process_acks fl c p now) \<and> cn_cc c' = cn_cc (process_acks fl c p now)"
    using assms(1) by (auto simp: handle_incoming_def Let_def receive_data_frame receive_data_cc split: if_splits packet_type.splits)
  then have "subseq (cn_in_flight c') (cn_in_flight c) \<and> (cwnd_ok (cn_cc c) \<longrightarrow> cwnd_ok (cn_cc c'))"
    using process_acks_flight by auto
  then show ?thesis using flight_ok_subseq [OF assms(2)] subseq_types assms(2) by (auto simp: flight_ok_def)
qed

lemma resend_types: "resend_loop a now es = (out, es') \<Longrightarrow> map (\<lambda>e. pk_type (if_packet e)) es' = map (\<lambda>e. pk_type (if_packet e)) es"
  by (induction es arbitrary: out es') (auto simp: Let_def split: if_splits prod.splits)

lemma packetize_types:
  "packetize w now c out = (out', c') \<Longrightarrow>
     \<exists>n. types c' = types c @ replicate n Data \<and> (n = 0 \<or> length (types c) + n \<le> w) \<and> cn_cc c' = cn_cc c"
proof (induction w now c out arbitrary: out' c' rule: packetize.induct)
  case (1 w now c out)
  show ?case
  proof (cases "cn_out_len c > 0 \<and> length (cn_in_flight c) < w \<and> cn_out_blocks c \<noteq> []")
    case False
    then have "c' = c" using 1(2) by (auto simp: packetize.simps [of w now c] split: list.splits if_splits)
    then show ?thesis by (intro exI [of _ 0]) simp
  next
    case True
    then obtain b bs where b: "cn_out_blocks c = b # bs" by (cases "cn_out_blocks c") auto
    have guard: "0 < cn_out_len c \<and> length (cn_in_flight c) < w" using True by blast
    define n where n: "n = min (length b - cn_out_head c) MAX_DATA_PAYLOAD"
    define p where "p = out_packet (advance c b bs n) Data (payload_slice b (cn_out_head c) n)"
    let ?c = "push_out (advance c b bs n) p now"
    have "packetize w now ?c (out @ [p]) = (out', c')"
      using 1(2) packetize_Cons [OF _ _ b n, of w now out] True by (simp add: p_def)
    then obtain m where m: "types c' = types ?c @ replicate m Data" "m = 0 \<or> length (types ?c) + m \<le> w" "cn_cc c' = cn_cc ?c"
      using 1(1) [OF guard b n refl refl refl] by (simp add: p_def advance_def Let_def) blast
    have "types ?c = types c @ [Data]" "cn_cc ?c = cn_cc c"
      by (simp_all add: push_out_def advance_def Let_def p_def out_packet_def)
    then show ?thesis using m True by (intro exI [of _ "Suc m"]) auto
  qed
qed

lemma pump_flight:
  assumes "ieee_rounding fl" "pending_send_packets fl c now = (out, c')" "flight_ok c"
  shows "flight_ok c'"
proof (cases "is_closed c \<or> cn_state c = SynSent \<or> cn_state c = SynReceived")
  case True
  then have "c' = c" using assms(2) by (auto simp: pending_send_packets_def split: if_splits)
  then show ?thesis using assms(3) by simp
next
  case False
  obtain o1 c1 where f: "fast_retransmit c now = (o1, c1)" by fastforce
  let ?w = "case window_packets fl (cn_cc c1) of Some w \<Rightarrow> w | None \<Rightarrow> INITIAL_WINDOW_PACKETS"
  obtain o2 c2 where pk: "packetize ?w now c1 o1 = (o2, c2)" by fastforce
  have c1: "types c1 = types c" "cn_cc c1 = cn_cc c"
    using f by (auto simp: fast_retransmit_def Let_def map_update list_update_same_conv dest: position_SomeD split: option.splits)
  have w: "?w \<le> MAX_PENDING_IN"
    using window_le [OF assms(1)] assms(3) c1(2)
    by (auto simp: flight_ok_def INITIAL_WINDOW_PACKETS_def MAX_PENDING_IN_def RECV_WINDOW_BYTES_def MAX_DATA_PAYLOAD_def split: option.splits)
  obtain n where n: "types c2 = types c @ replicate n Data" "n = 0 \<or> length (types c) + n \<le> ?w" "cn_cc c2 = cn_cc c"
    using packetize_types [OF pk] unfolding c1 by blast
  have fins: "length (filter (\<lambda>t. t = Fin) (types c2)) = length (filter (\<lambda>t. t = Fin) (types c))" unfolding n(1) by simp
  have data: "length (filter (\<lambda>t. t \<noteq> Fin) (types c2)) \<le> MAX_PENDING_IN"
  proof (cases "n = 0")
    case True
    then show ?thesis using assms(3) by (simp add: flight_ok_def n(1))
  next
    case False
    have "length (filter (\<lambda>t. t \<noteq> Fin) (types c2)) = length (filter (\<lambda>t. t \<noteq> Fin) (types c)) + n" unfolding n(1) by simp
    also have "\<dots> \<le> length (types c) + n" by (rule add_right_mono) (rule length_filter_le)
    finally show ?thesis using n(2) w False by linarith
  qed
  show ?thesis
  proof (cases "cn_state c2 = FinSent \<and> cn_out_len c2 = 0 \<and> \<not> list_ex (\<lambda>e. pk_type (if_packet e) = Fin) (cn_in_flight c2)")
    case True
    then have "c' = push_out c2 (out_packet c2 Fin []) now"
      using assms(2) False f pk by (auto simp: pending_send_packets_def Let_def)
    then have "types c' = types c2 @ [Fin]" "cn_cc c' = cn_cc c2" by (simp_all add: push_out_def out_packet_def)
    moreover have "filter (\<lambda>t. t = Fin) (types c2) = []" using True by (auto simp: filter_empty_conv list_ex_iff)
    ultimately show ?thesis using data n(3) assms(3) by (simp add: flight_ok_def)
  next
    case no: False
    then have "c' = c2" using assms(2) False f pk by (auto simp: pending_send_packets_def Let_def)
    then show ?thesis using data fins n(3) assms(3) by (simp add: flight_ok_def)
  qed
qed

lemma step_flight: "conn_step fl mx c c' \<Longrightarrow> ieee_rounding fl \<Longrightarrow> flight_ok c \<Longrightarrow> flight_ok c'"
proof (induction rule: conn_step.induct)
  case (Tick c now out c')
  obtain o1 es' where r: "resend_loop (cn_peer_seq_nr_acked c) now (cn_in_flight c) = (o1, es')" by fastforce
  have "types c' = types c \<and> cn_cc c' = cn_cc c"
    using Tick(1) resend_types [OF r] by (auto simp: utp_tick_def r split: if_splits)
  then show ?case using Tick(3) by (simp add: flight_ok_def)
next
  case (Close c)
  then show ?case by (simp add: close_def flight_ok_def)
next
  case (Enqueue c b r c')
  then show ?case by (auto simp: enqueue_send_block_def flight_ok_def split: if_splits)
next
  case (Take c n bs c')
  then show ?case by (auto simp: take_received_def Let_def flight_ok_def)
qed (blast intro: incoming_flight pump_flight)+

text \<open>
  C11: for any rounding that is monotone and exact on integers, the congestion window stays between two packets
  and the receive window, and at most 874 unacknowledged packets and one FIN are ever in flight.
\<close>

theorem in_flight_bounded:
  assumes "ieee_rounding fl" "conn_run fl mx created c"
  shows "length (cn_in_flight c) \<le> MAX_PENDING_IN + 1 \<and> 2400 \<le> lb_cwnd_bytes (cn_cc c) \<and> lb_cwnd_bytes (cn_cc c) \<le> 1048576"
proof -
  have "flight_ok c"
    using assms(2)
  proof (induction rule: conn_run_induct)
    case (new c)
    have "length (types c) \<le> 1" "cn_cc c = ledbat_new" using conn_new_values [OF new] by auto
    moreover have "length (filter P (types c)) \<le> length (types c)" for P by (rule length_filter_le)
    moreover have "cwnd_ok ledbat_new" by (simp add: cwnd_ok_def ledbat_new_def LEDBAT_MIN_WINDOW_def LEDBAT_MAX_WINDOW_def INITIAL_WINDOW_PACKETS_def MAX_DATA_PAYLOAD_def)
    moreover have "1 \<le> MAX_PENDING_IN" by (simp add: MAX_PENDING_IN_def)
    ultimately show ?case unfolding flight_ok_def by (metis le_trans)
  qed (use step_flight assms(1) in blast)
  moreover have "length (cn_in_flight c) = length (filter (\<lambda>t. t \<noteq> Fin) (types c)) + length (filter (\<lambda>t. t = Fin) (types c))"
    using sum_length_filter_compl [of "\<lambda>t. t = Fin" "types c"] by simp
  ultimately show ?thesis by (simp add: flight_ok_def cwnd_ok_def LEDBAT_MIN_WINDOW_def LEDBAT_MAX_WINDOW_def)
qed

theorem in_flight_bounded_witness:
  "\<exists>c. conn_run (\<lambda>x. x) 1200 0 c \<and> cn_in_flight c \<noteq> [] \<and> length (cn_in_flight c) \<le> MAX_PENDING_IN + 1"
proof -
  let ?c = "fst (new_initiator 5 0)"
  have "conn_run (\<lambda>x. x) 1200 0 ?c" using initiated [of 5 0 ?c "snd (new_initiator 5 0)"] by auto
  moreover have "ieee_rounding (\<lambda>x. x)" by (simp add: ieee_rounding_def mono_def)
  moreover have "cn_in_flight ?c \<noteq> []" by (simp add: new_initiator_def Let_def)
  ultimately show ?thesis using in_flight_bounded by blast
qed

section \<open>The accept gate\<close>

lemma half_space: "unat d \<le> 32768 \<and> unat (- d) \<le> 32768 \<longleftrightarrow> d = 0 \<or> d = (32768 :: u16)"
proof -
  have "uint (- d) = (- uint d) mod 65536" by (simp add: uint_word_ariths)
  moreover have lt: "uint d < 65536" using uint_lt2p [of d] by simp
  moreover have "0 \<le> uint d" by simp
  ultimately have neg: "uint (- d) = (if uint d = 0 then 0 else 65536 - uint d)"
    using mod_pos_pos_trivial [of "uint d" 65536] by (simp only: zmod_zminus1_eq_if)
  have le: "unat x \<le> 32768 \<longleftrightarrow> uint x \<le> 32768" for x :: u16
    using uint_nat [of x] by linarith
  have arith: "u \<le> 32768 \<and> (if u = 0 then 0 else 65536 - u) \<le> 32768 \<longleftrightarrow> u = 0 \<or> u = 32768" if "u < 65536" for u :: int
    by auto
  have "d = 32768 \<longleftrightarrow> uint d = uint (32768 :: u16)" "d = 0 \<longleftrightarrow> uint d = uint (0 :: u16)" by (rule word_uint_eq_iff)+
  moreover have "uint (32768 :: u16) = 32768" "uint (0 :: u16) = 0" by simp_all
  ultimately show ?thesis unfolding le neg using arith [OF lt] by metis
qed

lemma seq_le_both: "seq_le a b \<and> seq_le b a \<longleftrightarrow> b = a \<or> b = a + 32768"
  using half_space [of "b - a"] unfolding seq_le_def by (auto simp: algebra_simps)

lemma confirmed_frame:
  "cn_return_path_confirmed (receive_data c p) = cn_return_path_confirmed c"
  "cn_return_path_confirmed (process_acks fl c p now) =
     cn_return_path_confirmed (confirm_return_path (c\<lparr>cn_in_flight := snd (free_acked (pk_ack_nr p) (cn_in_flight c))\<rparr>) p)"
proof -
  have "cn_return_path_confirmed (drain_pending_in c) = cn_return_path_confirmed c" for c
  proof (induction c rule: drain_pending_in.induct)
    case (1 c)
    then show ?case by (subst drain_pending_in.simps) (auto split: option.splits)
  qed
  then show "cn_return_path_confirmed (receive_data c p) = cn_return_path_confirmed c" by (auto simp: receive_data_def Let_def)
  show "cn_return_path_confirmed (process_acks fl c p now) =
     cn_return_path_confirmed (confirm_return_path (c\<lparr>cn_in_flight := snd (free_acked (pk_ack_nr p) (cn_in_flight c))\<rparr>) p)"
    by (rule process_acks_split [of p c fl now]) (use process_sack_frame(7) in \<open>auto split: if_splits\<close>)
qed

text \<open>
  C12: an inbound connection that has sent no data confirms its return path on a packet exactly when the
  packet is addressed to it, is neither SYN nor RESET, and acknowledges one of two of the 65536 sequence
  numbers: the one before the random token, or the one half the space away from it.
\<close>

theorem accept_gate:
  assumes "new_receiver_with_seq syn created token = Some (c, ack)" "handle_incoming fl c p now = (r, c')"
  shows "cn_return_path_confirmed c' \<longleftrightarrow>
    pk_connection_id p = pk_connection_id syn + 1 \<and> pk_type p \<notin> {Syn, Reset} \<and> pk_ack_nr p \<in> {token - 1, token + 32767}"
proof -
  have c: "cn_accept_token c = Some token" "cn_next_seq_nr c = token" "\<not> cn_return_path_confirmed c" "cn_in_flight c = []"
    "cn_recv_id c = pk_connection_id syn + 1"
    using assms(1) by (auto simp: new_receiver_with_seq_def Let_def split: if_splits)
  have "cn_return_path_confirmed c' \<longleftrightarrow> matches_incoming c p \<and> pk_type p \<noteq> Reset \<and>
      cn_return_path_confirmed (confirm_return_path (c\<lparr>cn_in_flight := snd (free_acked (pk_ack_nr p) (cn_in_flight c))\<rparr>) p)"
    using assms(2) c(3)
    by (cases "pk_type p") (auto simp: handle_incoming_def Let_def confirmed_frame split: if_splits)
  also have "\<dots> \<longleftrightarrow> matches_incoming c p \<and> pk_type p \<notin> {Syn, Reset} \<and> seq_le (token - 1) (pk_ack_nr p) \<and> seq_le (pk_ack_nr p) (token - 1)"
    using c by (auto simp: confirm_return_path_def Let_def)
  also have "\<dots> \<longleftrightarrow> matches_incoming c p \<and> pk_type p \<notin> {Syn, Reset} \<and> pk_ack_nr p \<in> {token - 1, token + 32767}"
    using seq_le_both [of "token - 1" "pk_ack_nr p"] by (auto simp: algebra_simps)
  also have "\<dots> \<longleftrightarrow> pk_connection_id p = pk_connection_id syn + 1 \<and> pk_type p \<notin> {Syn, Reset} \<and> pk_ack_nr p \<in> {token - 1, token + 32767}"
    using c(5) by (auto simp: matches_incoming_def)
  finally show ?thesis .
qed

definition sample_reply :: packet where
  "sample_reply = (packet_new Data 6 2 99)\<lparr>pk_payload := [7, 8]\<rparr>"

theorem accept_gate_witness:
  "let (c, ack) = the (new_receiver_with_seq (packet_new Syn 5 1 0) 0 100)
   in cn_return_path_confirmed (snd (handle_incoming (\<lambda>x. x) c sample_reply 0)) \<and>
      \<not> cn_return_path_confirmed (snd (handle_incoming (\<lambda>x. x) c (sample_reply\<lparr>pk_ack_nr := 100\<rparr>) 0))"
proof -
  obtain c ack where new: "new_receiver_with_seq (packet_new Syn 5 1 0) 0 100 = Some (c, ack)"
    by (simp add: new_receiver_with_seq_def packet_new_def Let_def)
  note gate = accept_gate [OF new surjective_pairing, of "\<lambda>x. x" _ 0]
  show ?thesis using gate [of sample_reply] gate [of "sample_reply\<lparr>pk_ack_nr := 100\<rparr>"] new
    by (simp add: sample_reply_def packet_new_def)
qed

end
