(* ===== verification/RT_Net.thy ===== *)
theory RT_Net
  imports RT_Prelude
begin

text \<open>
  Internet addresses and the shared helpers of \<open>src/src/util.rs\<close>: which addresses learned from untrusted
  sources may be dialed, cleaning of remote text before it reaches a log, and hexadecimal info-hashes.
\<close>

section \<open>Addresses\<close>

text \<open>
  \<open>std::net::IpAddr\<close>: an IPv4 address by its four octets, an IPv6 address by its eight segments. The flow
  information and scope of an IPv6 socket address play no role in the sources and are left out.
\<close>

datatype ip_addr = V4 u8 u8 u8 u8 | V6 "u16 list"

datatype socket_addr = SocketAddr (sa_ip: ip_addr) (sa_port: u16)

fun wf_ip :: "ip_addr \<Rightarrow> bool" where
  "wf_ip (V4 a b c d) = True"
| "wf_ip (V6 segs) = (length segs = 8)"

text \<open>The derived order of \<open>SocketAddr\<close>: IPv4 before IPv6, then address, then port.\<close>

fun addr_key :: "socket_addr \<Rightarrow> nat list" where
  "addr_key (SocketAddr (V4 a b c d) p) = [0, unat a, unat b, unat c, unat d, unat p]"
| "addr_key (SocketAddr (V6 segs) p) = 1 # map unat segs @ [unat p]"

lemma addr_key_inj: "addr_key x = addr_key y \<longleftrightarrow> x = y"
proof (cases x rule: addr_key.cases; cases y rule: addr_key.cases)
  fix segs p segs' p'
  assume "x = SocketAddr (V6 segs) p" "y = SocketAddr (V6 segs') p'"
  then show ?thesis by (auto simp: inj_map_eq_map [OF inj_onI] word_unat_eq_iff)
qed (auto simp: word_unat_eq_iff)

instantiation socket_addr :: linorder
begin

definition less_eq_socket_addr :: "socket_addr \<Rightarrow> socket_addr \<Rightarrow> bool" where
  "less_eq_socket_addr x y \<longleftrightarrow> addr_key x \<le> addr_key y"

definition less_socket_addr :: "socket_addr \<Rightarrow> socket_addr \<Rightarrow> bool" where
  "less_socket_addr x y \<longleftrightarrow> addr_key x < addr_key y"

instance
  by standard (auto simp: less_eq_socket_addr_def less_socket_addr_def less_le addr_key_inj)

end

section \<open>Address classes of the standard library\<close>

fun is_loopback :: "ip_addr \<Rightarrow> bool" where
  "is_loopback (V4 a b c d) = (a = 127)"
| "is_loopback (V6 segs) = (segs = [0, 0, 0, 0, 0, 0, 0, 1])"

fun is_unspecified :: "ip_addr \<Rightarrow> bool" where
  "is_unspecified (V4 a b c d) = (a = 0 \<and> b = 0 \<and> c = 0 \<and> d = 0)"
| "is_unspecified (V6 segs) = (segs = [0, 0, 0, 0, 0, 0, 0, 0])"

fun is_multicast :: "ip_addr \<Rightarrow> bool" where
  "is_multicast (V4 a b c d) = (224 \<le> a \<and> a \<le> 239)"
| "is_multicast (V6 segs) = ((segs ! 0) AND 0xff00 = 0xff00)"

text \<open>\<open>Ipv6Addr::to_ipv4_mapped\<close>: \<open>::ffff:a.b.c.d\<close>.\<close>

definition to_ipv4_mapped :: "u16 list \<Rightarrow> ip_addr option" where
  "to_ipv4_mapped segs =
     (if take 6 segs = [0, 0, 0, 0, 0, 0xffff]
      then Some (V4 (ucast (drop_bit 8 (segs ! 6))) (ucast (segs ! 6)) (ucast (drop_bit 8 (segs ! 7))) (ucast (segs ! 7)))
      else None)"

section \<open>The dial screens\<close>

definition canonical_ip :: "ip_addr \<Rightarrow> ip_addr" where
  "canonical_ip ip =
     (case ip of
        V6 v6 \<Rightarrow> (case to_ipv4_mapped v6 of Some v4 \<Rightarrow> v4 | None \<Rightarrow> ip)
      | _ \<Rightarrow> ip)"

definition is_dialable_ip :: "ip_addr \<Rightarrow> bool \<Rightarrow> bool" where
  "is_dialable_ip ip strict =
     (let ip = canonical_ip ip in
      if is_loopback ip \<or> is_unspecified ip \<or> is_multicast ip then False
      else
        case ip of
          V4 a b c d \<Rightarrow>
            let is_broadcast = (a = 255 \<and> b = 255 \<and> c = 255 \<and> d = 255);
                is_link_local = (a = 169 \<and> b = 254);
                is_documentation = (a = 192 \<and> b = 0 \<and> c = 2 \<or> a = 198 \<and> b = 51 \<and> c = 100 \<or> a = 203 \<and> b = 0 \<and> c = 113);
                is_private = (a = 10 \<or> a = 172 \<and> 16 \<le> b \<and> b \<le> 31 \<or> a = 192 \<and> b = 168);
                cgnat = (a = 100 \<and> 64 \<le> b \<and> b \<le> 127);
                benchmarking = (a = 198 \<and> 18 \<le> b \<and> b \<le> 19);
                reserved = (a AND 0xF0 = 240 \<and> \<not> is_broadcast);
                this_network = (a = 0);
                ietf_protocols = (a = 192 \<and> b = 0 \<and> c = 0);
                six_to_four_relay = (a = 192 \<and> b = 88 \<and> c = 99)
            in \<not> (is_broadcast \<or> is_link_local \<or> cgnat \<or> benchmarking \<or> is_documentation \<or> reserved \<or>
                   this_network \<or> ietf_protocols \<or> six_to_four_relay \<or> (strict \<and> is_private))
        | V6 segs \<Rightarrow>
            let s = (\<lambda>i. segs ! i);
                nat64 = (s 0 = 0x64 \<and> s 1 = 0xff9b \<and> s 2 = 0 \<and> s 3 = 0);
                nat64_local_use = (s 0 = 0x64 \<and> s 1 = 0xff9b \<and> s 2 = 1);
                six_to_four = (s 0 = 0x2002);
                teredo = (s 0 = 0x2001 \<and> s 1 = 0);
                doc6 = (s 0 = 0x2001 \<and> s 1 = 0x0db8);
                zeronet6 = list_all (\<lambda>x. x = 0) (take 7 segs);
                discard_only = (s 0 = 0x0100 \<and> s 1 = 0 \<and> s 2 = 0 \<and> s 3 = 0);
                ietf_protocols6 = (s 0 = 0x2001 \<and> s 1 = 1);
                benchmarking6 = (s 0 = 0x2001 \<and> s 1 = 2 \<and> s 2 = 0);
                orchid = (s 0 = 0x2001 \<and> (s 1) AND 0xfff0 = 0x0010);
                amt = (s 0 = 0x2001 \<and> s 1 = 3);
                as112v6 = (s 0 = 0x2001 \<and> s 1 = 4 \<and> s 2 = 0x112);
                orchid_v2 = (s 0 = 0x2001 \<and> (s 1) AND 0xfff0 = 0x0020);
                drone_rta = (s 0 = 0x2001 \<and> (s 1) AND 0xfff0 = 0x0030);
                is_unicast_link_local = ((s 0) AND 0xffc0 = 0xfe80);
                is_unique_local = ((s 0) AND 0xfe00 = 0xfc00)
            in \<not> nat64 \<and> \<not> nat64_local_use \<and> \<not> six_to_four \<and> \<not> teredo \<and> \<not> doc6 \<and> \<not> ietf_protocols6 \<and>
               \<not> benchmarking6 \<and> \<not> orchid \<and> \<not> amt \<and> \<not> as112v6 \<and> \<not> orchid_v2 \<and> \<not> drone_rta \<and> \<not> zeronet6 \<and>
               \<not> discard_only \<and> \<not> is_unicast_link_local \<and> \<not> (strict \<and> is_unique_local))"

definition is_dialable_peer_addr :: "socket_addr \<Rightarrow> bool \<Rightarrow> bool" where
  "is_dialable_peer_addr addr strict = is_dialable_ip (sa_ip addr) strict"

definition is_dialable_resolved_ip :: "ip_addr \<Rightarrow> bool \<Rightarrow> bool" where
  "is_dialable_resolved_ip ip strict =
     (let ip = canonical_ip ip in if is_loopback ip then True else is_dialable_ip ip strict)"

text \<open>\<open>parse_ip\<close> is \<open>str::parse::<IpAddr>\<close> on the host with its brackets stripped.\<close>

definition trim_brackets :: "bytes \<Rightarrow> bytes" where
  "trim_brackets host =
     (let br = (\<lambda>c. c = 91 \<or> c = 93) in rev (dropWhile br (rev (dropWhile br host))))"

definition is_dialable_url_host :: "(bytes \<Rightarrow> ip_addr option) \<Rightarrow> bytes \<Rightarrow> bool \<Rightarrow> bool" where
  "is_dialable_url_host parse_ip host strict =
     (case parse_ip (trim_brackets host) of
        None \<Rightarrow> True
      | Some parsed \<Rightarrow>
          let ip = canonical_ip parsed in if is_loopback ip then True else is_dialable_ip ip strict)"

definition filter_dialable_addrs :: "socket_addr list \<Rightarrow> bool \<Rightarrow> socket_addr list res" where
  "filter_dialable_addrs addrs strict =
     (let kept = filter (\<lambda>a. is_dialable_resolved_ip (sa_ip a) strict) addrs in
      if kept = [] then Inl (Tracker ''announce host resolved only to refused addresses'') else Inr kept)"

definition is_safe_dial_target :: "socket_addr \<Rightarrow> bool \<Rightarrow> bool" where
  "is_safe_dial_target addr strict =
     (if is_loopback (sa_ip addr) then True else is_dialable_peer_addr addr strict)"

section \<open>Remote text and hexadecimal\<close>

text \<open>A \<open>char\<close> is its code point; \<open>char::is_control\<close> is the category Cc.\<close>

definition is_control :: "nat \<Rightarrow> bool" where
  "is_control c \<longleftrightarrow> c \<le> 0x1f \<or> 0x7f \<le> c \<and> c \<le> 0x9f"

definition is_invisible_or_directional :: "nat \<Rightarrow> bool" where
  "is_invisible_or_directional c \<longleftrightarrow>
     0x200B \<le> c \<and> c \<le> 0x200F \<or> 0x202A \<le> c \<and> c \<le> 0x202E \<or> 0x2066 \<le> c \<and> c \<le> 0x2069 \<or> c = 0xFEFF"

definition sanitize_remote_text :: "nat list \<Rightarrow> nat list" where
  "sanitize_remote_text text =
     (let truncated = (if length text > 512 then take 512 text @ [46, 46] else text)
      in filter (\<lambda>c. \<not> is_control c \<and> \<not> is_invisible_or_directional c) truncated)"

definition hex_char :: "nat \<Rightarrow> u8" where
  "hex_char n = (if n < 10 then of_nat (48 + n) else of_nat (87 + n))"

definition hex :: "bytes \<Rightarrow> bytes" where
  "hex bs = concat (map (\<lambda>b. [hex_char (unat b div 16), hex_char (unat b mod 16)]) bs)"

definition hex_digit :: "u8 \<Rightarrow> nat option" where
  "hex_digit c =
     (if 48 \<le> c \<and> c \<le> 57 then Some (unat c - 48)
      else if 97 \<le> c \<and> c \<le> 102 then Some (unat c - 87)
      else if 65 \<le> c \<and> c \<le> 70 then Some (unat c - 55)
      else None)"

text \<open>\<open>u8::from_str_radix(s, 16)\<close> for a string of two bytes: a leading plus sign is accepted.\<close>

definition u8_from_hex2 :: "u8 \<Rightarrow> u8 \<Rightarrow> u8 option" where
  "u8_from_hex2 x y =
     (if x = 43 then map_option of_nat (hex_digit y)
      else case (hex_digit x, hex_digit y) of (Some h, Some l) \<Rightarrow> Some (of_nat (16 * h + l)) | _ \<Rightarrow> None)"

text \<open>Slicing a string at an index inside a multi-byte character panics.\<close>

definition is_char_boundary :: "bytes \<Rightarrow> nat \<Rightarrow> bool" where
  "is_char_boundary s i \<longleftrightarrow> i = length s \<or> i < length s \<and> \<not> utf8_cont (s ! i)"

fun info_hash_loop :: "bytes \<Rightarrow> nat list \<Rightarrow> bytes \<Rightarrow> bytes option res" where
  "info_hash_loop s [] acc = Inr (Some acc)"
| "info_hash_loop s (i # js) acc =
     (if \<not> is_char_boundary s (i * 2) \<or> \<not> is_char_boundary s (i * 2 + 2) then Inl (Panic ''not a char boundary'')
      else case u8_from_hex2 (s ! (i * 2)) (s ! (i * 2 + 1)) of
        None \<Rightarrow> Inr None
      | Some b \<Rightarrow> info_hash_loop s js (acc @ [b]))"

definition info_hash_from_hex :: "bytes \<Rightarrow> bytes option res" where
  "info_hash_from_hex s = (if length s \<noteq> 40 then Inr None else info_hash_loop s [0..<20] [])"

section \<open>IPv4: the screen as a list of address blocks\<close>

definition v4_num :: "u8 \<Rightarrow> u8 \<Rightarrow> u8 \<Rightarrow> u8 \<Rightarrow> nat" where
  "v4_num a b c d = ((unat a * 256 + unat b) * 256 + unat c) * 256 + unat d"

text \<open>A block in CIDR notation: an address and the length of the prefix.\<close>

definition in_block :: "nat \<Rightarrow> nat \<Rightarrow> nat \<times> nat \<Rightarrow> bool" where
  "in_block bits n blk \<longleftrightarrow> n div 2 ^ (bits - snd blk) = fst blk div 2 ^ (bits - snd blk)"

definition special_v4 :: "(nat \<times> nat) list" where
  "special_v4 =
     [(v4_num 0 0 0 0, 8), (v4_num 100 64 0 0, 10), (v4_num 127 0 0 0, 8), (v4_num 169 254 0 0, 16),
      (v4_num 192 0 0 0, 24), (v4_num 192 0 2 0, 24), (v4_num 192 88 99 0, 24), (v4_num 198 18 0 0, 15),
      (v4_num 198 51 100 0, 24), (v4_num 203 0 113 0, 24), (v4_num 224 0 0 0, 4), (v4_num 240 0 0 0, 4)]"

definition private_v4 :: "(nat \<times> nat) list" where
  "private_v4 = [(v4_num 10 0 0 0, 8), (v4_num 172 16 0 0, 12), (v4_num 192 168 0 0, 16)]"

lemma v4_num_div:
  "v4_num a b c d div 16777216 = unat a" "v4_num a b c d div 65536 = unat a * 256 + unat b"
  "v4_num a b c d div 256 = (unat a * 256 + unat b) * 256 + unat c"
  "v4_num a b c d div 4194304 = unat a * 4 + unat b div 64" "v4_num a b c d div 131072 = unat a * 128 + unat b div 2"
  "v4_num a b c d div 268435456 = unat a div 16" "v4_num a b c d div 1048576 = unat a * 16 + unat b div 16"
proof -
  have d1: "v4_num a b c d div 256 = (unat a * 256 + unat b) * 256 + unat c" using octet_less [of d] by (simp add: v4_num_def)
  have d2: "v4_num a b c d div (256 * 256) = unat a * 256 + unat b"
    using octet_less [of c] unfolding div_mult2_eq d1 by simp
  have d3: "v4_num a b c d div (256 * 256 * n) = (unat a * 256 + unat b) div n" for n
    unfolding div_mult2_eq [of _ "256 * 256" n] d2 ..
  show "v4_num a b c d div 256 = (unat a * 256 + unat b) * 256 + unat c" by (rule d1)
  show "v4_num a b c d div 65536 = unat a * 256 + unat b" using d2 by simp
  show "v4_num a b c d div 16777216 = unat a" using d3 [of 256] octet_less [of b] by simp
  show "v4_num a b c d div 4194304 = unat a * 4 + unat b div 64" using d3 [of 64] div_mult_self4 [of 64 "unat b" "4 * unat a"] by (simp add: algebra_simps)
  show "v4_num a b c d div 131072 = unat a * 128 + unat b div 2" using d3 [of 2] div_mult_self4 [of 2 "unat b" "128 * unat a"] by (simp add: algebra_simps)
  show "v4_num a b c d div 1048576 = unat a * 16 + unat b div 16" using d3 [of 16] div_mult_self4 [of 16 "unat b" "16 * unat a"] by (simp add: algebra_simps)
  have "(unat a * 256 + unat b) div (256 * 16) = unat a div 16" unfolding div_mult2_eq using octet_less [of b] by simp
  then show "v4_num a b c d div 268435456 = unat a div 16" using d3 [of "256 * 16"] by simp
qed

lemma digits_eq:
  fixes a b x y m :: nat
  assumes "b < m" "y < m"
  shows "a * m + b = x * m + y \<longleftrightarrow> a = x \<and> b = y"
proof
  assume eq: "a * m + b = x * m + y"
  have "a = (a * m + b) div m" "b = (a * m + b) mod m" "x = (x * m + y) div m" "y = (x * m + y) mod m"
    using assms by simp_all
  then show "a = x \<and> b = y" using eq by metis
qed simp

lemma octet_range:
  fixes a b m k x :: nat
  assumes "b < m * k" "x < m"
  shows "a * m + b div k = y * m + x \<longleftrightarrow> a = y \<and> b div k = x"
  using assms by (intro digits_eq) (simp_all add: less_mult_imp_div_less mult.commute)

lemma high_bits: "unat (w AND NOT (mask k)) = 2 ^ k * (unat (w :: 'a :: len word) div 2 ^ k)"
proof -
  have "w AND NOT (mask k) = push_bit k (drop_bit k w)" by (rule bit_word_eqI) (auto simp: bit_simps)
  moreover have "push_bit k (drop_bit k w) = w - take_bit k w" using bits_ident [of k w] by (simp add: algebra_simps)
  moreover have tb: "unat (take_bit k w) = unat w mod 2 ^ k" unfolding unsigned_take_bit_eq by (rule take_bit_eq_mod)
  moreover have "take_bit k w \<le> w" unfolding word_le_nat_alt tb by simp
  ultimately have "unat (w AND NOT (mask k)) = unat w - unat w mod 2 ^ k" by (simp add: unat_sub)
  then show ?thesis by (simp add: minus_mod_eq_mult_div)
qed

lemma reserved_octet: "a AND 0xF0 = (240 :: u8) \<longleftrightarrow> unat a div 16 = 15"
proof -
  have "(0xF0 :: u8) = NOT (mask 4)" by (simp add: mask_eq_exp_minus_1)
  then have "unat (a AND 0xF0) = 16 * (unat a div 16)" using high_bits [of a 4] by simp
  then show ?thesis by (auto simp: word_unat_eq_iff)
qed

lemma v4_blocks:
  "in_block 32 (v4_num a b c d) (v4_num x y z w, 8) \<longleftrightarrow> a = x"
  "in_block 32 (v4_num a b c d) (v4_num x y z w, 16) \<longleftrightarrow> a = x \<and> b = y"
  "in_block 32 (v4_num a b c d) (v4_num x y z w, 24) \<longleftrightarrow> a = x \<and> b = y \<and> c = z"
  "in_block 32 (v4_num a b c d) (v4_num x y z w, 4) \<longleftrightarrow> unat a div 16 = unat x div 16"
  "in_block 32 (v4_num a b c d) (v4_num x y z w, 10) \<longleftrightarrow> a = x \<and> unat b div 64 = unat y div 64"
  "in_block 32 (v4_num a b c d) (v4_num x y z w, 15) \<longleftrightarrow> a = x \<and> unat b div 2 = unat y div 2"
  "in_block 32 (v4_num a b c d) (v4_num x y z w, 12) \<longleftrightarrow> a = x \<and> unat b div 16 = unat y div 16"
proof -
  note lt = octet_less [of b] octet_less [of y] octet_less [of c] octet_less [of z]
  have ltm: "unat y div 64 < 4" "unat y div 2 < 128" "unat y div 16 < 16" using lt(2) by linarith+
  note defs = in_block_def v4_num_div word_unat_eq_iff
  show "in_block 32 (v4_num a b c d) (v4_num x y z w, 8) \<longleftrightarrow> a = x"
    "in_block 32 (v4_num a b c d) (v4_num x y z w, 4) \<longleftrightarrow> unat a div 16 = unat x div 16"
    by (simp_all add: defs)
  show "in_block 32 (v4_num a b c d) (v4_num x y z w, 16) \<longleftrightarrow> a = x \<and> b = y"
    using lt by (simp_all add: defs digits_eq)
  have e24: "in_block 32 m (n, 24) \<longleftrightarrow> m div 256 = n div 256" for m n by (simp add: in_block_def)
  show "in_block 32 (v4_num a b c d) (v4_num x y z w, 24) \<longleftrightarrow> a = x \<and> b = y \<and> c = z"
    unfolding e24 v4_num_div digits_eq [OF lt(3,4)] digits_eq [OF lt(1,2)] word_unat_eq_iff by simp
  show "in_block 32 (v4_num a b c d) (v4_num x y z w, 10) \<longleftrightarrow> a = x \<and> unat b div 64 = unat y div 64"
    using octet_range [of "unat b" 4 64 "unat y div 64" "unat a" "unat x"] lt(1) ltm by (simp add: defs)
  show "in_block 32 (v4_num a b c d) (v4_num x y z w, 15) \<longleftrightarrow> a = x \<and> unat b div 2 = unat y div 2"
    using octet_range [of "unat b" 128 2 "unat y div 2" "unat a" "unat x"] lt(1) ltm by (simp add: defs)
  show "in_block 32 (v4_num a b c d) (v4_num x y z w, 12) \<longleftrightarrow> a = x \<and> unat b div 16 = unat y div 16"
    using octet_range [of "unat b" 16 16 "unat y div 16" "unat a" "unat x"] lt(1) ltm by (simp add: defs)
qed

lemma div_interval: "0 < k \<Longrightarrow> n div k = m \<longleftrightarrow> k * m \<le> n \<and> n < k * Suc m" for n m k :: nat
  by (auto intro: div_nat_eqI simp: dividend_less_times_div)

lemma octet_bounds:
  "64 \<le> b \<and> b \<le> (127 :: u8) \<longleftrightarrow> unat b div 64 = 1" "18 \<le> b \<and> b \<le> (19 :: u8) \<longleftrightarrow> unat b div 2 = 9"
  "16 \<le> b \<and> b \<le> (31 :: u8) \<longleftrightarrow> unat b div 16 = 1" "224 \<le> b \<and> b \<le> (239 :: u8) \<longleftrightarrow> unat b div 16 = 14"
  by (auto simp: word_le_nat_alt div_interval)

lemma v4_shape:
  assumes "un \<Longrightarrow> tn" "bc \<Longrightarrow> rs"
  shows "(if lo \<or> un \<or> mc then False
     else \<not> (bc \<or> ll \<or> cg \<or> bm \<or> (d1 \<or> d2 \<or> d3) \<or> (rs \<and> \<not> bc) \<or> tn \<or> ie \<or> st \<or> (strict \<and> (p1 \<or> p2 \<or> p3)))) \<longleftrightarrow>
     \<not> (tn \<or> cg \<or> lo \<or> ll \<or> ie \<or> d1 \<or> st \<or> bm \<or> d2 \<or> d3 \<or> mc \<or> rs \<or> strict \<and> (p1 \<or> p2 \<or> p3))"
  using assms by (cases bc; cases un) auto

lemma dialable_v4:
  "is_dialable_ip (V4 a b c d) strict \<longleftrightarrow>
     \<not> list_ex (in_block 32 (v4_num a b c d)) (special_v4 @ (if strict then private_v4 else []))"
proof -
  let ?n = "v4_num a b c d"
  have R: "list_ex (in_block 32 ?n) (special_v4 @ (if strict then private_v4 else [])) \<longleftrightarrow>
      a = 0 \<or> (a = 100 \<and> unat b div 64 = 1) \<or> a = 127 \<or> (a = 169 \<and> b = 254) \<or> (a = 192 \<and> b = 0 \<and> c = 0) \<or>
      (a = 192 \<and> b = 0 \<and> c = 2) \<or> (a = 192 \<and> b = 88 \<and> c = 99) \<or> (a = 198 \<and> unat b div 2 = 9) \<or>
      (a = 198 \<and> b = 51 \<and> c = 100) \<or> (a = 203 \<and> b = 0 \<and> c = 113) \<or> unat a div 16 = 14 \<or> unat a div 16 = 15 \<or>
      strict \<and> (a = 10 \<or> a = 172 \<and> unat b div 16 = 1 \<or> a = 192 \<and> b = 168)"
    by (simp add: special_v4_def private_v4_def v4_blocks)
  show ?thesis
    unfolding R is_dialable_ip_def canonical_ip_def Let_def ip_addr.case is_loopback.simps is_unspecified.simps is_multicast.simps
      octet_bounds reserved_octet
    by (rule v4_shape) auto
qed

section \<open>IPv6: the screen as a list of address blocks\<close>

definition v6_num :: "u16 list \<Rightarrow> nat" where
  "v6_num segs = foldl (\<lambda>n x. n * 65536 + unat x) 0 segs"

definition special_v6 :: "(nat \<times> nat) list" where
  "special_v6 = map (\<lambda>(segs, len). (v6_num segs, len))
     [([0x64, 0xff9b, 0, 0, 0, 0, 0, 0], 64), ([0x64, 0xff9b, 1, 0, 0, 0, 0, 0], 48), ([0x2002, 0, 0, 0, 0, 0, 0, 0], 16),
      ([0x2001, 0, 0, 0, 0, 0, 0, 0], 32), ([0x2001, 0xdb8, 0, 0, 0, 0, 0, 0], 32), ([0x2001, 1, 0, 0, 0, 0, 0, 0], 32),
      ([0x2001, 2, 0, 0, 0, 0, 0, 0], 48), ([0x2001, 0x10, 0, 0, 0, 0, 0, 0], 28), ([0x2001, 3, 0, 0, 0, 0, 0, 0], 32),
      ([0x2001, 4, 0x112, 0, 0, 0, 0, 0], 48), ([0x2001, 0x20, 0, 0, 0, 0, 0, 0], 28), ([0x2001, 0x30, 0, 0, 0, 0, 0, 0], 28),
      ([0, 0, 0, 0, 0, 0, 0, 0], 112), ([0x100, 0, 0, 0, 0, 0, 0, 0], 64), ([0xfe80, 0, 0, 0, 0, 0, 0, 0], 10),
      ([0xff00, 0, 0, 0, 0, 0, 0, 0], 8)]"

definition private_v6 :: "(nat \<times> nat) list" where
  "private_v6 = [(v6_num [0xfc00, 0, 0, 0, 0, 0, 0, 0], 7)]"

lemma seg_less: "unat (a :: u16) < 65536"
proof -
  have "unat a < 2 ^ LENGTH(16)" by (rule unsigned_less)
  then show ?thesis by simp
qed

lemma v6_num_snoc: "v6_num (xs @ [x]) = v6_num xs * 65536 + unat x"
  by (simp add: v6_num_def)

lemma v6_num_div: "v6_num (xs @ ys) div 65536 ^ length ys = v6_num xs"
proof (induction ys rule: rev_induct)
  case (snoc y ys)
  have "v6_num (xs @ ys @ [y]) div 65536 = v6_num (xs @ ys)"
    using v6_num_snoc [of "xs @ ys" y] seg_less [of y] by simp
  then have "v6_num (xs @ ys @ [y]) div (65536 * 65536 ^ length ys) = v6_num (xs @ ys) div 65536 ^ length ys"
    by (simp only: div_mult2_eq)
  then show ?case using snoc.IH by simp
qed simp

lemma v6_num_inj: "length xs = length ys \<Longrightarrow> v6_num xs = v6_num ys \<longleftrightarrow> xs = ys"
proof (induction xs arbitrary: ys rule: rev_induct)
  case (snoc x xs)
  then obtain y ys' where ys: "ys = ys' @ [y]" "length ys' = length xs" by (cases ys rule: rev_cases) auto
  have "v6_num xs * 65536 + unat x = v6_num ys' * 65536 + unat y \<longleftrightarrow> v6_num xs = v6_num ys' \<and> unat x = unat y"
    by (rule digits_eq [OF seg_less seg_less])
  then show ?case using snoc.IH [of ys'] ys by (auto simp: v6_num_snoc word_unat_eq_iff)
qed simp

lemma v6_block:
  assumes "length segs = 8" "length t = 8" "k \<le> 8"
  shows "in_block 128 (v6_num segs) (v6_num t, 16 * k) \<longleftrightarrow> take k segs = take k t"
proof -
  have "(2 :: nat) ^ (128 - 16 * k) = (2 ^ 16) ^ (8 - k)" unfolding power_mult [symmetric] using assms(3) by (simp add: algebra_simps)
  then have p: "(2 :: nat) ^ (128 - 16 * k) = 65536 ^ (8 - k)" by simp
  have "v6_num xs div 65536 ^ (8 - k) = v6_num (take k xs)" if "length xs = 8" for xs
    using v6_num_div [of "take k xs" "drop k xs"] that by simp
  then show ?thesis using assms by (simp add: in_block_def p v6_num_inj)
qed

lemma v6_block_part:
  assumes "length segs = 8" "length t = 8" "k < 8" "j \<le> 16"
  shows "in_block 128 (v6_num segs) (v6_num t, 16 * k + j) \<longleftrightarrow>
    take k segs = take k t \<and> unat (segs ! k) div 2 ^ (16 - j) = unat (t ! k) div 2 ^ (16 - j)"
proof -
  have "(2 :: nat) ^ (128 - (16 * k + j)) = 2 ^ (16 * (7 - k) + (16 - j))" using assms(3,4) by (simp add: algebra_simps)
  also have "\<dots> = 65536 ^ (7 - k) * 2 ^ (16 - j)" by (simp add: power_add power_mult)
  finally have p: "(2 :: nat) ^ (128 - (16 * k + j)) = 65536 ^ (7 - k) * 2 ^ (16 - j)" .
  have num: "v6_num xs div (2 :: nat) ^ (128 - (16 * k + j)) = v6_num (take k xs) * 2 ^ j + unat (xs ! k) div 2 ^ (16 - j)"
    if "length xs = 8" for xs
  proof -
    have "v6_num xs div 65536 ^ (7 - k) = v6_num (take (Suc k) xs)"
      using v6_num_div [of "take (Suc k) xs" "drop (Suc k) xs"] that assms(3) by simp
    also have "\<dots> = v6_num (take k xs) * 65536 + unat (xs ! k)"
      using that assms(3) by (simp add: take_Suc_conv_app_nth v6_num_snoc)
    finally have "v6_num xs div (2 :: nat) ^ (128 - (16 * k + j)) = (v6_num (take k xs) * 65536 + unat (xs ! k)) div 2 ^ (16 - j)"
      unfolding p div_mult2_eq by simp
    moreover have "(65536 :: nat) = 2 ^ j * 2 ^ (16 - j)" using assms(4) by (simp flip: power_add)
    ultimately show ?thesis by (simp add: mult.assoc [symmetric])
  qed
  have lt: "unat x div 2 ^ (16 - j) < 2 ^ j" for x :: u16
    using seg_less [of x] assms(4) by (intro less_mult_imp_div_less) (simp flip: power_add)
  have "v6_num (take k segs) = v6_num (take k t) \<longleftrightarrow> take k segs = take k t" by (rule v6_num_inj) (use assms in simp)
  then show ?thesis using assms by (simp add: in_block_def num digits_eq [OF lt lt])
qed

lemma seg_masks:
  "x AND 0xfff0 = (n :: u16) \<longleftrightarrow> 16 * (unat x div 16) = unat n" "x AND 0xffc0 = (n :: u16) \<longleftrightarrow> 64 * (unat x div 64) = unat n"
  "x AND 0xfe00 = (n :: u16) \<longleftrightarrow> 512 * (unat x div 512) = unat n" "x AND 0xff00 = (n :: u16) \<longleftrightarrow> 256 * (unat x div 256) = unat n"
proof -
  have m: "(0xfff0 :: u16) = NOT (mask 4)" "(0xffc0 :: u16) = NOT (mask 6)" "(0xfe00 :: u16) = NOT (mask 9)" "(0xff00 :: u16) = NOT (mask 8)"
    by (simp_all add: mask_eq_exp_minus_1)
  show "x AND 0xfff0 = (n :: u16) \<longleftrightarrow> 16 * (unat x div 16) = unat n" "x AND 0xffc0 = (n :: u16) \<longleftrightarrow> 64 * (unat x div 64) = unat n"
    "x AND 0xfe00 = (n :: u16) \<longleftrightarrow> 512 * (unat x div 512) = unat n" "x AND 0xff00 = (n :: u16) \<longleftrightarrow> 256 * (unat x div 256) = unat n"
    unfolding m word_unat_eq_iff high_bits by simp_all
qed

lemmas v6_blocks = v6_block [where k = 1, simplified] v6_block [where k = 2, simplified] v6_block [where k = 3, simplified]
  v6_block [where k = 4, simplified] v6_block [where k = 7, simplified] v6_block_part [where k = 0 and j = 7, simplified]
  v6_block_part [where k = 0 and j = 8, simplified] v6_block_part [where k = 0 and j = 10, simplified]
  v6_block_part [where k = 1 and j = 12, simplified]

lemma v6_shape:
  assumes "lo \<Longrightarrow> ze" "un \<Longrightarrow> ze"
  shows "(if lo \<or> un \<or> mc then False
     else \<not> n6 \<and> \<not> nl \<and> \<not> sf \<and> \<not> te \<and> \<not> dc \<and> \<not> ie \<and> \<not> bm \<and> \<not> o1 \<and> \<not> am \<and> \<not> aq \<and> \<not> o2 \<and> \<not> dr \<and> \<not> ze \<and> \<not> di \<and> \<not> ll \<and>
       \<not> (strict \<and> ul)) \<longleftrightarrow>
     \<not> (n6 \<or> nl \<or> sf \<or> te \<or> dc \<or> ie \<or> bm \<or> o1 \<or> am \<or> aq \<or> o2 \<or> dr \<or> ze \<or> di \<or> ll \<or> mc \<or> strict \<and> ul)"
  using assms by (cases ze) auto

lemma dialable_v6:
  assumes "length segs = 8" "to_ipv4_mapped segs = None"
  shows "is_dialable_ip (V6 segs) strict \<longleftrightarrow>
    \<not> list_ex (in_block 128 (v6_num segs)) (special_v6 @ (if strict then private_v6 else []))"
proof -
  obtain a b c d e f g h where segs: "segs = [a, b, c, d, e, f, g, h]"
    using assms(1) by (auto simp: length_Suc_conv numeral_eq_Suc)
  have R: "list_ex (in_block 128 (v6_num segs)) (special_v6 @ (if strict then private_v6 else [])) \<longleftrightarrow>
      (a = 0x64 \<and> b = 0xff9b \<and> c = 0 \<and> d = 0) \<or> (a = 0x64 \<and> b = 0xff9b \<and> c = 1) \<or> a = 0x2002 \<or> (a = 0x2001 \<and> b = 0) \<or>
      (a = 0x2001 \<and> b = 0xdb8) \<or> (a = 0x2001 \<and> b = 1) \<or> (a = 0x2001 \<and> b = 2 \<and> c = 0) \<or>
      (a = 0x2001 \<and> unat b div 16 = 1) \<or> (a = 0x2001 \<and> b = 3) \<or> (a = 0x2001 \<and> b = 4 \<and> c = 0x112) \<or>
      (a = 0x2001 \<and> unat b div 16 = 2) \<or> (a = 0x2001 \<and> unat b div 16 = 3) \<or>
      (a = 0 \<and> b = 0 \<and> c = 0 \<and> d = 0 \<and> e = 0 \<and> f = 0 \<and> g = 0) \<or> (a = 0x100 \<and> b = 0 \<and> c = 0 \<and> d = 0) \<or>
      unat a div 64 = 1018 \<or> unat a div 256 = 255 \<or> strict \<and> unat a div 512 = 126"
    unfolding special_v6_def private_v6_def segs by (simp add: v6_blocks)
  have nth: "segs ! 0 = a" "segs ! 1 = b" "segs ! 2 = c" "segs ! 3 = d" by (simp_all add: segs)
  have zero: "list_all (\<lambda>x. x = 0) (take 7 segs) \<longleftrightarrow> a = 0 \<and> b = 0 \<and> c = 0 \<and> d = 0 \<and> e = 0 \<and> f = 0 \<and> g = 0"
    by (simp add: segs)
  have masks: "x AND 0xfff0 = 0x10 \<longleftrightarrow> unat x div 16 = 1" "x AND 0xfff0 = 0x20 \<longleftrightarrow> unat x div 16 = 2"
    "x AND 0xfff0 = 0x30 \<longleftrightarrow> unat x div 16 = 3" "x AND 0xffc0 = 0xfe80 \<longleftrightarrow> unat x div 64 = 1018"
    "x AND 0xfe00 = 0xfc00 \<longleftrightarrow> unat x div 512 = 126" "x AND 0xff00 = 0xff00 \<longleftrightarrow> unat x div 256 = 255" for x :: u16
    by (auto simp: seg_masks)
  show ?thesis
    unfolding R is_dialable_ip_def canonical_ip_def Let_def ip_addr.case assms(2) option.case is_loopback.simps is_unspecified.simps
      is_multicast.simps nth masks zero
    by (rule v6_shape) (auto simp: segs)
qed

text \<open>
  C23: an address passes the dial screen exactly when it lies in none of the listed special-purpose blocks, in
  CIDR notation (with \<open>strict\<close> also none of the site-local ones). An IPv6 address that wraps an IPv4 one is judged
  as that IPv4 address.
\<close>

theorem dialable_blocks:
  assumes "wf_ip ip"
  shows "is_dialable_ip ip strict \<longleftrightarrow>
    (case canonical_ip ip of
       V4 a b c d \<Rightarrow> \<not> list_ex (in_block 32 (v4_num a b c d)) (special_v4 @ (if strict then private_v4 else []))
     | V6 segs \<Rightarrow> \<not> list_ex (in_block 128 (v6_num segs)) (special_v6 @ (if strict then private_v6 else [])))"
proof (cases ip)
  case (V4 a b c d)
  then show ?thesis using dialable_v4 [of a b c d strict] by (simp add: canonical_ip_def)
next
  case (V6 segs)
  show ?thesis
  proof (cases "to_ipv4_mapped segs")
    case None
    then show ?thesis using dialable_v6 [of segs strict] assms V6 by (simp add: canonical_ip_def)
  next
    case (Some v4)
    then obtain a b c d where v4: "v4 = V4 a b c d" by (auto simp: to_ipv4_mapped_def split: if_splits)
    then have "is_dialable_ip ip strict = is_dialable_ip (V4 a b c d) strict"
      using V6 Some by (simp add: is_dialable_ip_def canonical_ip_def)
    then show ?thesis using dialable_v4 [of a b c d strict] V6 Some v4 by (simp add: canonical_ip_def)
  qed
qed

theorem dialable_blocks_witness:
  "wf_ip (V6 [0, 0, 0, 0, 0, 0xffff, 0xa9fe, 0xa9fe]) \<and> \<not> is_dialable_ip (V6 [0, 0, 0, 0, 0, 0xffff, 0xa9fe, 0xa9fe]) False"
proof -
  let ?ip = "V6 [0, 0, 0, 0, 0, 0xffff, 0xa9fe, 0xa9fe]"
  have "canonical_ip ?ip = V4 169 254 169 254" by (simp add: canonical_ip_def to_ipv4_mapped_def)
  moreover have "list_ex (in_block 32 (v4_num 169 254 169 254)) special_v4" by (simp add: special_v4_def v4_blocks)
  ultimately show ?thesis using dialable_blocks [of ?ip False] by simp
qed

section \<open>Remote text and info-hashes\<close>

lemma sanitize_clean:
  "length (sanitize_remote_text t) \<le> 514" "\<forall>c \<in> set (sanitize_remote_text t). \<not> is_control c \<and> \<not> is_invisible_or_directional c"
proof -
  have "length (filter P xs) \<le> length xs" for P and xs :: "nat list" by (rule length_filter_le)
  then show "length (sanitize_remote_text t) \<le> 514" unfolding sanitize_remote_text_def Let_def by (rule le_trans) auto
qed (auto simp: sanitize_remote_text_def Let_def)

lemma hex_digit_char: "n < 16 \<Longrightarrow> hex_digit (hex_char n) = Some n" "n < 16 \<Longrightarrow> \<not> utf8_cont (hex_char n)" "n < 16 \<Longrightarrow> hex_char n \<noteq> 43"
proof -
  have "\<forall>n \<in> set [0..<16]. hex_digit (hex_char n) = Some n \<and> \<not> utf8_cont (hex_char n) \<and> hex_char n \<noteq> 43" by code_simp
  then show "n < 16 \<Longrightarrow> hex_digit (hex_char n) = Some n" "n < 16 \<Longrightarrow> \<not> utf8_cont (hex_char n)" "n < 16 \<Longrightarrow> hex_char n \<noteq> 43" by auto
qed

lemma length_hex [simp]: "length (hex b) = 2 * length b"
  by (induction b) (auto simp: hex_def)

lemma nth_hex:
  "i < length b \<Longrightarrow> hex b ! (i * 2) = hex_char (unat (b ! i) div 16)" "i < length b \<Longrightarrow> hex b ! (i * 2 + 1) = hex_char (unat (b ! i) mod 16)"
proof (induction b arbitrary: i)
  case (Cons x b)
  { case 1 then show ?case using Cons.IH(1) [of "i - 1"] by (cases i) (auto simp: hex_def) }
  { case 2 then show ?case using Cons.IH(2) [of "i - 1"] by (cases i) (auto simp: hex_def) }
qed auto

lemma hex_loop:
  assumes "length b = 20" "i \<le> 20"
  shows "info_hash_loop (hex b) [i..<20] (take i b) = Inr (Some b)"
  using assms(2)
proof (induction "20 - i" arbitrary: i)
  case (Suc n)
  then have i: "i < 20" by simp
  have octet: "unat (b ! i) div 16 < 16" "unat (b ! i) mod 16 < 16" using octet_less [of "b ! i"] by auto
  have bound: "is_char_boundary (hex b) (j * 2)" if "j \<le> 20" for j
  proof (cases "j = 20")
    case False
    then have "\<not> utf8_cont (hex b ! (j * 2))"
      using that assms(1) octet_less [of "b ! j"] nth_hex(1) [of j b] hex_digit_char(2) [of "unat (b ! j) div 16"] by simp
    then show ?thesis using that False assms(1) by (simp add: is_char_boundary_def)
  qed (use assms(1) in \<open>simp add: is_char_boundary_def\<close>)
  have "16 * (unat (b ! i) div 16) + unat (b ! i) mod 16 = unat (b ! i)" by simp
  then have "u8_from_hex2 (hex b ! (i * 2)) (hex b ! (i * 2 + 1)) = Some (b ! i)"
    using hex_digit_char octet nth_hex [of i b] i assms(1) by (simp add: u8_from_hex2_def)
  moreover have "[i..<20] = i # [Suc i..<20]" using i by (rule upt_conv_Cons)
  moreover have "take i b @ [b ! i] = take (Suc i) b" using i assms(1) by (simp add: take_Suc_conv_app_nth)
  moreover have "is_char_boundary (hex b) (i * 2 + 2)" using bound [of "Suc i"] i by simp
  ultimately show ?case using Suc bound [of i] i by simp
qed (use assms(1) in simp)

lemma info_hash_hex_roundtrip: "length b = 20 \<Longrightarrow> info_hash_from_hex (hex b) = Inr (Some b)"
  using hex_loop [of b 0] by (simp add: info_hash_from_hex_def)

text \<open>Two inputs the reader treats unexpectedly: signs inside the digits, and a multi-byte character.\<close>

lemma info_hash_plus_accepted: "info_hash_from_hex (concat (replicate 20 [43, 102])) = Inr (Some (replicate 20 15))"
  by code_simp

lemma info_hash_slice_panics:
  "let s = 48 # concat (replicate 19 [195, 169]) @ [48]
   in utf8_valid s \<and> info_hash_from_hex s = Inl (Panic ''not a char boundary'')"
  by code_simp

end
