(* ===== verification/RT_Dht_Routing.thy ===== *)
theory RT_Dht_Routing
  imports RT_Net
begin

text \<open>
  Node identifiers and the Kademlia routing table: \<open>src/src/dht/node_id.rs\<close> and \<open>src/src/dht/routing.rs\<close>.
  A \<open>NodeId\<close> is its 20 bytes; the order on byte strings is the one Rust uses on arrays.
\<close>

section \<open>Node identifiers\<close>

type_synonym node_id = bytes

definition distance :: "node_id \<Rightarrow> node_id \<Rightarrow> bytes" where
  "distance a b = map (\<lambda>(x, y). x XOR y) (zip a b)"

text \<open>\<open>u8::leading_zeros\<close>.\<close>

definition leading_zeros :: "u8 \<Rightarrow> nat" where
  "leading_zeros b =
     (if 128 \<le> b then 0 else if 64 \<le> b then 1 else if 32 \<le> b then 2 else if 16 \<le> b then 3
      else if 8 \<le> b then 4 else if 4 \<le> b then 5 else if 2 \<le> b then 6 else if 1 \<le> b then 7 else 8)"

fun first_bit :: "nat \<Rightarrow> bytes \<Rightarrow> nat option" where
  "first_bit i [] = None"
| "first_bit i (byte # d) = (if byte \<noteq> 0 then Some (i * 8 + leading_zeros byte) else first_bit (i + 1) d)"

definition bucket_index :: "node_id \<Rightarrow> node_id \<Rightarrow> nat option" where
  "bucket_index a b = (case first_bit 0 (distance a b) of None \<Rightarrow> None | Some bit_position \<Rightarrow> Some (159 - bit_position))"

section \<open>The routing table\<close>

definition K :: nat where "K = 8"

definition GOOD_NODE_TTL :: int where "GOOD_NODE_TTL = 15 * 60 * 1000"

record contact =
  ct_id :: node_id
  ct_addr :: socket_addr
  ct_last_seen :: int

definition contact_new :: "int \<Rightarrow> node_id \<Rightarrow> socket_addr \<Rightarrow> contact" where
  "contact_new now i addr = \<lparr>ct_id = i, ct_addr = addr, ct_last_seen = now\<rparr>"

definition is_good :: "int \<Rightarrow> contact \<Rightarrow> bool" where
  "is_good now c \<longleftrightarrow> duration_since now (ct_last_seen c) < GOOD_NODE_TTL"

definition remove_at :: "nat \<Rightarrow> 'a list \<Rightarrow> 'a list" where
  "remove_at i xs = take i xs @ drop (Suc i) xs"

type_synonym kbucket = "contact list"

definition kbucket_insert :: "int \<Rightarrow> kbucket \<Rightarrow> contact \<Rightarrow> bool \<times> kbucket" where
  "kbucket_insert now cs c =
     (case position (\<lambda>x. ct_id x = ct_id c) cs of
        Some pos \<Rightarrow>
          let existing = (cs ! pos)\<lparr>ct_last_seen := ct_last_seen c, ct_addr := ct_addr c\<rparr>
          in (True, remove_at pos cs @ [existing])
      | None \<Rightarrow>
          if length cs < K then (True, cs @ [c])
          else case position (\<lambda>x. \<not> is_good now x) cs of
            Some stale_pos \<Rightarrow> (True, remove_at stale_pos cs @ [c])
          | None \<Rightarrow> (False, cs))"

record routing_table =
  rt_local_id :: node_id
  rt_buckets :: "kbucket list"

definition rt_new :: "node_id \<Rightarrow> routing_table" where
  "rt_new local_id = \<lparr>rt_local_id = local_id, rt_buckets = replicate 160 []\<rparr>"

definition rt_insert :: "int \<Rightarrow> routing_table \<Rightarrow> contact \<Rightarrow> bool \<times> routing_table" where
  "rt_insert now rt c =
     (if ct_id c = rt_local_id rt then (False, rt)
      else case bucket_index (rt_local_id rt) (ct_id c) of
        None \<Rightarrow> (False, rt)
      | Some bucket \<Rightarrow>
          let (r, b) = kbucket_insert now (rt_buckets rt ! bucket) c
          in (r, rt\<lparr>rt_buckets := (rt_buckets rt)[bucket := b]\<rparr>))"

definition rt_contacts :: "routing_table \<Rightarrow> contact list" where
  "rt_contacts rt = concat (rt_buckets rt)"

definition closest :: "routing_table \<Rightarrow> node_id \<Rightarrow> nat \<Rightarrow> contact list" where
  "closest rt target count = take count (sort_key (\<lambda>c. distance (ct_id c) target) (rt_contacts rt))"

definition rt_len :: "routing_table \<Rightarrow> nat" where
  "rt_len rt = sum_list (map length (rt_buckets rt))"

definition rt_is_empty :: "routing_table \<Rightarrow> bool" where
  "rt_is_empty rt = list_all (\<lambda>b. b = []) (rt_buckets rt)"

section \<open>Distances\<close>

lemma length_distance [simp]: "length (distance a b) = min (length a) (length b)"
  by (simp add: distance_def)

lemma xor_cancel: "(y XOR x) XOR x = y" for x y :: u8
  by (simp add: xor.assoc)

lemma xor_eq_iff: "y XOR x = z XOR x \<longleftrightarrow> y = z" "y XOR x = 0 \<longleftrightarrow> y = x" for x y z :: u8
proof -
  show "y XOR x = z XOR x \<longleftrightarrow> y = z" using xor_cancel [of y x] xor_cancel [of z x] by metis
  show "y XOR x = 0 \<longleftrightarrow> y = x" using xor_cancel [of y x] by auto
qed

lemma distance_Cons [simp]: "distance (x # a) (y # b) = (x XOR y) # distance a b" "distance [] b = []" "distance a [] = []"
  by (simp_all add: distance_def)

lemma distance_inj: "length a = length t \<Longrightarrow> length b = length t \<Longrightarrow> distance a t = distance b t \<Longrightarrow> a = b"
proof (induction t arbitrary: a b)
  case (Cons x t)
  obtain y a' where a: "a = y # a'" using Cons.prems(1) by (cases a) auto
  obtain z b' where b: "b = z # b'" using Cons.prems(2) by (cases b) auto
  have "a' = b'" by (rule Cons.IH) (use Cons.prems a b in auto)
  then show ?case using Cons.prems(3) a b by (simp add: xor_eq_iff(1))
qed simp

lemma distance_zero: "length a = length b \<Longrightarrow> (\<forall>x \<in> set (distance a b). x = 0) \<longleftrightarrow> a = b"
proof (induction b arbitrary: a)
  case (Cons x b)
  obtain y a' where a: "a = y # a'" using Cons.prems by (cases a) auto
  have "(\<forall>x \<in> set (distance a' b). x = 0) \<longleftrightarrow> a' = b" by (rule Cons.IH) (use Cons.prems a in simp)
  then show ?case using a by (simp add: xor_eq_iff(2))
qed simp

lemma leading_zeros_bounds:
  assumes "b \<noteq> 0"
  shows "leading_zeros b \<le> 7 \<and> 2 ^ (7 - leading_zeros b) \<le> unat b \<and> unat b < 2 ^ (8 - leading_zeros b)"
proof -
  have "0 < unat b" using assms by (simp add: unat_gt_0)
  then consider "128 \<le> unat b" | "64 \<le> unat b" "unat b < 128" | "32 \<le> unat b" "unat b < 64" | "16 \<le> unat b" "unat b < 32"
    | "8 \<le> unat b" "unat b < 16" | "4 \<le> unat b" "unat b < 8" | "2 \<le> unat b" "unat b < 4" | "unat b = 1"
    by linarith
  then show ?thesis using octet_less [of b] by cases (simp_all add: leading_zeros_def word_le_nat_alt)
qed

lemma first_bit_bounds:
  "first_bit i d = Some n \<Longrightarrow>
     i * 8 \<le> n \<and> n < (i + length d) * 8 \<and> 2 ^ ((i + length d) * 8 - 1 - n) \<le> be_nat d \<and> be_nat d < 2 ^ ((i + length d) * 8 - n)"
proof (induction d arbitrary: i)
  case (Cons x d)
  let ?L = "length d"
  show ?case
  proof (cases "x = 0")
    case True
    then have "be_nat (x # d) = be_nat d" by (simp add: be_nat_Cons)
    then show ?thesis using True Cons.IH [of "i + 1"] Cons.prems by (simp add: algebra_simps)
  next
    case False
    then have n: "n = i * 8 + leading_zeros x" using Cons.prems by simp
    note lz = leading_zeros_bounds [OF False]
    let ?l = "leading_zeros x"
    have e1: "(i + length (x # d)) * 8 - 1 - n = (7 - ?l) + 8 * ?L" "(i + length (x # d)) * 8 - n = (8 - ?l) + 8 * ?L"
      using lz n by auto
    have p: "(2 :: nat) ^ (k + 8 * ?L) = 2 ^ k * 256 ^ ?L" for k by (simp add: power_add power_mult)
    have "2 ^ (7 - ?l) * 256 ^ ?L \<le> unat x * 256 ^ ?L" using lz by (intro mult_le_mono1) blast
    moreover have "(unat x + 1) * 256 ^ ?L \<le> 2 ^ (8 - ?l) * 256 ^ ?L" using lz by (intro mult_le_mono1) simp
    then have "unat x * 256 ^ ?L + 256 ^ ?L \<le> 2 ^ (8 - ?l) * 256 ^ ?L" unfolding add_mult_distrib by simp
    ultimately have "2 ^ (7 - ?l) * 256 ^ ?L \<le> be_nat (x # d)" "be_nat (x # d) < 2 ^ (8 - ?l) * 256 ^ ?L"
      using be_nat_less [of d] unfolding be_nat_Cons by linarith+
    then show ?thesis unfolding e1 p using n lz by simp
  qed
qed simp

lemma first_bit_None: "first_bit i d = None \<longleftrightarrow> (\<forall>x \<in> set d. x = 0)"
  by (induction d arbitrary: i) auto

text \<open>The bucket of an identifier is the binary logarithm of its distance.\<close>

lemma bucket_index_log:
  assumes "length a = 20" "length b = 20" "bucket_index a b = Some i"
  shows "i < 160 \<and> 2 ^ i \<le> be_nat (distance a b) \<and> be_nat (distance a b) < 2 ^ (i + 1)"
proof -
  obtain n where n: "first_bit 0 (distance a b) = Some n" "i = 159 - n" using assms(3) by (auto simp: bucket_index_def split: option.splits)
  then have b: "n < 160" "2 ^ (159 - n) \<le> be_nat (distance a b)" "be_nat (distance a b) < 2 ^ (160 - n)"
    using first_bit_bounds [OF n(1)] assms(1,2) by simp_all
  moreover have "160 - n = i + 1" using n(2) b(1) by simp
  ultimately show ?thesis using n(2) by simp
qed

lemma bucket_index_None: "length a = length b \<Longrightarrow> bucket_index a b = None \<longleftrightarrow> a = b"
  using distance_zero [of a b] first_bit_None [of 0 "distance a b"] by (cases "first_bit 0 (distance a b)") (auto simp: bucket_index_def)

section \<open>The invariant\<close>

definition bucket_ok :: "node_id \<Rightarrow> nat \<Rightarrow> kbucket \<Rightarrow> bool" where
  "bucket_ok me i b \<longleftrightarrow> length b \<le> K \<and> distinct (map ct_id b) \<and>
     (\<forall>c \<in> set b. length (ct_id c) = 20 \<and> bucket_index me (ct_id c) = Some i)"

definition rt_ok :: "routing_table \<Rightarrow> bool" where
  "rt_ok rt \<longleftrightarrow> length (rt_local_id rt) = 20 \<and> length (rt_buckets rt) = 160 \<and>
     (\<forall>i < 160. bucket_ok (rt_local_id rt) i (rt_buckets rt ! i))"

lemma remove_at_split:
  assumes "i < length xs"
  obtains ys zs where "xs = ys @ xs ! i # zs" "remove_at i xs = ys @ zs" "length ys = i"
  using assms id_take_nth_drop [OF assms] by (intro that [of "take i xs" "drop (Suc i) xs"]) (simp_all add: remove_at_def)

text \<open>
  What inserting into a bucket does: the contact's identifier is present afterwards with its new address, unless
  the bucket was full of good contacts; no good contact of another identifier is lost.
\<close>

lemma kbucket_insert_spec:
  assumes "kbucket_insert now cs c = (r, cs')" "length cs \<le> K" "distinct (map ct_id cs)"
  shows "length cs' \<le> K \<and> distinct (map ct_id cs') \<and> ct_id ` set cs' \<subseteq> insert (ct_id c) (ct_id ` set cs) \<and>
    (r \<longrightarrow> (\<exists>x \<in> set cs'. ct_id x = ct_id c \<and> ct_addr x = ct_addr c \<and> ct_last_seen x = ct_last_seen c)) \<and>
    (\<not> r \<longrightarrow> cs' = cs \<and> length cs = K \<and> ct_id c \<notin> ct_id ` set cs \<and> (\<forall>x \<in> set cs. is_good now x)) \<and>
    (\<forall>x \<in> set cs. is_good now x \<and> ct_id x \<noteq> ct_id c \<longrightarrow> x \<in> set cs')"
proof (cases "position (\<lambda>x. ct_id x = ct_id c) cs")
  case (Some pos)
  let ?e = "(cs ! pos)\<lparr>ct_last_seen := ct_last_seen c, ct_addr := ct_addr c\<rparr>"
  have pos: "pos < length cs" "ct_id (cs ! pos) = ct_id c" using position_SomeD [OF Some] by blast+
  obtain ys zs where sp: "cs = ys @ cs ! pos # zs" "remove_at pos cs = ys @ zs" by (rule remove_at_split [OF pos(1)])
  have r: "r" "cs' = ys @ zs @ [?e]" using assms(1) Some sp(2) by (auto simp: kbucket_insert_def Let_def)
  have len: "length cs' = length cs" using r(2) sp(1) by (metis length_append length_Cons length_append_singleton append_assoc add_Suc_right)
  have ids: "distinct (map ct_id (ys @ zs))" "ct_id c \<notin> ct_id ` set (ys @ zs)"
    using assms(3) pos(2) arg_cong [OF sp(1), of "map ct_id"] by auto
  have mem: "set cs = insert (cs ! pos) (set ys \<union> set zs)" using arg_cong [OF sp(1), of set] by auto
  show ?thesis using r len ids mem assms(2) pos(2) by auto
next
  case None
  then have new: "ct_id c \<notin> ct_id ` set cs" by auto
  show ?thesis
  proof (cases "length cs < K")
    case True
    then have "r" "cs' = cs @ [c]" using assms(1) None by (auto simp: kbucket_insert_def)
    then show ?thesis using True new assms(3) by auto
  next
    case full: False
    show ?thesis
    proof (cases "position (\<lambda>x. \<not> is_good now x) cs")
      case none: None
      then have "\<not> r" "cs' = cs" using assms(1) None full by (auto simp: kbucket_insert_def simp del: position_None)
      then show ?thesis using full new assms(2,3) none by auto
    next
      case (Some pos)
      have pos: "pos < length cs" "\<not> is_good now (cs ! pos)" using position_SomeD [OF Some] by blast+
      obtain ys zs where sp: "cs = ys @ cs ! pos # zs" "remove_at pos cs = ys @ zs" by (rule remove_at_split [OF pos(1)])
      have r: "r" "cs' = ys @ zs @ [c]" using assms(1) None full Some sp(2) by (auto simp: kbucket_insert_def simp del: position_None)
      have len: "length cs' = length cs" using r(2) sp(1) by (metis length_append length_Cons length_append_singleton append_assoc add_Suc_right)
      have ids: "distinct (map ct_id (ys @ zs))" using assms(3) arg_cong [OF sp(1), of "map ct_id"] by auto
      have mem: "set cs = insert (cs ! pos) (set ys \<union> set zs)" using arg_cong [OF sp(1), of set] by auto
      show ?thesis using r len ids mem assms(2) new pos(2) by auto
    qed
  qed
qed

lemma rt_ok_contact:
  "rt_ok rt \<Longrightarrow> i < 160 \<Longrightarrow> x \<in> set (rt_buckets rt ! i) \<Longrightarrow> length (ct_id x) = 20 \<and> bucket_index (rt_local_id rt) (ct_id x) = Some i"
  by (simp add: rt_ok_def bucket_ok_def)

lemma rt_new_ok: "length me = 20 \<Longrightarrow> rt_ok (rt_new me)"
  by (simp add: rt_ok_def rt_new_def bucket_ok_def)

lemma rt_insert_bucket:
  assumes "rt_ok rt" "length (ct_id c) = 20" "ct_id c \<noteq> rt_local_id rt"
  obtains i r b where "i < 160" "bucket_index (rt_local_id rt) (ct_id c) = Some i" "kbucket_insert now (rt_buckets rt ! i) c = (r, b)"
    "rt_insert now rt c = (r, rt\<lparr>rt_buckets := (rt_buckets rt)[i := b]\<rparr>)"
proof -
  obtain i where i: "bucket_index (rt_local_id rt) (ct_id c) = Some i"
    using bucket_index_None [of "rt_local_id rt" "ct_id c"] assms by (auto simp: rt_ok_def)
  then have "i < 160" using bucket_index_log [OF _ assms(2) i] assms(1) by (simp add: rt_ok_def)
  then show thesis using that [of i "fst (kbucket_insert now (rt_buckets rt ! i) c)" "snd (kbucket_insert now (rt_buckets rt ! i) c)"] i assms(3)
    by (simp add: rt_insert_def case_prod_beta)
qed

lemma rt_insert_ok:
  assumes "rt_ok rt" "length (ct_id c) = 20" "rt_insert now rt c = (r, rt')"
  shows "rt_ok rt' \<and> rt_local_id rt' = rt_local_id rt"
proof (cases "ct_id c = rt_local_id rt")
  case True
  then show ?thesis using assms by (simp add: rt_insert_def)
next
  case False
  obtain i r' b where i: "i < 160" "bucket_index (rt_local_id rt) (ct_id c) = Some i" "kbucket_insert now (rt_buckets rt ! i) c = (r', b)"
    "rt_insert now rt c = (r', rt\<lparr>rt_buckets := (rt_buckets rt)[i := b]\<rparr>)" by (rule rt_insert_bucket [OF assms(1,2) False])
  have ok: "bucket_ok (rt_local_id rt) i (rt_buckets rt ! i)" using assms(1) i(1) by (simp add: rt_ok_def)
  have "bucket_ok (rt_local_id rt) i b"
  proof -
    have K: "length b \<le> K" "distinct (map ct_id b)" "ct_id ` set b \<subseteq> insert (ct_id c) (ct_id ` set (rt_buckets rt ! i))"
      using kbucket_insert_spec [OF i(3)] ok by (auto simp: bucket_ok_def)
    have "length (ct_id x) = 20 \<and> bucket_index (rt_local_id rt) (ct_id x) = Some i" if "x \<in> set b" for x
    proof -
      have "ct_id x \<in> insert (ct_id c) (ct_id ` set (rt_buckets rt ! i))" using K(3) that by blast
      then show ?thesis using ok assms(2) i(2) by (auto simp: bucket_ok_def)
    qed
    then show ?thesis using K(1,2) by (simp add: bucket_ok_def)
  qed
  then have "bucket_ok (rt_local_id rt) j ((rt_buckets rt)[i := b] ! j)" if "j < 160" for j
    using assms(1) that i(1) by (cases "j = i") (simp_all add: rt_ok_def)
  moreover have "rt' = rt\<lparr>rt_buckets := (rt_buckets rt)[i := b]\<rparr>" using assms(3) i(4) by simp
  ultimately show ?thesis using assms(1) by (simp add: rt_ok_def)
qed

definition rt_run :: "node_id \<Rightarrow> (int \<times> contact) list \<Rightarrow> routing_table" where
  "rt_run me cs = foldl (\<lambda>rt (now, c). snd (rt_insert now rt c)) (rt_new me) cs"

lemma rt_run_ok:
  assumes "length me = 20" "\<forall>(now, c) \<in> set cs. length (ct_id c) = 20"
  shows "rt_ok (rt_run me cs) \<and> rt_local_id (rt_run me cs) = me"
  using assms(2)
proof (induction cs rule: rev_induct)
  case Nil
  then show ?case using rt_new_ok [OF assms(1)] by (simp add: rt_run_def rt_new_def)
next
  case (snoc nc cs)
  obtain now c where nc: "nc = (now, c)" by fastforce
  have "rt_ok (rt_run me cs) \<and> rt_local_id (rt_run me cs) = me" using snoc by simp
  moreover have "rt_run me (cs @ [nc]) = snd (rt_insert now (rt_run me cs) c)" by (simp add: rt_run_def nc)
  ultimately show ?case
    using rt_insert_ok [of "rt_run me cs" c now "fst (rt_insert now (rt_run me cs) c)" "snd (rt_insert now (rt_run me cs) c)"] snoc.prems nc
    by simp
qed

lemma rt_contacts_bucket: "length (rt_buckets rt) = 160 \<Longrightarrow> x \<in> set (rt_contacts rt) \<longleftrightarrow> (\<exists>i < 160. x \<in> set (rt_buckets rt ! i))"
  by (auto simp: rt_contacts_def in_set_conv_nth [of _ "rt_buckets rt"]) (metis nth_mem)

lemma distinct_concat_nth:
  assumes "\<forall>i < length xss. distinct (map f (xss ! i))"
    "\<And>i j x y. i < length xss \<Longrightarrow> j < length xss \<Longrightarrow> x \<in> set (xss ! i) \<Longrightarrow> y \<in> set (xss ! j) \<Longrightarrow> f x = f y \<Longrightarrow> i = j"
  shows "distinct (map f (concat xss))"
  using assms
proof (induction xss)
  case (Cons xs xss)
  have "distinct (map f (concat xss))"
  proof (rule Cons.IH)
    show "\<forall>i < length xss. distinct (map f (xss ! i))" using Cons.prems(1) by auto
    show "i = j" if "i < length xss" "j < length xss" "x \<in> set (xss ! i)" "y \<in> set (xss ! j)" "f x = f y" for i j x y
      using Cons.prems(2) [of "Suc i" "Suc j" x y] that by simp
  qed
  moreover have "f x \<noteq> f y" if xy: "x \<in> set xs" "y \<in> set (concat xss)" for x y
  proof
    assume eq: "f x = f y"
    obtain j where "j < length xss" "y \<in> set (xss ! j)" using xy(2) by (auto simp: in_set_conv_nth [of _ xss])
    then show False using Cons.prems(2) [of 0 "Suc j" x y] xy(1) eq by simp
  qed
  ultimately show ?case using Cons.prems(1) by (auto simp: image_iff)
qed simp

lemma rt_distinct:
  assumes "rt_ok rt"
  shows "distinct (map ct_id (rt_contacts rt))" "rt_local_id rt \<notin> ct_id ` set (rt_contacts rt)"
proof -
  have "i = j" if "i < 160" "j < 160" "x \<in> set (rt_buckets rt ! i)" "y \<in> set (rt_buckets rt ! j)" "ct_id x = ct_id y" for i j x y
  proof -
    show ?thesis using rt_ok_contact [OF assms that(1,3)] rt_ok_contact [OF assms that(2,4)] that(5) by simp
  qed
  then show "distinct (map ct_id (rt_contacts rt))"
    unfolding rt_contacts_def using assms by (intro distinct_concat_nth) (simp_all add: rt_ok_def bucket_ok_def)
  show "rt_local_id rt \<notin> ct_id ` set (rt_contacts rt)"
  proof
    assume "rt_local_id rt \<in> ct_id ` set (rt_contacts rt)"
    then obtain x i where "i < 160" "x \<in> set (rt_buckets rt ! i)" "ct_id x = rt_local_id rt"
      using assms rt_contacts_bucket [of rt] by (auto simp: rt_ok_def)
    then have "bucket_index (rt_local_id rt) (rt_local_id rt) = Some i" using rt_ok_contact [OF assms] by metis
    then show False using bucket_index_None [of "rt_local_id rt" "rt_local_id rt"] by simp
  qed
qed

section \<open>Insertion and lookup\<close>

lemma rt_insert_kept:
  assumes "rt_ok rt" "rt_ok rt'" "i < 160" "rt' = rt\<lparr>rt_buckets := (rt_buckets rt)[i := b]\<rparr>" "x \<in> set (rt_contacts rt)"
    "x \<in> set (rt_buckets rt ! i) \<Longrightarrow> x \<in> set b"
  shows "x \<in> set (rt_contacts rt')"
proof -
  have len: "length (rt_buckets rt) = 160" "length (rt_buckets rt') = 160" using assms(1,2) by (simp_all add: rt_ok_def)
  obtain j where j: "j < 160" "x \<in> set (rt_buckets rt ! j)" using rt_contacts_bucket [OF len(1)] assms(5) by auto
  then have "x \<in> set (rt_buckets rt' ! j)" using assms(3,4,6) len(1) by (cases "j = i") simp_all
  then show ?thesis using j(1) rt_contacts_bucket [OF len(2)] by auto
qed

lemma rt_insert_effect:
  assumes ok: "rt_ok rt" and c: "length (ct_id c) = 20" and ins: "rt_insert now rt c = (r, rt')"
  shows "r \<Longrightarrow> \<exists>x \<in> set (rt_contacts rt'). ct_id x = ct_id c \<and> ct_addr x = ct_addr c \<and> ct_last_seen x = ct_last_seen c"
    "\<not> r \<Longrightarrow> rt' = rt \<and> (ct_id c = rt_local_id rt \<or> ct_id c \<notin> ct_id ` set (rt_contacts rt))"
    "x \<in> set (rt_contacts rt) \<Longrightarrow> is_good now x \<Longrightarrow> ct_id x \<noteq> ct_id c \<Longrightarrow> x \<in> set (rt_contacts rt')"
proof -
  have ok': "rt_ok rt'" using rt_insert_ok [OF ok c ins] by blast
  have len: "length (rt_buckets rt) = 160" "length (rt_buckets rt') = 160" using ok ok' by (simp_all add: rt_ok_def)
  have "(r \<longrightarrow> (\<exists>x \<in> set (rt_contacts rt'). ct_id x = ct_id c \<and> ct_addr x = ct_addr c \<and> ct_last_seen x = ct_last_seen c)) \<and>
    (\<not> r \<longrightarrow> rt' = rt \<and> (ct_id c = rt_local_id rt \<or> ct_id c \<notin> ct_id ` set (rt_contacts rt))) \<and>
    (\<forall>x \<in> set (rt_contacts rt). is_good now x \<and> ct_id x \<noteq> ct_id c \<longrightarrow> x \<in> set (rt_contacts rt'))" (is "?in \<and> ?out \<and> ?kept")
  proof (cases "ct_id c = rt_local_id rt")
    case True
    then show ?thesis using ins by (simp add: rt_insert_def)
  next
    case False
    obtain i r' b where i: "i < 160" "bucket_index (rt_local_id rt) (ct_id c) = Some i" "kbucket_insert now (rt_buckets rt ! i) c = (r', b)"
      "rt_insert now rt c = (r', rt\<lparr>rt_buckets := (rt_buckets rt)[i := b]\<rparr>)" by (rule rt_insert_bucket [OF ok c False])
    have rt': "r = r'" "rt' = rt\<lparr>rt_buckets := (rt_buckets rt)[i := b]\<rparr>" using i(4) ins by simp_all
    have bok: "length (rt_buckets rt ! i) \<le> K" "distinct (map ct_id (rt_buckets rt ! i))" using ok i(1) by (simp_all add: rt_ok_def bucket_ok_def)
    note spec = kbucket_insert_spec [OF i(3) bok]
    have S: "r' \<Longrightarrow> \<exists>x \<in> set b. ct_id x = ct_id c \<and> ct_addr x = ct_addr c \<and> ct_last_seen x = ct_last_seen c"
      "\<not> r' \<Longrightarrow> b = rt_buckets rt ! i" "\<not> r' \<Longrightarrow> ct_id c \<notin> ct_id ` set (rt_buckets rt ! i)"
      "\<And>x. x \<in> set (rt_buckets rt ! i) \<Longrightarrow> is_good now x \<Longrightarrow> ct_id x \<noteq> ct_id c \<Longrightarrow> x \<in> set b"
      using spec by simp_all
    have "set b \<subseteq> set (rt_contacts rt')"
      using rt_contacts_bucket [OF len(2)] i(1) len(1) by (auto simp: rt'(2) intro!: exI [of _ i])
    then have ?in using S(1) rt'(1) by (meson subsetD)
    moreover have "ct_id c \<notin> ct_id ` set (rt_contacts rt)" if nr: "\<not> r"
    proof
      assume "ct_id c \<in> ct_id ` set (rt_contacts rt)"
      then obtain j x where jx: "j < 160" "x \<in> set (rt_buckets rt ! j)" "ct_id x = ct_id c"
        using rt_contacts_bucket [OF len(1)] by auto
      then have "j = i" using rt_ok_contact [OF ok jx(1,2)] i(2) by simp
      then show False using S(3) nr rt'(1) jx(2,3) by (metis imageI)
    qed
    moreover have "rt' = rt" if "\<not> r" using S(2) that rt' by simp
    moreover have ?kept using rt_insert_kept [OF ok ok' i(1) rt'(2)] S(4) by meson
    ultimately show ?thesis by blast
  qed
  then show "r \<Longrightarrow> \<exists>x \<in> set (rt_contacts rt'). ct_id x = ct_id c \<and> ct_addr x = ct_addr c \<and> ct_last_seen x = ct_last_seen c"
    "\<not> r \<Longrightarrow> rt' = rt \<and> (ct_id c = rt_local_id rt \<or> ct_id c \<notin> ct_id ` set (rt_contacts rt))"
    "x \<in> set (rt_contacts rt) \<Longrightarrow> is_good now x \<Longrightarrow> ct_id x \<noteq> ct_id c \<Longrightarrow> x \<in> set (rt_contacts rt')" by blast+
qed

text \<open>
  C20: whatever contacts are inserted, the table keeps at most eight per bucket, no identifier twice and never
  the local one, and files each contact under the binary logarithm of its distance. An insertion leaves the
  contact in the table with its new address or reports that its bucket is full of good contacts, and loses
  no good contact of another identifier.
\<close>

theorem routing_insert:
  assumes "length me = 20" "\<forall>(now, c) \<in> set cs. length (ct_id c) = 20" "length (ct_id c) = 20"
  defines "rt \<equiv> rt_run me cs"
  assumes "rt_insert now rt c = (r, rt')"
  shows "distinct (map ct_id (rt_contacts rt)) \<and> me \<notin> ct_id ` set (rt_contacts rt) \<and>
    (\<forall>i < 160. length (rt_buckets rt ! i) \<le> 8 \<and>
       (\<forall>x \<in> set (rt_buckets rt ! i). 2 ^ i \<le> be_nat (distance me (ct_id x)) \<and> be_nat (distance me (ct_id x)) < 2 ^ (i + 1))) \<and>
    (r \<longrightarrow> (\<exists>x \<in> set (rt_contacts rt'). ct_id x = ct_id c \<and> ct_addr x = ct_addr c \<and> ct_last_seen x = ct_last_seen c)) \<and>
    (\<not> r \<longrightarrow> rt' = rt \<and> (ct_id c = me \<or> ct_id c \<notin> ct_id ` set (rt_contacts rt))) \<and>
    (\<forall>x \<in> set (rt_contacts rt). is_good now x \<and> ct_id x \<noteq> ct_id c \<longrightarrow> x \<in> set (rt_contacts rt'))"
proof -
  have ok: "rt_ok rt" and me: "rt_local_id rt = me" using rt_run_ok [OF assms(1,2)] by (simp_all add: rt_def)
  note E = rt_insert_effect [OF ok assms(3,5)]
  have "2 ^ i \<le> be_nat (distance me (ct_id x)) \<and> be_nat (distance me (ct_id x)) < 2 ^ (i + 1)"
    if "i < 160" "x \<in> set (rt_buckets rt ! i)" for i x
    using bucket_index_log [OF assms(1)] rt_ok_contact [OF ok that] me by blast
  moreover have "length (rt_buckets rt ! i) \<le> 8" if "i < 160" for i
    using ok that by (simp add: rt_ok_def bucket_ok_def K_def)
  ultimately show ?thesis using rt_distinct [OF ok] me E by blast
qed

definition sample_me :: node_id where "sample_me = replicate 20 0"

definition sample_contact :: "u8 \<Rightarrow> contact" where
  "sample_contact n = \<lparr>ct_id = replicate 19 0 @ [n], ct_addr = SocketAddr (V4 10 0 0 n) 6881, ct_last_seen = 0\<rparr>"

theorem routing_insert_witness:
  "let rt = rt_run sample_me [(0, sample_contact 1), (0, sample_contact 5)]; (r, rt') = rt_insert 0 rt (sample_contact 4)
   in r \<and> (\<exists>x \<in> set (rt_contacts rt'). ct_id x = ct_id (sample_contact 4)) \<and> distinct (map ct_id (rt_contacts rt))"
proof -
  let ?cs = "[(0 :: int, sample_contact 1), (0, sample_contact 5)]"
  obtain r rt' where ins: "rt_insert 0 (rt_run sample_me ?cs) (sample_contact 4) = (r, rt')" by fastforce
  have "fst (rt_insert 0 (rt_run sample_me ?cs) (sample_contact 4))" by code_simp
  then have "r" using ins by simp
  moreover have "length (ct_id (sample_contact n)) = 20" for n by (simp add: sample_contact_def)
  ultimately show ?thesis using routing_insert [of sample_me ?cs "sample_contact 4" 0 r rt'] ins
    by (simp add: sample_me_def) blast
qed

lemma rt_ok_id: "rt_ok rt \<Longrightarrow> x \<in> set (rt_contacts rt) \<Longrightarrow> length (ct_id x) = 20"
  using rt_ok_contact [of rt] rt_contacts_bucket [of rt x] by (auto simp: rt_ok_def)

lemma closest_spec:
  assumes ok: "rt_ok rt" and len: "length target = 20"
  shows "sorted_wrt (<) (map (\<lambda>c. distance (ct_id c) target) (closest rt target n)) \<and>
    length (closest rt target n) = min n (rt_len rt) \<and> set (closest rt target n) \<subseteq> set (rt_contacts rt) \<and>
    (\<forall>x \<in> set (rt_contacts rt) - set (closest rt target n). \<forall>y \<in> set (closest rt target n).
       distance (ct_id y) target < distance (ct_id x) target)"
proof -
  let ?d = "\<lambda>c. distance (ct_id c) target"
  let ?all = "sort_key ?d (rt_contacts rt)"
  note len20 = rt_ok_id [OF ok]
  have inj: "inj_on ?d (set (rt_contacts rt))"
    using rt_distinct(1) [OF ok] distance_inj len20 len by (auto simp: inj_on_def distinct_map)
  moreover have "distinct (rt_contacts rt)" using rt_distinct(1) [OF ok] by (simp add: distinct_map)
  ultimately have "distinct (map ?d ?all)" by (simp add: distinct_map)
  then have strict: "sorted_wrt (<) (map ?d ?all)" by (simp add: strict_sorted_iff)
  then have "sorted_wrt (<) (map ?d (take n ?all) @ map ?d (drop n ?all))" by (simp flip: map_append)
  then have *: "sorted_wrt (<) (map ?d (take n ?all))" "\<forall>y \<in> set (take n ?all). \<forall>x \<in> set (drop n ?all). ?d y < ?d x"
    by (auto simp: sorted_wrt_append)
  have "length (rt_contacts rt) = rt_len rt" by (simp add: rt_contacts_def rt_len_def length_concat)
  moreover have "set (rt_contacts rt) = set (take n ?all) \<union> set (drop n ?all)" by (metis append_take_drop_id set_append set_sort)
  ultimately show ?thesis using * by (auto simp: closest_def)
qed

text \<open>
  C21: \<open>closest\<close> returns the contacts of the table nearest to the target, as many as asked for or all of them, in
  strictly increasing order of distance: every contact it leaves out is farther than every one it returns.
\<close>

theorem closest_nearest:
  assumes "length me = 20" "\<forall>(now, c) \<in> set cs. length (ct_id c) = 20" "length target = 20"
  defines "rt \<equiv> rt_run me cs"
  shows "sorted_wrt (<) (map (\<lambda>c. distance (ct_id c) target) (closest rt target n)) \<and>
    length (closest rt target n) = min n (rt_len rt) \<and> set (closest rt target n) \<subseteq> set (rt_contacts rt) \<and>
    (\<forall>x \<in> set (rt_contacts rt) - set (closest rt target n). \<forall>y \<in> set (closest rt target n).
       distance (ct_id y) target < distance (ct_id x) target)"
  unfolding rt_def by (rule closest_spec) (use rt_run_ok [OF assms(1,2)] assms(3) in simp_all)

theorem closest_nearest_witness:
  "let rt = rt_run sample_me [(0, sample_contact 1), (0, sample_contact 5), (0, sample_contact 9)]
   in closest rt (ct_id (sample_contact 4)) 2 = [sample_contact 5, sample_contact 1] \<and>
      sorted_wrt (<) (map (\<lambda>c. distance (ct_id c) (ct_id (sample_contact 4))) (closest rt (ct_id (sample_contact 4)) 2))"
proof -
  let ?cs = "[(0 :: int, sample_contact 1), (0, sample_contact 5), (0, sample_contact 9)]"
  have "closest (rt_run sample_me ?cs) (ct_id (sample_contact 4)) 2 = [sample_contact 5, sample_contact 1]" by code_simp
  moreover have "length (ct_id (sample_contact k)) = 20" for k by (simp add: sample_contact_def)
  ultimately show ?thesis using closest_nearest [of sample_me ?cs "ct_id (sample_contact 4)" 2] by (simp add: sample_me_def Let_def)
qed

end
