(* ===== verification/RT_Krpc.thy ===== *)
theory RT_Krpc
  imports RT_Bencode RT_Dht_Routing
begin

text \<open>
  The DHT's message codec, \<open>src/src/dht/krpc.rs\<close>: queries, responses and errors as bencoded dictionaries, and the
  compact forms of contacts and peers.
\<close>

section \<open>Messages\<close>

datatype krpc_query =
    Ping node_id
  | FindNode node_id node_id
  | GetPeers node_id bytes
  | AnnouncePeer node_id bytes u16 bytes bool

datatype krpc_response =
    RId node_id
  | RNodes node_id "contact list"
  | RPeers node_id bytes "socket_addr list"
  | RPeersNodes node_id bytes "contact list"

datatype krpc_message =
    KQuery bytes krpc_query
  | KResponse bytes krpc_response
  | KError bytes int bytes

section \<open>Encoding\<close>

definition build_dict :: "(bytes \<times> bvalue) list \<Rightarrow> bvalue" where
  "build_dict entries = BDict (foldl (\<lambda>d (k, v). btree_insert k v d) [] entries)"

fun encode_into :: "bvalue \<Rightarrow> bytes"
  and encode_items :: "bvalue list \<Rightarrow> bytes"
  and encode_entries :: "(bytes \<times> bvalue) list \<Rightarrow> bytes" where
  "encode_into (BInt i) = 105 # show_int i @ [101]"
| "encode_into (BBytes b) = show_nat (length b) @ 58 # b"
| "encode_into (BList items) = 108 # encode_items items @ [101]"
| "encode_into (BDict d) = 100 # encode_entries d @ [101]"
| "encode_items [] = []"
| "encode_items (v # items) = encode_into v @ encode_items items"
| "encode_entries [] = []"
| "encode_entries ((k, v) # d) = encode_into (BBytes k) @ encode_into v @ encode_entries d"

definition bencode_encode :: "bvalue \<Rightarrow> bytes" where
  "bencode_encode v = encode_into v"

fun nodes_to_bytes :: "contact list \<Rightarrow> bytes" where
  "nodes_to_bytes [] = []"
| "nodes_to_bytes (c # nodes) =
     (case ct_addr c of
        SocketAddr (V4 x y z w) port \<Rightarrow> ct_id c @ [x, y, z, w] @ be16 port
      | SocketAddr (V6 _) _ \<Rightarrow> []) @ nodes_to_bytes nodes"

fun values_entries :: "socket_addr list \<Rightarrow> bvalue list" where
  "values_entries [] = []"
| "values_entries (addr # values) =
     (case addr of
        SocketAddr (V4 x y z w) port \<Rightarrow> [BBytes ([x, y, z, w] @ be16 port)]
      | SocketAddr (V6 _) _ \<Rightarrow> []) @ values_entries values"

definition values_to_list :: "socket_addr list \<Rightarrow> bvalue" where
  "values_to_list values = BList (values_entries values)"

definition query_dict :: "bytes \<Rightarrow> bytes \<Rightarrow> bvalue \<Rightarrow> bvalue" where
  "query_dict name txid args =
     build_dict [(ascii ''a'', args), (ascii ''q'', BBytes name), (ascii ''t'', BBytes txid), (ascii ''y'', BBytes (ascii ''q''))]"

fun query_value :: "bytes \<Rightarrow> krpc_query \<Rightarrow> bvalue" where
  "query_value txid (Ping i) = query_dict (ascii ''ping'') txid (build_dict [(ascii ''id'', BBytes i)])"
| "query_value txid (FindNode i target) =
     query_dict (ascii ''find_node'') txid (build_dict [(ascii ''id'', BBytes i), (ascii ''target'', BBytes target)])"
| "query_value txid (GetPeers i info_hash) =
     query_dict (ascii ''get_peers'') txid (build_dict [(ascii ''id'', BBytes i), (ascii ''info_hash'', BBytes info_hash)])"
| "query_value txid (AnnouncePeer i info_hash port token implied_port) =
     query_dict (ascii ''announce_peer'') txid
       (build_dict [(ascii ''id'', BBytes i), (ascii ''implied_port'', BInt (if implied_port then 1 else 0)),
          (ascii ''info_hash'', BBytes info_hash), (ascii ''port'', BInt (uint port)), (ascii ''token'', BBytes token)])"

fun response_value :: "krpc_response \<Rightarrow> bvalue" where
  "response_value (RId i) = build_dict [(ascii ''id'', BBytes i)]"
| "response_value (RNodes i nodes) = build_dict [(ascii ''id'', BBytes i), (ascii ''nodes'', BBytes (nodes_to_bytes nodes))]"
| "response_value (RPeers i token values) =
     build_dict [(ascii ''id'', BBytes i), (ascii ''token'', BBytes token), (ascii ''values'', values_to_list values)]"
| "response_value (RPeersNodes i token nodes) =
     build_dict [(ascii ''id'', BBytes i), (ascii ''nodes'', BBytes (nodes_to_bytes nodes)), (ascii ''token'', BBytes token)]"

fun krpc_encode :: "krpc_message \<Rightarrow> bytes" where
  "krpc_encode (KQuery txid query) = bencode_encode (query_value txid query)"
| "krpc_encode (KResponse txid response) =
     bencode_encode (build_dict [(ascii ''r'', response_value response), (ascii ''t'', BBytes txid), (ascii ''y'', BBytes (ascii ''r''))])"
| "krpc_encode (KError txid code message) =
     bencode_encode (build_dict [(ascii ''e'', BList [BInt code, BBytes message]), (ascii ''t'', BBytes txid), (ascii ''y'', BBytes (ascii ''e''))])"

section \<open>Decoding\<close>

definition node_of_chunk :: "int \<Rightarrow> bytes \<Rightarrow> contact list" where
  "node_of_chunk now chunk =
     (let port = be16_at chunk 24 in
      if port = 0 then []
      else [contact_new now (take 20 chunk) (SocketAddr (V4 (chunk ! 20) (chunk ! 21) (chunk ! 22) (chunk ! 23)) port)])"

definition parse_nodes_bytes :: "int \<Rightarrow> bytes \<Rightarrow> contact list res" where
  "parse_nodes_bytes now buf =
     (if length buf mod 26 \<noteq> 0 then Inl (Network ''nodes length '')
      else Inr (concat (map (node_of_chunk now) (chunks 26 buf))))"

fun values_from_items :: "bvalue list \<Rightarrow> socket_addr list res" where
  "values_from_items [] = Inr []"
| "values_from_items (item # items) =
     rbind (as_bytes item) (\<lambda>b.
     rbind (values_from_items items) (\<lambda>rest.
     if length b \<noteq> 6 then Inr rest
     else let port = be16_at b 4 in
       if port = 0 then Inr rest else Inr (SocketAddr (V4 (b ! 0) (b ! 1) (b ! 2) (b ! 3)) port # rest)))"

definition parse_values_list :: "bvalue \<Rightarrow> socket_addr list res" where
  "parse_values_list v = rbind (as_list v) values_from_items"

definition bytes20_from :: "(bytes, bvalue) btree \<Rightarrow> bytes \<Rightarrow> bytes res" where
  "bytes20_from d key =
     rbind (ok_or (btree_get d key) (Network ''krpc: missing '')) (\<lambda>v.
     rbind (as_bytes v) (\<lambda>bytes.
     if length bytes \<noteq> 20 then Inl (Network ''krpc: '') else Inr bytes))"

definition node_id_from :: "(bytes, bvalue) btree \<Rightarrow> bytes \<Rightarrow> node_id res" where
  "node_id_from d key = bytes20_from d key"

definition opt_int :: "(bytes, bvalue) btree \<Rightarrow> bytes \<Rightarrow> int" where
  "opt_int d key = (case btree_get d key of None \<Rightarrow> 0 | Some v \<Rightarrow> (case res_ok (as_int v) of None \<Rightarrow> 0 | Some n \<Rightarrow> n))"

definition opt_bytes :: "(bytes, bvalue) btree \<Rightarrow> bytes \<Rightarrow> bytes option" where
  "opt_bytes d key = (case btree_get d key of None \<Rightarrow> None | Some v \<Rightarrow> res_ok (as_bytes v))"

definition decode_query :: "bytes \<Rightarrow> (bytes, bvalue) btree \<Rightarrow> krpc_message res" where
  "decode_query txid d =
     rbind (ok_or (btree_get d (ascii ''q'')) (Network ''krpc: missing q'')) (\<lambda>v. rbind (as_bytes v) (\<lambda>qname.
     rbind (ok_or (btree_get d (ascii ''a'')) (Network ''krpc: missing a'')) (\<lambda>v. rbind (as_dict v) (\<lambda>args.
     rbind (node_id_from args (ascii ''id'')) (\<lambda>i.
     rbind
       (if qname = ascii ''ping'' then Inr (Ping i)
        else if qname = ascii ''find_node'' then rbind (node_id_from args (ascii ''target'')) (\<lambda>target. Inr (FindNode i target))
        else if qname = ascii ''get_peers'' then rbind (bytes20_from args (ascii ''info_hash'')) (\<lambda>ih. Inr (GetPeers i ih))
        else if qname = ascii ''announce_peer'' then
          rbind (bytes20_from args (ascii ''info_hash'')) (\<lambda>ih.
          let port = opt_int args (ascii ''port'') in
          rbind (ok_or (btree_get args (ascii ''token'')) (Network ''ap: missing token'')) (\<lambda>v. rbind (as_bytes v) (\<lambda>token.
          let implied_port = (opt_int args (ascii ''implied_port'') \<noteq> 0) in
          Inr (AnnouncePeer i ih (if 0 \<le> port \<and> port \<le> 65535 then of_int port else 0) token implied_port))))
        else Inl (Network ''krpc: unknown query ''))
     (\<lambda>query. Inr (KQuery txid query)))))))"

definition decode_response :: "int \<Rightarrow> bytes \<Rightarrow> (bytes, bvalue) btree \<Rightarrow> krpc_message res" where
  "decode_response now txid d =
     rbind (ok_or (btree_get d (ascii ''r'')) (Network ''krpc: missing r'')) (\<lambda>v. rbind (as_dict v) (\<lambda>r.
     rbind (node_id_from r (ascii ''id'')) (\<lambda>i.
     rbind (case opt_bytes r (ascii ''nodes'') of
              None \<Rightarrow> Inr None | Some b \<Rightarrow> rbind (parse_nodes_bytes now b) (\<lambda>ns. Inr (Some ns))) (\<lambda>nodes.
     rbind (case btree_get r (ascii ''values'') of
              None \<Rightarrow> Inr None | Some v \<Rightarrow> rbind (parse_values_list v) (\<lambda>vs. Inr (Some vs))) (\<lambda>values.
     let token = opt_bytes r (ascii ''token'');
         response =
           (case (nodes, values, token) of
              (None, None, None) \<Rightarrow> RId i
            | (Some nodes, None, None) \<Rightarrow> RNodes i nodes
            | (None, Some values, Some token) \<Rightarrow> RPeers i token values
            | (Some nodes, None, Some token) \<Rightarrow> RPeersNodes i token nodes
            | (Some _, Some values, Some token) \<Rightarrow> RPeers i token values
            | _ \<Rightarrow> RId i)
     in Inr (KResponse txid response))))))"

definition decode_error :: "bytes \<Rightarrow> (bytes, bvalue) btree \<Rightarrow> krpc_message res" where
  "decode_error txid d =
     rbind (ok_or (btree_get d (ascii ''e'')) (Network ''krpc: missing e'')) (\<lambda>v. rbind (as_list v) (\<lambda>err_list.
     if length err_list < 2 then Inl (Network ''krpc: malformed error'')
     else rbind (as_int (err_list ! 0)) (\<lambda>code.
       let message = (case as_str (err_list ! 1) of Inr s \<Rightarrow> s | Inl _ \<Rightarrow> [])
       in Inr (KError txid code message))))"

definition krpc_decode :: "int \<Rightarrow> bytes \<Rightarrow> krpc_message res" where
  "krpc_decode now buf =
     rbind (map_err (parse_all buf) (\<lambda>_. Network ''krpc: '')) (\<lambda>v.
     rbind (as_dict v) (\<lambda>d.
     rbind (ok_or (btree_get d (ascii ''t'')) (Network ''krpc: missing t'')) (\<lambda>v. rbind (as_bytes v) (\<lambda>txid.
     rbind (ok_or (btree_get d (ascii ''y'')) (Network ''krpc: missing y'')) (\<lambda>v. rbind (as_bytes v) (\<lambda>ty.
     if ty = ascii ''q'' then decode_query txid d
     else if ty = ascii ''r'' then decode_response now txid d
     else if ty = ascii ''e'' then decode_error txid d
     else Inl (Network ''krpc: unknown y '')))))))"

section \<open>The encoder is the bencode writer\<close>

lemma encode_into_write:
  "encode_into v = write_into v" "encode_items vs = write_items vs" "encode_entries d = write_entries d"
  by (induction v and vs and d rule: encode_into_encode_items_encode_entries.induct) auto

lemma build_dict_sorted: "sorted_wrt (<) (map fst entries) \<Longrightarrow> build_dict entries = BDict entries"
proof -
  assume *: "sorted_wrt (<) (map fst entries)"
  have "foldl (\<lambda>d (k, v). btree_insert k v d) acc entries = acc @ entries"
    if "\<forall>k \<in> fst ` set acc. \<forall>k' \<in> fst ` set entries. k < k'" for acc
    using * that
  proof (induction entries arbitrary: acc)
    case (Cons e entries)
    obtain k v where e: "e = (k, v)" by fastforce
    have "btree_insert k v acc = acc @ [(k, v)]" using Cons.prems(2) e by (intro btree_insert_snoc) auto
    then show ?case using Cons.IH [of "acc @ [(k, v)]"] Cons.prems e by auto
  qed simp
  then show ?thesis by (simp add: build_dict_def)
qed

lemma parse_encode: "wf_bvalue v \<Longrightarrow> bdepth v \<le> MAX_DEPTH \<Longrightarrow> parse_all (bencode_encode v) = Inr v"
  using parse_to_bytes [of v] by (simp add: bencode_encode_def to_bytes_def encode_into_write)

lemma query_keys:
  "sorted_wrt (<) [ascii ''a'', ascii ''q'', ascii ''t'', ascii ''y'']"
  "sorted_wrt (<) [ascii ''r'', ascii ''t'', ascii ''y'']" "sorted_wrt (<) [ascii ''e'', ascii ''t'', ascii ''y'']"
  "sorted_wrt (<) [ascii ''id'', ascii ''target'']" "sorted_wrt (<) [ascii ''id'', ascii ''info_hash'']"
  "sorted_wrt (<) [ascii ''id'', ascii ''implied_port'', ascii ''info_hash'', ascii ''port'', ascii ''token'']"
  "sorted_wrt (<) [ascii ''id'', ascii ''nodes'']" "sorted_wrt (<) [ascii ''id'', ascii ''token'', ascii ''values'']"
  "sorted_wrt (<) [ascii ''id'', ascii ''nodes'', ascii ''token'']"
  by code_simp+

lemma dicts:
  "build_dict [(ascii ''a'', v1), (ascii ''q'', v2), (ascii ''t'', v3), (ascii ''y'', v4)] =
     BDict [(ascii ''a'', v1), (ascii ''q'', v2), (ascii ''t'', v3), (ascii ''y'', v4)]"
  "build_dict [(ascii ''r'', v1), (ascii ''t'', v2), (ascii ''y'', v3)] = BDict [(ascii ''r'', v1), (ascii ''t'', v2), (ascii ''y'', v3)]"
  "build_dict [(ascii ''e'', v1), (ascii ''t'', v2), (ascii ''y'', v3)] = BDict [(ascii ''e'', v1), (ascii ''t'', v2), (ascii ''y'', v3)]"
  "build_dict [(ascii ''id'', v1)] = BDict [(ascii ''id'', v1)]"
  "build_dict [(ascii ''id'', v1), (ascii ''target'', v2)] = BDict [(ascii ''id'', v1), (ascii ''target'', v2)]"
  "build_dict [(ascii ''id'', v1), (ascii ''info_hash'', v2)] = BDict [(ascii ''id'', v1), (ascii ''info_hash'', v2)]"
  "build_dict [(ascii ''id'', v1), (ascii ''implied_port'', v2), (ascii ''info_hash'', v3), (ascii ''port'', v4), (ascii ''token'', v5)] =
     BDict [(ascii ''id'', v1), (ascii ''implied_port'', v2), (ascii ''info_hash'', v3), (ascii ''port'', v4), (ascii ''token'', v5)]"
  "build_dict [(ascii ''id'', v1), (ascii ''nodes'', v2)] = BDict [(ascii ''id'', v1), (ascii ''nodes'', v2)]"
  "build_dict [(ascii ''id'', v1), (ascii ''token'', v2), (ascii ''values'', v3)] = BDict [(ascii ''id'', v1), (ascii ''token'', v2), (ascii ''values'', v3)]"
  "build_dict [(ascii ''id'', v1), (ascii ''nodes'', v2), (ascii ''token'', v3)] = BDict [(ascii ''id'', v1), (ascii ''nodes'', v2), (ascii ''token'', v3)]"
  by (rule build_dict_sorted, simp only: list.map fst_conv query_keys sorted_wrt1)+

lemmas key_less = query_keys [unfolded sorted_wrt.simps list.set, simplified]

section \<open>Round trip\<close>

text \<open>
  What a peer sees of a message: IPv6 contacts and contacts with port 0 are left out, and a contact's age starts
  when it is received.
\<close>

fun compact_node :: "int \<Rightarrow> contact \<Rightarrow> contact list" where
  "compact_node now c =
     (case ct_addr c of
        SocketAddr (V4 x y z w) port \<Rightarrow> if port = 0 then [] else [c\<lparr>ct_last_seen := now\<rparr>]
      | SocketAddr (V6 _) _ \<Rightarrow> [])"

definition compact_nodes :: "int \<Rightarrow> contact list \<Rightarrow> contact list" where
  "compact_nodes now ns = concat (map (compact_node now) ns)"

definition compact_peers :: "socket_addr list \<Rightarrow> socket_addr list" where
  "compact_peers vs = filter (\<lambda>a. case a of SocketAddr (V4 _ _ _ _) port \<Rightarrow> port \<noteq> 0 | SocketAddr (V6 _) _ \<Rightarrow> False) vs"

fun received :: "int \<Rightarrow> krpc_message \<Rightarrow> krpc_message" where
  "received now (KResponse txid (RNodes i ns)) = KResponse txid (RNodes i (compact_nodes now ns))"
| "received now (KResponse txid (RPeers i token vs)) = KResponse txid (RPeers i token (compact_peers vs))"
| "received now (KResponse txid (RPeersNodes i token ns)) = KResponse txid (RPeersNodes i token (compact_nodes now ns))"
| "received now m = m"

text \<open>What the types of the source guarantee: 20-byte identifiers, UTF-8 text, \<open>i64\<close> codes, \<open>usize\<close> lengths.\<close>

definition wf_nodes :: "contact list \<Rightarrow> bool" where
  "wf_nodes ns \<longleftrightarrow> list_all (\<lambda>c. length (ct_id c) = 20) ns \<and> length (nodes_to_bytes ns) \<le> u64_max"

fun wf_krpc :: "krpc_message \<Rightarrow> bool" where
  "wf_krpc (KQuery txid q) = (length txid \<le> u64_max \<and>
     (case q of
        Ping i \<Rightarrow> length i = 20
      | FindNode i target \<Rightarrow> length i = 20 \<and> length target = 20
      | GetPeers i ih \<Rightarrow> length i = 20 \<and> length ih = 20
      | AnnouncePeer i ih port token implied \<Rightarrow> length i = 20 \<and> length ih = 20 \<and> length token \<le> u64_max))"
| "wf_krpc (KResponse txid r) = (length txid \<le> u64_max \<and>
     (case r of
        RId i \<Rightarrow> length i = 20
      | RNodes i ns \<Rightarrow> length i = 20 \<and> wf_nodes ns
      | RPeers i token vs \<Rightarrow> length i = 20 \<and> length token \<le> u64_max
      | RPeersNodes i token ns \<Rightarrow> length i = 20 \<and> length token \<le> u64_max \<and> wf_nodes ns))"
| "wf_krpc (KError txid code message) =
     (length txid \<le> u64_max \<and> i64_min \<le> code \<and> code \<le> i64_max \<and> length message \<le> u64_max \<and> utf8_valid message)"

lemma nodes_roundtrip:
  assumes "list_all (\<lambda>c. length (ct_id c) = 20) ns"
  shows "parse_nodes_bytes now (nodes_to_bytes ns) = Inr (compact_nodes now ns)"
proof -
  have "length (nodes_to_bytes ns) mod 26 = 0 \<and> concat (map (node_of_chunk now) (chunks 26 (nodes_to_bytes ns))) = compact_nodes now ns"
    using assms
  proof (induction ns)
    case (Cons c ns)
    have IH: "length (nodes_to_bytes ns) mod 26 = 0" "concat (map (node_of_chunk now) (chunks 26 (nodes_to_bytes ns))) = compact_nodes now ns"
      using Cons by simp_all
    obtain ip port where addr: "ct_addr c = SocketAddr ip port" by (cases "ct_addr c")
    show ?case
    proof (cases ip)
      case (V4 x y z w)
      let ?b = "(ct_id c @ [x, y, z, w]) @ be16 port"
      have i: "length (ct_id c) = 20" using Cons.prems by simp
      have "be16_at ?b 24 = port" using be16_at_append [of "ct_id c @ [x, y, z, w]" 24 "be16 port" 0] i be16_at_be16 [of port "[]"] by simp
      then have b: "node_of_chunk now ?b = compact_node now c" using i addr V4 by (simp add: node_of_chunk_def nth_append contact_new_def)
      have "nodes_to_bytes (c # ns) = ?b @ nodes_to_bytes ns" "length ?b = 26" using addr V4 i by simp_all
      moreover from this have "chunks 26 (nodes_to_bytes (c # ns)) = ?b # chunks 26 (nodes_to_bytes ns)" by (simp only: chunks_append)
      ultimately have "concat (map (node_of_chunk now) (chunks 26 (nodes_to_bytes (c # ns)))) = compact_nodes now (c # ns)"
        using IH(2) by (simp only: list.map concat.simps b compact_nodes_def)
      moreover have "length (nodes_to_bytes (c # ns)) mod 26 = 0" using IH(1) addr V4 i by simp
      ultimately show ?thesis by blast
    qed (use IH addr in \<open>simp add: compact_nodes_def\<close>)
  qed (simp add: compact_nodes_def)
  then show ?thesis by (simp add: parse_nodes_bytes_def Let_def)
qed

lemma values_roundtrip: "values_from_items (values_entries vs) = Inr (compact_peers vs)"
proof (induction vs)
  case (Cons a vs)
  obtain ip port where a: "a = SocketAddr ip port" by (cases a)
  show ?case
  proof (cases ip)
    case (V4 x y z w)
    have "be16_at ([x, y, z, w] @ be16 port) 4 = port"
      using be16_at_append [of "[x, y, z, w]" 4 "be16 port" 0] be16_at_be16 [of port "[]"] by simp
    then show ?thesis using Cons a V4 by (simp add: compact_peers_def)
  qed (use Cons a in \<open>simp add: compact_peers_def\<close>)
qed (simp add: compact_peers_def)

lemma wf_values: "wf_items (values_entries vs) \<and> bdepth_items (values_entries vs) \<le> 1"
proof (induction vs)
  case (Cons a vs)
  obtain ip port where "a = SocketAddr ip port" by (cases a)
  then show ?case using Cons by (cases ip) simp_all
qed simp

lemma port_range: "i64_min \<le> uint p" "uint p \<le> i64_max" "uint p \<le> 65535" for p :: u16
proof -
  have "0 \<le> uint p" "uint p < 2 ^ LENGTH(16)" by (simp, rule uint_lt2p)
  then show "i64_min \<le> uint p" "uint p \<le> i64_max" "uint p \<le> 65535" by (linarith, simp_all)
qed

lemmas krpc_eval = krpc_decode_def decode_query_def decode_response_def decode_error_def node_id_from_def bytes20_from_def
  opt_int_def opt_bytes_def btree_get_def parse_values_list_def values_to_list_def as_str_def Let_def

text \<open>The value a message is written as.\<close>

fun krpc_value :: "krpc_message \<Rightarrow> bvalue" where
  "krpc_value (KQuery txid q) = query_value txid q"
| "krpc_value (KResponse txid r) = build_dict [(ascii ''r'', response_value r), (ascii ''t'', BBytes txid), (ascii ''y'', BBytes (ascii ''r''))]"
| "krpc_value (KError txid code msg) = build_dict [(ascii ''e'', BList [BInt code, BBytes msg]), (ascii ''t'', BBytes txid), (ascii ''y'', BBytes (ascii ''e''))]"

lemma krpc_encode_value: "krpc_encode m = bencode_encode (krpc_value m)"
  by (cases m) simp_all

lemma krpc_value_wf:
  assumes "wf_krpc m"
  shows "wf_bvalue (krpc_value m) \<and> bdepth (krpc_value m) \<le> MAX_DEPTH"
proof (cases m)
  case (KQuery txid q)
  then show ?thesis using assms
    by (cases q) (auto simp: query_dict_def dicts key_less MAX_DEPTH_def port_range)
next
  case (KResponse txid r)
  have "wf_items (values_entries vs)" "bdepth_items (values_entries vs) \<le> 98" for vs using wf_values [of vs] by simp_all
  then show ?thesis using assms KResponse
    by (cases r) (auto simp: dicts key_less MAX_DEPTH_def wf_nodes_def values_to_list_def)
next
  case (KError txid code msg)
  then show ?thesis using assms by (auto simp: dicts key_less MAX_DEPTH_def)
qed

lemma krpc_decode_value:
  assumes "wf_krpc m" "parse_all buf = Inr (krpc_value m)"
  shows "krpc_decode now buf = Inr (received now m)"
proof (cases m)
  case (KQuery txid q)
  then show ?thesis using assms
    by (cases q) (auto simp: krpc_eval query_dict_def dicts port_range)
next
  case (KResponse txid r)
  then show ?thesis using assms
    by (cases r) (auto simp: krpc_eval dicts values_roundtrip nodes_roundtrip wf_nodes_def)
next
  case (KError txid code msg)
  then show ?thesis using assms by (auto simp: krpc_eval dicts)
qed

lemma krpc_decode_encode: "wf_krpc m \<Longrightarrow> krpc_decode now (krpc_encode m) = Inr (received now m)"
  using krpc_decode_value [of m] parse_encode [of "krpc_value m"] krpc_value_wf [of m] by (simp add: krpc_encode_value)

text \<open>
  C22: decoding an encoded DHT message gives the message back, except for what the compact format cannot carry:
  contacts and peers with an IPv6 address or port 0 are dropped, and contacts count as just seen.
\<close>

theorem krpc_roundtrip:
  assumes "wf_krpc m"
  shows "krpc_decode now (krpc_encode m) = Inr (received now m)"
  using assms by (rule krpc_decode_encode)

definition sample_krpc :: krpc_message where
  "sample_krpc = KResponse (ascii ''aa'')
     (RNodes (replicate 20 1)
        [contact_new 5 (replicate 20 2) (SocketAddr (V4 10 0 0 1) 6881), contact_new 5 (replicate 20 3) (SocketAddr (V4 10 0 0 2) 0),
         contact_new 5 (replicate 20 4) (SocketAddr (V6 [1, 0, 0, 0, 0, 0, 0, 1]) 6881)])"

theorem krpc_roundtrip_witness:
  "krpc_decode 9 (krpc_encode sample_krpc) =
     Inr (KResponse (ascii ''aa'') (RNodes (replicate 20 1) [contact_new 9 (replicate 20 2) (SocketAddr (V4 10 0 0 1) 6881)]))"
proof -
  have "wf_krpc sample_krpc" by (simp add: sample_krpc_def wf_nodes_def contact_new_def)
  from krpc_roundtrip [OF this, of 9] show ?thesis
    by (simp add: sample_krpc_def compact_nodes_def contact_new_def)
qed

end
