(* ===== verification/RT_Ratelimit.thy ===== *)
theory RT_Ratelimit
  imports RT_Prelude Complex_Main
begin

text \<open>
  The token bucket of \<open>src/src/ratelimit.rs\<close>, which caps block requests, bandwidth and answered DHT queries.
  Its \<open>f64\<close> arithmetic is real arithmetic with every operation followed by a rounding function \<open>fl\<close>; the clock
  is the argument \<open>now\<close>, in milliseconds.
\<close>

section \<open>The bucket\<close>

record token_bucket =
  tb_capacity :: real
  tb_rate_per_sec :: real
  tb_tokens :: real
  tb_last_refill :: int

definition bucket_new :: "int \<Rightarrow> real \<Rightarrow> real \<Rightarrow> token_bucket" where
  "bucket_new now capacity rate =
     \<lparr>tb_capacity = capacity, tb_rate_per_sec = rate, tb_tokens = capacity, tb_last_refill = now\<rparr>"

text \<open>\<open>Duration::as_secs_f64\<close>.\<close>

definition as_secs_f64 :: "(real \<Rightarrow> real) \<Rightarrow> int \<Rightarrow> real" where
  "as_secs_f64 fl d = fl (of_int d / 1000)"

definition refill :: "(real \<Rightarrow> real) \<Rightarrow> int \<Rightarrow> token_bucket \<Rightarrow> token_bucket" where
  "refill fl now b =
     (let elapsed = as_secs_f64 fl (duration_since now (tb_last_refill b)) in
      if elapsed > 0 then
        b\<lparr>tb_tokens := min (fl (tb_tokens b + fl (elapsed * tb_rate_per_sec b))) (tb_capacity b), tb_last_refill := now\<rparr>
      else b)"

definition try_consume :: "(real \<Rightarrow> real) \<Rightarrow> int \<Rightarrow> real \<Rightarrow> token_bucket \<Rightarrow> bool \<times> token_bucket" where
  "try_consume fl now n b =
     (let b = refill fl now b in
      if tb_tokens b \<ge> n then (True, b\<lparr>tb_tokens := fl (tb_tokens b - n)\<rparr>) else (False, b))"

definition available :: "(real \<Rightarrow> real) \<Rightarrow> int \<Rightarrow> token_bucket \<Rightarrow> real \<times> token_bucket" where
  "available fl now b = (let b = refill fl now b in (tb_tokens b, b))"

section \<open>What a bucket grants\<close>

text \<open>Monotone rounding with relative error at most \<open>e\<close> on non-negative numbers; for \<open>f64\<close> that is 1 in 2 to the power 53.\<close>

definition rounds_within :: "real \<Rightarrow> (real \<Rightarrow> real) \<Rightarrow> bool" where
  "rounds_within e fl \<longleftrightarrow> 0 \<le> e \<and> mono fl \<and> (\<forall>x \<ge> 0. 0 \<le> fl x \<and> fl x \<le> x * (1 + e))"

definition bucket_wf :: "(real \<Rightarrow> real) \<Rightarrow> token_bucket \<Rightarrow> bool" where
  "bucket_wf fl b \<longleftrightarrow> fl (tb_capacity b) = tb_capacity b \<and> 0 \<le> tb_tokens b \<and> tb_tokens b \<le> tb_capacity b \<and> 0 \<le> tb_rate_per_sec b"

text \<open>
  The budget of a bucket at time \<open>t\<close>: the tokens it holds and what the time since its last refill is worth.
\<close>

definition budget :: "real \<Rightarrow> token_bucket \<Rightarrow> int \<Rightarrow> real" where
  "budget e b t = tb_tokens b + tb_rate_per_sec b * (of_int (t - tb_last_refill b) / 1000) * (1 + e) ^ 3"

lemma rounds_withinD:
  assumes "rounds_within e fl" "0 \<le> x"
  shows "0 \<le> fl x" "fl x \<le> x * (1 + e)" "0 \<le> e"
  using assms by (auto simp: rounds_within_def)

lemma refill_wf:
  assumes "rounds_within e fl" "bucket_wf fl b"
  shows "bucket_wf fl (refill fl now b) \<and> tb_capacity (refill fl now b) = tb_capacity b \<and>
    tb_rate_per_sec (refill fl now b) = tb_rate_per_sec b"
proof -
  have nn: "0 \<le> elapsed \<Longrightarrow> 0 \<le> fl (tb_tokens b + fl (elapsed * tb_rate_per_sec b))" for elapsed
    using assms by (auto simp: bucket_wf_def intro!: rounds_withinD(1) [OF assms(1)] add_nonneg_nonneg)
  then show ?thesis using assms(2) by (auto simp: refill_def Let_def bucket_wf_def)
qed

lemma refill_budget:
  assumes r: "rounds_within e fl" and wf: "bucket_wf fl b" and t: "now \<le> t"
  shows "budget e (refill fl now b) t \<le> budget e b t + e * tb_capacity b"
proof (cases "as_secs_f64 fl (duration_since now (tb_last_refill b)) > 0")
  case False
  have "0 \<le> e * tb_capacity b" using wf rounds_withinD(3) [OF r, of 0] by (auto simp: bucket_wf_def)
  then show ?thesis using False by (simp add: refill_def Let_def)
next
  case True
  let ?d = "duration_since now (tb_last_refill b)"
  let ?s = "as_secs_f64 fl ?d" and ?rt = "tb_rate_per_sec b" and ?tk = "tb_tokens b"
  have e: "0 \<le> e" using rounds_withinD(3) [OF r, of 0] by simp
  have w: "0 \<le> ?tk" "?tk \<le> tb_capacity b" "0 \<le> ?rt" using wf by (auto simp: bucket_wf_def)
  have d0: "0 \<le> ?d" by (simp add: duration_since_def)
  have "?d \<noteq> 0"
  proof
    assume "?d = 0"
    then have "?s \<le> 0" using rounds_withinD(2) [OF r, of 0] by (simp add: as_secs_f64_def)
    then show False using True by simp
  qed
  then have d: "?d = now - tb_last_refill b" using d0 by (auto simp: duration_since_def max_def split: if_splits)
  have s: "?s \<le> of_int ?d / 1000 * (1 + e)"
    unfolding as_secs_f64_def by (rule rounds_withinD(2) [OF r]) (use d0 in simp)
  have "fl (?s * ?rt) \<le> ?s * ?rt * (1 + e)" by (rule rounds_withinD(2) [OF r]) (use True w in simp)
  also have "\<dots> \<le> of_int ?d / 1000 * (1 + e) * ?rt * (1 + e)"
    using s w e by (intro mult_right_mono) auto
  finally have inc: "fl (?s * ?rt) \<le> ?rt * (of_int ?d / 1000) * (1 + e) ^ 2" by (simp add: power2_eq_square algebra_simps)
  have inc0: "0 \<le> fl (?s * ?rt)" by (rule rounds_withinD(1) [OF r]) (use True w in simp)
  have "fl (?tk + fl (?s * ?rt)) \<le> (?tk + fl (?s * ?rt)) * (1 + e)" by (rule rounds_withinD(2) [OF r]) (use w inc0 in simp)
  also have "\<dots> = ?tk + e * ?tk + fl (?s * ?rt) * (1 + e)" by (simp add: algebra_simps)
  also have "\<dots> \<le> ?tk + e * tb_capacity b + ?rt * (of_int ?d / 1000) * (1 + e) ^ 2 * (1 + e)"
    using w e inc by (intro add_mono mult_left_mono mult_right_mono) auto
  also have "\<dots> = ?tk + e * tb_capacity b + ?rt * (of_int ?d / 1000) * (1 + e) ^ 3" by (simp add: power3_eq_cube power2_eq_square algebra_simps)
  finally have "tb_tokens (refill fl now b) \<le> ?tk + e * tb_capacity b + ?rt * (of_int ?d / 1000) * (1 + e) ^ 3"
    using True by (simp add: refill_def Let_def)
  moreover have "?rt * (of_int (t - tb_last_refill b) / 1000) * (1 + e) ^ 3 =
      ?rt * (of_int ?d / 1000) * (1 + e) ^ 3 + ?rt * (of_int (t - now) / 1000) * (1 + e) ^ 3"
    unfolding d by (simp add: field_simps)
  moreover have R: "tb_last_refill (refill fl now b) = now" "tb_rate_per_sec (refill fl now b) = ?rt"
    using True by (simp_all add: refill_def Let_def)
  ultimately show ?thesis unfolding budget_def R by linarith
qed

lemma try_consume_refilled:
  assumes r: "rounds_within e fl" and wf: "bucket_wf fl b" and n: "0 \<le> n" and c: "try_consume fl now n b = (g, b')"
  shows "bucket_wf fl b'" "tb_capacity b' = tb_capacity b" "tb_rate_per_sec b' = tb_rate_per_sec b"
    "(if g then n else 0) + budget e b' t \<le> budget e (refill fl now b) t + e * tb_capacity b"
proof -
  let ?b = "refill fl now b"
  have R: "bucket_wf fl ?b" "tb_capacity ?b = tb_capacity b" "tb_rate_per_sec ?b = tb_rate_per_sec b"
    using refill_wf [OF r wf] by simp_all
  have e: "0 \<le> e" using rounds_withinD(3) [OF r, of 0] by simp
  have ec: "0 \<le> e * tb_capacity b" using e wf by (auto simp: bucket_wf_def)
  have "bucket_wf fl b' \<and> tb_capacity b' = tb_capacity b \<and> tb_rate_per_sec b' = tb_rate_per_sec b \<and>
    (if g then n else 0) + budget e b' t \<le> budget e ?b t + e * tb_capacity b"
  proof (cases "tb_tokens ?b \<ge> n")
    case False
    then show ?thesis using c R ec by (auto simp: try_consume_def Let_def)
  next
    case True
    let ?x = "fl (tb_tokens ?b - n)"
    have x: "0 \<le> ?x" "?x \<le> (tb_tokens ?b - n) * (1 + e)" using rounds_withinD [OF r, of "tb_tokens ?b - n"] True by auto
    have "?x \<le> tb_tokens ?b - n + e * (tb_tokens ?b - n)" using x(2) by (simp add: algebra_simps)
    also have "\<dots> \<le> tb_tokens ?b - n + e * tb_capacity b"
      using e R n by (intro add_left_mono mult_left_mono) (auto simp: bucket_wf_def)
    finally have le: "?x \<le> tb_tokens ?b - n + e * tb_capacity b" .
    have b': "g" "b' = ?b\<lparr>tb_tokens := ?x\<rparr>" using c True by (auto simp: try_consume_def Let_def)
    have "?x \<le> fl (tb_capacity b)"
      by (rule monoD [of fl]) (use r R n in \<open>auto simp: rounds_within_def bucket_wf_def\<close>)
    then have "?x \<le> tb_capacity b" using wf by (simp add: bucket_wf_def)
    then show ?thesis using b' R le x(1) by (auto simp: bucket_wf_def budget_def)
  qed
  then show "bucket_wf fl b'" "tb_capacity b' = tb_capacity b" "tb_rate_per_sec b' = tb_rate_per_sec b"
    "(if g then n else 0) + budget e b' t \<le> budget e ?b t + e * tb_capacity b" by simp_all
qed

lemma try_consume_step:
  assumes "rounds_within e fl" "bucket_wf fl b" "now \<le> t" "0 \<le> n" "try_consume fl now n b = (g, b')"
  shows "(if g then n else 0) + budget e b' t \<le> budget e b t + 2 * e * tb_capacity b"
  using try_consume_refilled(4) [OF assms(1,2,4,5), of t] refill_budget [OF assms(1-3)] by simp

text \<open>
  Seen from the start \<open>t1\<close> of a time window, a bucket is worth at most its capacity and what the window refills,
  however long it was idle before.
\<close>

lemma refill_window:
  assumes r: "rounds_within e fl" and pos: "\<forall>x > 0. 0 < fl x" and wf: "bucket_wf fl b" and t: "t1 \<le> now" "now \<le> t"
  shows "budget e (refill fl now b) t \<le> tb_capacity b + tb_rate_per_sec b * (of_int (t - t1) / 1000) * (1 + e) ^ 3"
proof -
  let ?b = "refill fl now b"
  have R: "bucket_wf fl ?b" "tb_capacity ?b = tb_capacity b" "tb_rate_per_sec ?b = tb_rate_per_sec b"
    using refill_wf [OF r wf] by simp_all
  have e: "0 \<le> e" using rounds_withinD(3) [OF r, of 0] by simp
  have "t1 \<le> tb_last_refill ?b"
  proof (cases "as_secs_f64 fl (duration_since now (tb_last_refill b)) > 0")
    case False
    have "\<not> tb_last_refill b < now"
      using False pos by (auto simp: as_secs_f64_def duration_since_def)
    then show ?thesis using False t by (simp add: refill_def Let_def)
  qed (use t in \<open>simp add: refill_def Let_def\<close>)
  then have "tb_rate_per_sec b * (of_int (t - tb_last_refill ?b) / 1000) * (1 + e) ^ 3 \<le>
      tb_rate_per_sec b * (of_int (t - t1) / 1000) * (1 + e) ^ 3"
    using e wf by (intro mult_right_mono mult_left_mono divide_right_mono) (auto simp: bucket_wf_def)
  then show ?thesis using R by (auto simp: budget_def bucket_wf_def)
qed

lemma refill_last: "tb_last_refill (refill fl now b) = tb_last_refill b \<or> tb_last_refill (refill fl now b) = now"
  by (simp add: refill_def Let_def)

lemma try_consume_last: "try_consume fl now n b = (g, b') \<Longrightarrow> tb_last_refill b' = tb_last_refill b \<or> tb_last_refill b' = now"
  using refill_last [of fl now b] by (auto simp: try_consume_def Let_def split: if_splits)

section \<open>A run of requests\<close>

fun consume_run :: "(real \<Rightarrow> real) \<Rightarrow> token_bucket \<Rightarrow> (int \<times> real) list \<Rightarrow> real \<times> token_bucket" where
  "consume_run fl b [] = (0, b)"
| "consume_run fl b ((now, n) # calls) =
     (let (g, b1) = try_consume fl now n b; (s, b2) = consume_run fl b1 calls in ((if g then n else 0) + s, b2))"

lemma consume_run_budget:
  assumes r: "rounds_within e fl"
  shows "bucket_wf fl b \<Longrightarrow> tb_last_refill b \<le> t \<Longrightarrow> \<forall>(now, n) \<in> set calls. now \<le> t \<and> 0 \<le> n \<Longrightarrow>
    consume_run fl b calls = (s, b') \<Longrightarrow> s \<le> budget e b t + of_nat (length calls) * (2 * e * tb_capacity b)"
proof (induction calls arbitrary: b s b')
  case Nil
  have "0 \<le> e" using rounds_withinD(3) [OF r, of 0] by simp
  then have "0 \<le> budget e b t" using Nil.prems(1,2) by (simp add: budget_def bucket_wf_def)
  then show ?case using Nil.prems(4) by simp
next
  case (Cons c calls)
  obtain now n where c: "c = (now, n)" by fastforce
  obtain g b1 where g: "try_consume fl now n b = (g, b1)" by fastforce
  obtain s2 where s2: "consume_run fl b1 calls = (s2, b')" "s = (if g then n else 0) + s2"
    using Cons.prems(4) c g by (auto split: prod.splits)
  have t: "now \<le> t" "0 \<le> n" using Cons.prems(3) c by auto
  note S = try_consume_refilled [OF r Cons.prems(1) t(2) g]
  have "tb_last_refill b1 \<le> t" using try_consume_last [OF g] Cons.prems(2) t by auto
  then have "s2 \<le> budget e b1 t + of_nat (length calls) * (2 * e * tb_capacity b1)"
    by (rule Cons.IH [OF S(1) _ _ s2(1)]) (use Cons.prems(3) in auto)
  then show ?case using S(2) try_consume_step [OF r Cons.prems(1) t g] s2(2) by (simp add: algebra_simps)
qed

text \<open>
  Whatever requests are made of a bucket up to time \<open>t\<close>, the tokens it grants are at most its capacity plus
  its rate times the seconds since its creation, up to the rounding of the arithmetic: with relative error \<open>e\<close> the
  refill is overstated by the factor \<open>(1 + e)\<^sup>3\<close> and every request adds at most \<open>2 e\<close> of the capacity.
\<close>

theorem bucket_rate:
  assumes "rounds_within e fl" "fl capacity = capacity" "0 \<le> capacity" "0 \<le> rate" "created \<le> t"
    "\<forall>(now, n) \<in> set calls. now \<le> t \<and> 0 \<le> n"
  shows "fst (consume_run fl (bucket_new created capacity rate) calls) \<le>
    capacity + rate * (of_int (t - created) / 1000) * (1 + e) ^ 3 + of_nat (length calls) * (2 * e * capacity)"
proof -
  let ?b = "bucket_new created capacity rate"
  obtain s b' where run: "consume_run fl ?b calls = (s, b')" by fastforce
  have "bucket_wf fl ?b" "tb_last_refill ?b \<le> t" using assms by (auto simp: bucket_wf_def bucket_new_def)
  from consume_run_budget [OF assms(1) this assms(6) run] show ?thesis
    by (simp add: run budget_def) (simp add: bucket_new_def)
qed

theorem bucket_rate_witness:
  "fst (consume_run (\<lambda>x. x) (bucket_new 0 2 5) [(0, 1), (0, 1), (0, 1), (400, 1), (400, 1)]) = 4 \<and>
   fst (consume_run (\<lambda>x. x) (bucket_new 0 2 5) [(0, 1), (0, 1), (0, 1), (400, 1), (400, 1)]) \<le> 2 + 5 * (400 / 1000)"
proof -
  have "fst (consume_run (\<lambda>x. x) (bucket_new 0 2 5) [(0, 1), (0, 1), (0, 1), (400, 1), (400, 1)]) = 4"
    by (simp add: bucket_new_def try_consume_def refill_def as_secs_f64_def duration_since_def)
  moreover have "rounds_within 0 (\<lambda>x. x)" by (simp add: rounds_within_def mono_def)
  ultimately show ?thesis
    using bucket_rate [of 0 "\<lambda>x. x" 2 5 0 400 "[(0, 1), (0, 1), (0, 1), (400, 1), (400, 1)]"] by simp
qed

end
