(* ===== verification/RT_Dht_Server.thy ===== *)
theory RT_Dht_Server
  imports RT_Krpc RT_Ratelimit "HOL-Library.AList"
begin

text \<open>
  The DHT node, \<open>src/src/dht/server.rs\<close>: answering datagrams, the token and announce store, rate limiting of
  answers, outgoing queries and the iterative lookups. The state behind the node's locks is one record and every
  handler a function on it; hash maps are association lists with distinct keys. SHA-1, the rounding of \<open>f64\<close>,
  random bytes and the clock are arguments. A reply channel is a number, and what a handler does to the outside is
  the list of its effects: datagrams sent and replies handed to waiting queries.
\<close>

section \<open>State\<close>

definition QUERY_TIMEOUT :: int where "QUERY_TIMEOUT = 5 * 1000"
definition LOOKUP_BUDGET :: int where "LOOKUP_BUDGET = 15 * 1000"
definition ALPHA :: nat where "ALPHA = 3"
definition TOKEN_TTL :: int where "TOKEN_TTL = 10 * 60 * 1000"
definition ANNOUNCE_TTL :: int where "ANNOUNCE_TTL = 30 * 60 * 1000"
definition MAX_PEERS_PER_INFO_HASH :: nat where "MAX_PEERS_PER_INFO_HASH = 256"
definition MAX_INFO_HASHES :: nat where "MAX_INFO_HASHES = 16384"
definition QUERY_BURST :: real where "QUERY_BURST = 20"
definition QUERY_RATE_PER_SEC :: real where "QUERY_RATE_PER_SEC = 5"
definition MAX_QUERY_LIMIT_IPS :: nat where "MAX_QUERY_LIMIT_IPS = 4096"

type_synonym peer_store = "(bytes \<times> (socket_addr \<times> int) list) list"

record pending_query =
  pq_reply :: nat
  pq_target :: socket_addr

record token_state =
  ts_current :: bytes
  ts_previous :: bytes
  ts_last_rotated :: int

record shared_state =
  ss_local_id :: node_id
  ss_strict_martians :: bool
  ss_routing :: routing_table
  ss_pending :: "(bytes \<times> pending_query) list"
  ss_peer_store :: peer_store
  ss_token_state :: token_state
  ss_query_limits :: "(ip_addr \<times> token_bucket) list"

datatype krpc_reply = ReplyResponse krpc_response | ReplyError int bytes

datatype dht_effect = SendTo bytes socket_addr | Deliver nat krpc_reply

definition shared_state_new :: "int \<Rightarrow> bytes \<Rightarrow> bytes \<Rightarrow> node_id \<Rightarrow> bool \<Rightarrow> shared_state" where
  "shared_state_new now current previous local_id strict =
     \<lparr>ss_local_id = local_id, ss_strict_martians = strict, ss_routing = rt_new local_id, ss_pending = [],
      ss_peer_store = [], ss_token_state = \<lparr>ts_current = current, ts_previous = previous, ts_last_rotated = now\<rparr>,
      ss_query_limits = []\<rparr>"

section \<open>Rate limit, tokens and the peer store\<close>

definition retain_limited :: "(real \<Rightarrow> real) \<Rightarrow> int \<Rightarrow> (ip_addr \<times> token_bucket) list \<Rightarrow> (ip_addr \<times> token_bucket) list" where
  "retain_limited fl now limits =
     filter (\<lambda>(ip, b). tb_tokens b < QUERY_BURST - 1) (map (\<lambda>(ip, b). (ip, snd (available fl now b))) limits)"

definition allow_query_from :: "(real \<Rightarrow> real) \<Rightarrow> int \<Rightarrow> shared_state \<Rightarrow> ip_addr \<Rightarrow> bool \<times> shared_state" where
  "allow_query_from fl now s ip =
     (let limits = ss_query_limits s;
          limits = (if length limits > MAX_QUERY_LIMIT_IPS then retain_limited fl now limits else limits);
          b = (case map_of limits ip of Some b \<Rightarrow> b | None \<Rightarrow> bucket_new now QUERY_BURST QUERY_RATE_PER_SEC);
          (r, b) = try_consume fl now 1 b
      in (r, s\<lparr>ss_query_limits := AList.update ip b limits\<rparr>))"

fun ip_octets :: "ip_addr \<Rightarrow> bytes" where
  "ip_octets (V4 a b c d) = [a, b, c, d]"
| "ip_octets (V6 segs) = concat (map be16 segs)"

definition token_for :: "(bytes \<Rightarrow> bytes) \<Rightarrow> socket_addr \<Rightarrow> bytes \<Rightarrow> bytes" where
  "token_for sha1 addr salt = take 8 (sha1 (salt @ ip_octets (sa_ip addr)))"

definition issue_token :: "(bytes \<Rightarrow> bytes) \<Rightarrow> bytes \<Rightarrow> int \<Rightarrow> shared_state \<Rightarrow> socket_addr \<Rightarrow> bytes \<times> shared_state" where
  "issue_token sha1 fresh now s addr =
     (let ts = ss_token_state s;
          ts = (if duration_since now (ts_last_rotated ts) \<ge> TOKEN_TTL
                then \<lparr>ts_current = fresh, ts_previous = ts_current ts, ts_last_rotated = now\<rparr> else ts)
      in (token_for sha1 addr (ts_current ts), s\<lparr>ss_token_state := ts\<rparr>))"

definition verify_token :: "(bytes \<Rightarrow> bytes) \<Rightarrow> shared_state \<Rightarrow> socket_addr \<Rightarrow> bytes \<Rightarrow> bool" where
  "verify_token sha1 s addr token \<longleftrightarrow>
     token = token_for sha1 addr (ts_current (ss_token_state s)) \<or>
     token = token_for sha1 addr (ts_previous (ss_token_state s))"

definition prune_peer_store :: "int \<Rightarrow> shared_state \<Rightarrow> shared_state" where
  "prune_peer_store now s =
     s\<lparr>ss_peer_store :=
        filter (\<lambda>(ih, entries). entries \<noteq> [])
          (map (\<lambda>(ih, entries). (ih, filter (\<lambda>(a, t). duration_since now t \<le> ANNOUNCE_TTL) entries)) (ss_peer_store s))\<rparr>"

definition record_announce :: "int \<Rightarrow> shared_state \<Rightarrow> bytes \<Rightarrow> socket_addr \<Rightarrow> shared_state" where
  "record_announce now s info_hash peer_addr =
     (let store = ss_peer_store s in
      if length store < MAX_INFO_HASHES \<or> map_of store info_hash \<noteq> None then
        let entry = (case map_of store info_hash of Some es \<Rightarrow> es | None \<Rightarrow> []);
            entry = filter (\<lambda>(a, t). a \<noteq> peer_addr) entry @ [(peer_addr, now)];
            entry = (if length entry > MAX_PEERS_PER_INFO_HASH
                     then drop (length entry - MAX_PEERS_PER_INFO_HASH) entry else entry)
        in s\<lparr>ss_peer_store := AList.update info_hash entry store\<rparr>
      else s)"

section \<open>Datagrams\<close>

fun response_id :: "krpc_response \<Rightarrow> node_id option" where
  "response_id (RId i) = Some i"
| "response_id (RNodes i _) = Some i"
| "response_id (RPeers i _ _) = Some i"
| "response_id (RPeersNodes i _ _) = Some i"

fun query_sender :: "krpc_query \<Rightarrow> node_id" where
  "query_sender (Ping i) = i"
| "query_sender (FindNode i _) = i"
| "query_sender (GetPeers i _) = i"
| "query_sender (AnnouncePeer i _ _ _ _) = i"

definition learn_contact :: "int \<Rightarrow> node_id \<Rightarrow> socket_addr \<Rightarrow> shared_state \<Rightarrow> shared_state" where
  "learn_contact now i from s = s\<lparr>ss_routing := snd (rt_insert now (ss_routing s) (contact_new now i from))\<rparr>"

definition stored_peers :: "shared_state \<Rightarrow> bytes \<Rightarrow> socket_addr list" where
  "stored_peers s info_hash = (case map_of (ss_peer_store s) info_hash of Some es \<Rightarrow> map fst es | None \<Rightarrow> [])"

definition answer_query ::
  "(bytes \<Rightarrow> bytes) \<Rightarrow> bytes \<Rightarrow> int \<Rightarrow> shared_state \<Rightarrow> socket_addr \<Rightarrow> bytes \<Rightarrow> krpc_query \<Rightarrow> shared_state \<times> dht_effect list" where
  "answer_query sha1 fresh now s from txid query =
     (let s = learn_contact now (query_sender query) from s;
          reply = (\<lambda>s response. (s, [SendTo (krpc_encode (KResponse txid response)) from]))
      in case query of
        Ping _ \<Rightarrow> reply s (RId (ss_local_id s))
      | FindNode _ target \<Rightarrow> reply s (RNodes (ss_local_id s) (closest (ss_routing s) target K))
      | GetPeers _ info_hash \<Rightarrow>
          let (token, s) = issue_token sha1 fresh now s from;
              peers = stored_peers s info_hash
          in if peers \<noteq> [] then reply s (RPeers (ss_local_id s) token peers)
             else reply s (RPeersNodes (ss_local_id s) token (closest (ss_routing s) info_hash K))
      | AnnouncePeer _ info_hash port token implied_port \<Rightarrow>
          if \<not> verify_token sha1 s from token
          then (s, [SendTo (krpc_encode (KError txid 203 (ascii ''bad token''))) from])
          else
            let advertised_port = (if implied_port then sa_port from else port);
                s = record_announce now s info_hash (SocketAddr (sa_ip from) advertised_port)
            in reply s (RId (ss_local_id s)))"

definition route_reply :: "socket_addr \<Rightarrow> bytes \<Rightarrow> krpc_reply \<Rightarrow> shared_state \<Rightarrow> shared_state \<times> dht_effect list" where
  "route_reply from txid r s =
     (case map_of (ss_pending s) txid of
        Some p \<Rightarrow>
          if pq_target p = from then (s\<lparr>ss_pending := AList.delete txid (ss_pending s)\<rparr>, [Deliver (pq_reply p) r])
          else (s, [])
      | None \<Rightarrow> (s, []))"

definition handle_datagram ::
  "(real \<Rightarrow> real) \<Rightarrow> (bytes \<Rightarrow> bytes) \<Rightarrow> bytes \<Rightarrow> int \<Rightarrow> shared_state \<Rightarrow> socket_addr \<Rightarrow> bytes \<Rightarrow> shared_state \<times> dht_effect list" where
  "handle_datagram fl sha1 fresh now s from bytes =
     (case krpc_decode now bytes of
        Inl e \<Rightarrow> (s, [])
      | Inr (KQuery txid query) \<Rightarrow>
          let (ok, s) = allow_query_from fl now s (sa_ip from) in
          if \<not> ok then (s, []) else answer_query sha1 fresh now s from txid query
      | Inr (KResponse txid response) \<Rightarrow>
          let s = (case response_id response of Some i \<Rightarrow> learn_contact now i from s | None \<Rightarrow> s)
          in route_reply from txid (ReplyResponse response) s
      | Inr (KError txid code message) \<Rightarrow> route_reply from txid (ReplyError code message) s)"

section \<open>Outgoing queries and lookups\<close>

definition first_dialable_v4 :: "socket_addr list \<Rightarrow> socket_addr option" where
  "first_dialable_v4 addrs =
     find (\<lambda>a. (case sa_ip a of V4 _ _ _ _ \<Rightarrow> True | V6 _ \<Rightarrow> False) \<and> is_dialable_resolved_ip (sa_ip a) False) addrs"

text \<open>Name resolution is the argument \<open>lookup_host\<close>.\<close>

fun resolve_bootstrap :: "(string \<Rightarrow> socket_addr list option) \<Rightarrow> string list \<Rightarrow> socket_addr list" where
  "resolve_bootstrap lookup_host [] = []"
| "resolve_bootstrap lookup_host (h # hosts) =
     (case lookup_host h of
        Some addrs \<Rightarrow> (case first_dialable_v4 addrs of Some addr \<Rightarrow> [addr] | None \<Rightarrow> [])
      | None \<Rightarrow> []) @ resolve_bootstrap lookup_host hosts"

definition dialable_nodes :: "contact list \<Rightarrow> bool \<Rightarrow> contact list" where
  "dialable_nodes nodes strict = filter (\<lambda>c. is_dialable_peer_addr (ct_addr c) strict) nodes"

definition insert_contacts :: "int \<Rightarrow> contact list \<Rightarrow> shared_state \<Rightarrow> shared_state" where
  "insert_contacts now cs s = s\<lparr>ss_routing := foldl (\<lambda>rt c. snd (rt_insert now rt c)) (ss_routing s) cs\<rparr>"

definition ingest_nodes_from :: "int \<Rightarrow> shared_state \<Rightarrow> krpc_response \<Rightarrow> shared_state" where
  "ingest_nodes_from now s resp =
     (case resp of
        RNodes _ nodes \<Rightarrow> insert_contacts now (dialable_nodes nodes (ss_strict_martians s)) s
      | RPeersNodes _ _ nodes \<Rightarrow> insert_contacts now (dialable_nodes nodes (ss_strict_martians s)) s
      | _ \<Rightarrow> s)"

text \<open>
  \<open>send_query\<close> around its wait: registering the query and sending it, and what the caller gets when the wait ends
  with a reply or without one (the timer ran out, the sender failed or the channel closed).
\<close>

definition send_query_start :: "bytes \<Rightarrow> nat \<Rightarrow> shared_state \<Rightarrow> socket_addr \<Rightarrow> krpc_query \<Rightarrow> shared_state \<times> dht_effect list" where
  "send_query_start txid reply s addr query =
     (s\<lparr>ss_pending := AList.update txid \<lparr>pq_reply = reply, pq_target = addr\<rparr> (ss_pending s)\<rparr>,
      [SendTo (krpc_encode (KQuery txid query)) addr])"

definition send_query_end :: "bytes \<Rightarrow> shared_state \<Rightarrow> krpc_reply option \<Rightarrow> krpc_response option \<times> shared_state" where
  "send_query_end txid s reply =
     (case reply of
        Some (ReplyResponse resp) \<Rightarrow> (Some resp, s)
      | _ \<Rightarrow> (None, s\<lparr>ss_pending := AList.delete txid (ss_pending s)\<rparr>))"

text \<open>
  The three lookups share their loop. What a contact answers to the query of round \<open>k\<close> is the argument \<open>ask\<close>, and
  the clock is read once at the start, \<open>clock 0\<close>, and once before every round, \<open>clock (Suc k)\<close>.
\<close>

record lookup_state =
  lk_shortlist :: "contact list"
  lk_queried :: "node_id list"
  lk_peers :: "socket_addr list"
  lk_tokens :: "(node_id \<times> bytes \<times> socket_addr) list"
  lk_shared :: shared_state

fun dedup_by_key :: "('a \<Rightarrow> 'b) \<Rightarrow> 'a list \<Rightarrow> 'a list" where
  "dedup_by_key f (x # y # xs) = (if f x = f y then dedup_by_key f (x # xs) else x # dedup_by_key f (y # xs))"
| "dedup_by_key f xs = xs"

definition lookup_next :: "lookup_state \<Rightarrow> contact list" where
  "lookup_next st = take ALPHA (filter (\<lambda>c. ct_id c \<notin> set (lk_queried st)) (lk_shortlist st))"

definition trim_shortlist :: "node_id \<Rightarrow> contact list \<Rightarrow> contact list" where
  "trim_shortlist target cs = take (K * 4) (dedup_by_key ct_id (sort_key (\<lambda>c. distance (ct_id c) target) cs))"

type_synonym answer_handler = "int \<Rightarrow> contact \<Rightarrow> krpc_response \<Rightarrow> lookup_state \<Rightarrow> lookup_state"

definition lookup_round ::
  "answer_handler \<Rightarrow> node_id \<Rightarrow> int \<Rightarrow> (contact \<Rightarrow> krpc_response option) \<Rightarrow> lookup_state \<Rightarrow> lookup_state" where
  "lookup_round on_answer target now ask st =
     (let next = lookup_next st;
          st = st\<lparr>lk_queried := lk_queried st @ map ct_id next\<rparr>;
          st = foldl (\<lambda>st c. case ask c of Some resp \<Rightarrow> on_answer now c resp st | None \<Rightarrow> st) st next
      in st\<lparr>lk_shortlist := trim_shortlist target (lk_shortlist st)\<rparr>)"

partial_function (option) lookup_loop ::
  "(nat \<Rightarrow> int) \<Rightarrow> (nat \<Rightarrow> contact \<Rightarrow> krpc_response option) \<Rightarrow> answer_handler \<Rightarrow> (lookup_state \<Rightarrow> bool) \<Rightarrow>
   node_id \<Rightarrow> nat \<Rightarrow> lookup_state \<Rightarrow> lookup_state option" where
  "lookup_loop clock ask on_answer enough target k st =
     (if duration_since (clock (Suc k)) (clock 0) < LOOKUP_BUDGET \<and> lookup_next st \<noteq> [] then
        let st' = lookup_round on_answer target (clock (Suc k)) (ask k) st in
        if enough st' then Some st' else lookup_loop clock ask on_answer enough target (Suc k) st'
      else Some st)"

definition lookup_start :: "shared_state \<Rightarrow> node_id \<Rightarrow> lookup_state" where
  "lookup_start s target =
     \<lparr>lk_shortlist = closest (ss_routing s) target (K * 2), lk_queried = [], lk_peers = [], lk_tokens = [], lk_shared = s\<rparr>"

definition lk_ingest :: "int \<Rightarrow> krpc_response \<Rightarrow> lookup_state \<Rightarrow> lookup_state" where
  "lk_ingest now resp st = st\<lparr>lk_shared := ingest_nodes_from now (lk_shared st) resp\<rparr>"

definition lk_extend :: "contact list \<Rightarrow> lookup_state \<Rightarrow> lookup_state" where
  "lk_extend nodes st = st\<lparr>lk_shortlist := lk_shortlist st @ dialable_nodes nodes (ss_strict_martians (lk_shared st))\<rparr>"

definition lk_token :: "contact \<Rightarrow> bytes \<Rightarrow> lookup_state \<Rightarrow> lookup_state" where
  "lk_token c token st = st\<lparr>lk_tokens := AList.update (ct_id c) (token, ct_addr c) (lk_tokens st)\<rparr>"

definition find_node_answer :: answer_handler where
  "find_node_answer now c resp st =
     (let st = lk_ingest now resp st in case resp of RNodes _ nodes \<Rightarrow> lk_extend nodes st | _ \<Rightarrow> st)"

definition lookup_find_node ::
  "(nat \<Rightarrow> int) \<Rightarrow> (nat \<Rightarrow> contact \<Rightarrow> krpc_response option) \<Rightarrow> shared_state \<Rightarrow> node_id \<Rightarrow> (contact list \<times> shared_state) option" where
  "lookup_find_node clock ask s target =
     map_option (\<lambda>st. (take K (lk_shortlist st), lk_shared st))
       (lookup_loop clock ask find_node_answer (\<lambda>_. False) target 0 (lookup_start s target))"

definition add_new_peers :: "socket_addr list \<Rightarrow> socket_addr list \<Rightarrow> socket_addr list" where
  "add_new_peers peers vs = foldl (\<lambda>ps v. if v \<in> set ps then ps else ps @ [v]) peers vs"

definition get_peers_answer :: answer_handler where
  "get_peers_answer now c resp st =
     lk_ingest now resp
       (case resp of
          RPeers _ token vs \<Rightarrow> (lk_token c token st)\<lparr>lk_peers := add_new_peers (lk_peers st) vs\<rparr>
        | RPeersNodes _ token nodes \<Rightarrow> lk_extend nodes (lk_token c token st)
        | _ \<Rightarrow> st)"

definition lookup_get_peers ::
  "(nat \<Rightarrow> int) \<Rightarrow> (nat \<Rightarrow> contact \<Rightarrow> krpc_response option) \<Rightarrow> shared_state \<Rightarrow> bytes \<Rightarrow> (socket_addr list \<times> shared_state) option" where
  "lookup_get_peers clock ask s info_hash =
     map_option (\<lambda>st. (lk_peers st, lk_shared st))
       (lookup_loop clock ask get_peers_answer (\<lambda>st. length (lk_peers st) \<ge> 20) info_hash 0 (lookup_start s info_hash))"

definition announce_answer :: answer_handler where
  "announce_answer now c resp st =
     (let st = (case resp of RPeers _ token _ \<Rightarrow> lk_token c token st | RPeersNodes _ token _ \<Rightarrow> lk_token c token st | _ \<Rightarrow> st);
          st = (case resp of RPeersNodes _ _ nodes \<Rightarrow> lk_extend nodes st | _ \<Rightarrow> st)
      in lk_ingest now resp st)"

text \<open>The queries \<open>announce_peer\<close> sends when its lookup is over, with their destinations.\<close>

definition announce_peer ::
  "(nat \<Rightarrow> int) \<Rightarrow> (nat \<Rightarrow> contact \<Rightarrow> krpc_response option) \<Rightarrow> shared_state \<Rightarrow> bytes \<Rightarrow> u16 \<Rightarrow>
   ((socket_addr \<times> krpc_query) list \<times> shared_state) option" where
  "announce_peer clock ask s info_hash port =
     map_option (\<lambda>st.
       (map (\<lambda>(i, token, addr). (addr, AnnouncePeer (ss_local_id s) info_hash port token False))
          (take K (sort_key (\<lambda>(i, token, addr). distance i info_hash) (lk_tokens st))),
        lk_shared st))
       (lookup_loop clock ask announce_answer (\<lambda>_. False) info_hash 0 (lookup_start s info_hash))"

text \<open>Startup: loading the warm contacts, then asking every bootstrap node for our own identifier.\<close>

definition dht_start :: "int \<Rightarrow> bytes \<Rightarrow> bytes \<Rightarrow> node_id \<Rightarrow> contact list \<Rightarrow> bool \<Rightarrow> shared_state" where
  "dht_start now current previous local_id warm_contacts strict =
     insert_contacts now warm_contacts (shared_state_new now current previous local_id strict)"

definition bootstrap_routing_table ::
  "int \<Rightarrow> (socket_addr \<Rightarrow> krpc_response option) \<Rightarrow> (nat \<Rightarrow> int) \<Rightarrow> (nat \<Rightarrow> contact \<Rightarrow> krpc_response option) \<Rightarrow>
   shared_state \<Rightarrow> socket_addr list \<Rightarrow> shared_state option" where
  "bootstrap_routing_table now ask_router clock ask s bootstrap =
     (let s = foldl (\<lambda>s addr. case ask_router addr of Some resp \<Rightarrow> ingest_nodes_from now s resp | None \<Rightarrow> s) s bootstrap
      in map_option snd (lookup_find_node clock ask s (ss_local_id s)))"

section \<open>Runs of the node\<close>

text \<open>
  The node's tasks interleave at their locks. A run is a sequence of the critical sections: a datagram handled by
  the receive task, the pruning timer, and the start, the end and the ingested answer of a query of some lookup.
\<close>

datatype dht_event =
    EvDatagram int bytes socket_addr bytes
  | EvPrune int
  | EvQuery bytes nat socket_addr krpc_query
  | EvQueryEnd bytes "krpc_reply option"
  | EvIngest int krpc_response

fun dht_step :: "(real \<Rightarrow> real) \<Rightarrow> (bytes \<Rightarrow> bytes) \<Rightarrow> dht_event \<Rightarrow> shared_state \<Rightarrow> shared_state \<times> dht_effect list" where
  "dht_step fl sha1 (EvDatagram now fresh from bytes) s = handle_datagram fl sha1 fresh now s from bytes"
| "dht_step fl sha1 (EvPrune now) s = (prune_peer_store now s, [])"
| "dht_step fl sha1 (EvQuery txid reply addr q) s = send_query_start txid reply s addr q"
| "dht_step fl sha1 (EvQueryEnd txid r) s = (snd (send_query_end txid s r), [])"
| "dht_step fl sha1 (EvIngest now resp) s = (ingest_nodes_from now s resp, [])"

definition dht_run :: "(real \<Rightarrow> real) \<Rightarrow> (bytes \<Rightarrow> bytes) \<Rightarrow> shared_state \<Rightarrow> dht_event list \<Rightarrow> shared_state" where
  "dht_run fl sha1 s evs = foldl (\<lambda>s ev. fst (dht_step fl sha1 ev s)) s evs"

section \<open>Which part of the state an operation touches\<close>

lemma set_alist_update: "set (AList.update k v al) \<subseteq> insert (k, v) (set al)"
  by (induction al) auto

lemma allow_query_frame:
  assumes "allow_query_from fl now s ip = (ok, s')"
  shows "ss_token_state s' = ss_token_state s" "ss_peer_store s' = ss_peer_store s" "ss_pending s' = ss_pending s"
    "ss_local_id s' = ss_local_id s" "ss_routing s' = ss_routing s" "ss_strict_martians s' = ss_strict_martians s"
  using assms by (auto simp: allow_query_from_def Let_def split: prod.splits)

lemma learn_contact_frame [simp]:
  "ss_token_state (learn_contact now i from s) = ss_token_state s" "ss_peer_store (learn_contact now i from s) = ss_peer_store s"
  "ss_pending (learn_contact now i from s) = ss_pending s" "ss_query_limits (learn_contact now i from s) = ss_query_limits s"
  "ss_local_id (learn_contact now i from s) = ss_local_id s" "ss_strict_martians (learn_contact now i from s) = ss_strict_martians s"
  by (simp_all add: learn_contact_def)

lemma issue_token_frame:
  assumes "issue_token sha1 fresh now s addr = (token, s')"
  shows "ss_peer_store s' = ss_peer_store s" "ss_pending s' = ss_pending s" "ss_query_limits s' = ss_query_limits s"
    "ss_local_id s' = ss_local_id s" "ss_routing s' = ss_routing s"
  using assms by (auto simp: issue_token_def Let_def)

lemma record_announce_frame [simp]:
  "ss_token_state (record_announce now s ih a) = ss_token_state s" "ss_pending (record_announce now s ih a) = ss_pending s"
  "ss_query_limits (record_announce now s ih a) = ss_query_limits s" "ss_local_id (record_announce now s ih a) = ss_local_id s"
  by (simp_all add: record_announce_def Let_def)

lemma insert_contacts_frame [simp]:
  "ss_token_state (insert_contacts now cs s) = ss_token_state s" "ss_peer_store (insert_contacts now cs s) = ss_peer_store s"
  "ss_pending (insert_contacts now cs s) = ss_pending s" "ss_query_limits (insert_contacts now cs s) = ss_query_limits s"
  "ss_local_id (insert_contacts now cs s) = ss_local_id s" "ss_strict_martians (insert_contacts now cs s) = ss_strict_martians s"
  by (simp_all add: insert_contacts_def)

lemma ingest_frame [simp]:
  "ss_token_state (ingest_nodes_from now s r) = ss_token_state s" "ss_peer_store (ingest_nodes_from now s r) = ss_peer_store s"
  "ss_pending (ingest_nodes_from now s r) = ss_pending s" "ss_query_limits (ingest_nodes_from now s r) = ss_query_limits s"
  "ss_local_id (ingest_nodes_from now s r) = ss_local_id s" "ss_strict_martians (ingest_nodes_from now s r) = ss_strict_martians s"
  by (simp_all add: ingest_nodes_from_def split: krpc_response.splits)

lemma route_reply_frame:
  assumes "route_reply from txid r s = (s', effs)"
  shows "ss_token_state s' = ss_token_state s" "ss_peer_store s' = ss_peer_store s" "ss_query_limits s' = ss_query_limits s"
    "ss_local_id s' = ss_local_id s" "ss_routing s' = ss_routing s"
  using assms by (auto simp: route_reply_def split: option.splits if_splits)

end
