(* ===== verification/RT_Dht_Node.thy ===== *)
theory RT_Dht_Node
  imports RT_Dht_Server
begin

text \<open>
  What the DHT node guarantees over its runs: who gets into the peer store and how large it grows, how long a token
  is good for, that only the queried address can answer a query, and how many answers an address can draw.
\<close>

declare krpc_encode.simps [simp del]

lemma dht_run_snoc: "dht_run fl sha1 s (evs @ [ev]) = fst (dht_step fl sha1 ev (dht_run fl sha1 s evs))"
  by (simp add: dht_run_def)

lemma dht_run_Nil [simp]: "dht_run fl sha1 s [] = s"
  by (simp add: dht_run_def)

lemma dht_run_Cons: "dht_run fl sha1 s (ev # evs) = dht_run fl sha1 (fst (dht_step fl sha1 ev s)) evs"
  by (simp add: dht_run_def)

section \<open>The peer store\<close>

text \<open>The announce a datagram makes, if the node accepts it: the info-hash and the recorded address.\<close>

definition announce_of :: "(bytes \<Rightarrow> bytes) \<Rightarrow> shared_state \<Rightarrow> int \<Rightarrow> socket_addr \<Rightarrow> bytes \<Rightarrow> (bytes \<times> socket_addr) option" where
  "announce_of sha1 s now from bytes =
     (case krpc_decode now bytes of
        Inr (KQuery _ (AnnouncePeer _ ih port token implied)) \<Rightarrow>
          if verify_token sha1 s from token
          then Some (ih, SocketAddr (sa_ip from) (if implied then sa_port from else port)) else None
      | _ \<Rightarrow> None)"

lemma announce_of_Some:
  "announce_of sha1 s now from bytes = Some (ih, a) \<longleftrightarrow>
   (\<exists>txid i port token implied. krpc_decode now bytes = Inr (KQuery txid (AnnouncePeer i ih port token implied)) \<and>
      verify_token sha1 s from token \<and> a = SocketAddr (sa_ip from) (if implied then sa_port from else port))"
  unfolding announce_of_def by (simp split: sum.splits krpc_message.splits krpc_query.splits if_splits) blast

lemma verify_token_cong: "ss_token_state s' = ss_token_state s \<Longrightarrow> verify_token sha1 s' = verify_token sha1 s"
  by (simp add: verify_token_def fun_eq_iff)

lemma record_announce_cong: "ss_peer_store s' = ss_peer_store s \<Longrightarrow>
    ss_peer_store (record_announce now s' ih a) = ss_peer_store (record_announce now s ih a)"
  by (simp add: record_announce_def Let_def)

lemma answer_query_store:
  assumes "answer_query sha1 fresh now s from txid q = (s', effs)"
  shows "ss_peer_store s' =
    (case q of
       AnnouncePeer _ ih port token implied \<Rightarrow>
         if verify_token sha1 s from token
         then ss_peer_store (record_announce now s ih (SocketAddr (sa_ip from) (if implied then sa_port from else port)))
         else ss_peer_store s
     | _ \<Rightarrow> ss_peer_store s)"
proof (cases q)
  case (GetPeers i ih)
  then show ?thesis using assms
    by (auto simp: answer_query_def Let_def split: prod.splits if_splits dest: issue_token_frame)
next
  case (AnnouncePeer i ih port token implied)
  let ?l = "learn_contact now i from s"
  have "verify_token sha1 ?l = verify_token sha1 s" by (rule verify_token_cong) simp
  moreover have "ss_peer_store (record_announce now ?l h a) = ss_peer_store (record_announce now s h a)" for h a
    by (rule record_announce_cong) simp
  ultimately show ?thesis using assms AnnouncePeer
    by (auto simp: answer_query_def Let_def split: if_splits)
qed (use assms in \<open>auto simp: answer_query_def Let_def\<close>)

lemma handle_datagram_store:
  assumes "handle_datagram fl sha1 fresh now s from bytes = (s', effs)"
  shows "ss_peer_store s' = ss_peer_store s \<or>
    (\<exists>ih a. announce_of sha1 s now from bytes = Some (ih, a) \<and> ss_peer_store s' = ss_peer_store (record_announce now s ih a))"
proof (cases "krpc_decode now bytes")
  case (Inr m)
  show ?thesis
  proof (cases m)
    case (KQuery txid q)
    obtain ok s1 where al: "allow_query_from fl now s (sa_ip from) = (ok, s1)" by fastforce
    note F = allow_query_frame [OF al]
    have v: "verify_token sha1 s1 = verify_token sha1 s" by (rule verify_token_cong) (rule F)
    have r: "ss_peer_store (record_announce now s1 h a) = ss_peer_store (record_announce now s h a)" for h a
      by (rule record_announce_cong) (rule F)
    show ?thesis
    proof (cases ok)
      case True
      then have "answer_query sha1 fresh now s1 from txid q = (s', effs)"
        using assms Inr KQuery al by (simp add: handle_datagram_def)
      from answer_query_store [OF this] show ?thesis using Inr KQuery v r F
        by (auto simp: announce_of_def split: krpc_query.splits if_splits)
    next
      case False
      then show ?thesis using assms Inr KQuery al F by (simp add: handle_datagram_def)
    qed
  next
    case (KResponse txid resp)
    then show ?thesis using assms Inr
      by (auto simp: handle_datagram_def Let_def split: option.splits dest: route_reply_frame)
  next
    case (KError txid c msg)
    then show ?thesis using assms Inr by (auto simp: handle_datagram_def dest: route_reply_frame)
  qed
qed (use assms in \<open>simp add: handle_datagram_def\<close>)

definition store_ok :: "peer_store \<Rightarrow> bool" where
  "store_ok store \<longleftrightarrow> distinct (map fst store) \<and> length store \<le> MAX_INFO_HASHES \<and>
     (\<forall>(ih, es) \<in> set store. length es \<le> MAX_PEERS_PER_INFO_HASH \<and> distinct (map fst es))"

lemma length_alist_update: "length (AList.update k v al) = (if k \<in> fst ` set al then length al else Suc (length al))"
  by (induction al) auto

lemma record_announce_ok:
  assumes "store_ok (ss_peer_store s)"
  shows "store_ok (ss_peer_store (record_announce now s ih a))"
proof (cases "length (ss_peer_store s) < MAX_INFO_HASHES \<or> map_of (ss_peer_store s) ih \<noteq> None")
  case True
  let ?store = "ss_peer_store s"
  define es where "es = (case map_of ?store ih of Some es \<Rightarrow> es | None \<Rightarrow> [])"
  define en where "en = filter (\<lambda>(x, t). x \<noteq> a) es @ [(a, now)]"
  define entry where "entry = (if length en > MAX_PEERS_PER_INFO_HASH then drop (length en - MAX_PEERS_PER_INFO_HASH) en else en)"
  have "distinct (map fst es)" using assms by (auto simp: es_def store_ok_def split: option.splits dest!: map_of_SomeD)
  then have "distinct (map fst en)" by (auto simp: en_def distinct_map_filter)
  then have "length entry \<le> MAX_PEERS_PER_INFO_HASH \<and> distinct (map fst entry)"
    by (auto simp: entry_def drop_map [symmetric])
  moreover have "length (AList.update ih entry ?store) \<le> MAX_INFO_HASHES"
    using assms True by (auto simp: length_alist_update store_ok_def map_of_eq_None_iff)
  moreover note set_alist_update [of ih entry ?store]
  moreover have "record_announce now s ih a = s\<lparr>ss_peer_store := AList.update ih entry ?store\<rparr>"
    using True by (simp add: record_announce_def Let_def es_def en_def entry_def)
  ultimately show ?thesis using assms by (auto simp: store_ok_def distinct_update dest!: subsetD)
qed (use assms in \<open>simp add: record_announce_def\<close>)

definition stored :: "shared_state \<Rightarrow> bytes \<Rightarrow> socket_addr \<Rightarrow> int \<Rightarrow> bool" where
  "stored s ih a t \<longleftrightarrow> (\<exists>es. (ih, es) \<in> set (ss_peer_store s) \<and> (a, t) \<in> set es)"

lemma record_announce_stored:
  assumes "stored (record_announce now s ih a) ih' a' t'"
  shows "stored s ih' a' t' \<or> ih' = ih \<and> a' = a \<and> t' = now"
proof (cases "length (ss_peer_store s) < MAX_INFO_HASHES \<or> map_of (ss_peer_store s) ih \<noteq> None")
  case True
  define es where "es = (case map_of (ss_peer_store s) ih of Some es \<Rightarrow> es | None \<Rightarrow> [])"
  define en where "en = filter (\<lambda>(x, t). x \<noteq> a) es @ [(a, now)]"
  define entry where "entry = (if length en > MAX_PEERS_PER_INFO_HASH then drop (length en - MAX_PEERS_PER_INFO_HASH) en else en)"
  have "record_announce now s ih a = s\<lparr>ss_peer_store := AList.update ih entry (ss_peer_store s)\<rparr>"
    using True by (simp add: record_announce_def Let_def es_def en_def entry_def)
  then obtain e where e: "(ih', e) \<in> insert (ih, entry) (set (ss_peer_store s))" "(a', t') \<in> set e"
    using assms set_alist_update [of ih entry "ss_peer_store s"] by (auto simp: stored_def)
  have "set entry \<subseteq> insert (a, now) (set es)" by (auto simp: entry_def en_def dest: in_set_dropD)
  moreover have "es = [] \<or> (ih, es) \<in> set (ss_peer_store s)" by (auto simp: es_def split: option.splits dest: map_of_SomeD)
  ultimately show ?thesis using e by (auto simp: stored_def)
qed (use assms in \<open>simp add: record_announce_def\<close>)

lemma prune_store:
  assumes "store_ok (ss_peer_store s)"
  shows "store_ok (ss_peer_store (prune_peer_store now s))"
    "stored (prune_peer_store now s) ih a t \<longleftrightarrow> stored s ih a t \<and> duration_since now t \<le> ANNOUNCE_TTL"
proof -
  let ?f = "\<lambda>(ih, entries). (ih, filter (\<lambda>(a, t). duration_since now t \<le> ANNOUNCE_TTL) entries)"
  let ?g = "\<lambda>(ih, entries). entries \<noteq> []"
  let ?p = "filter ?g (map ?f (ss_peer_store s))"
  have eq: "ss_peer_store (prune_peer_store now s) = ?p" by (simp add: prune_peer_store_def)
  have "map fst (map ?f (ss_peer_store s)) = map fst (ss_peer_store s)" by auto
  then have "distinct (map fst (map ?f (ss_peer_store s)))" using assms by (simp only: store_ok_def)
  then have "distinct (map fst ?p)" by (rule distinct_map_filter)
  moreover have "length ?p \<le> MAX_INFO_HASHES"
    by (rule order_trans [OF length_filter_le]) (use assms in \<open>simp add: store_ok_def\<close>)
  moreover have "length (filter P es) \<le> MAX_PEERS_PER_INFO_HASH \<and> distinct (map fst (filter P es))"
    if "(ih, es) \<in> set (ss_peer_store s)" for ih es P
  proof -
    have "length es \<le> MAX_PEERS_PER_INFO_HASH \<and> distinct (map fst es)" using assms that by (auto simp: store_ok_def)
    then show ?thesis by (meson distinct_map_filter le_trans length_filter_le)
  qed
  ultimately show "store_ok (ss_peer_store (prune_peer_store now s))"
    unfolding eq by (auto simp: store_ok_def)
  show "stored (prune_peer_store now s) ih a t \<longleftrightarrow> stored s ih a t \<and> duration_since now t \<le> ANNOUNCE_TTL"
    unfolding stored_def eq by (force simp: filter_empty_conv)
qed

lemma step_store:
  assumes "store_ok (ss_peer_store s)" "dht_step fl sha1 ev s = (s', effs)"
  shows "store_ok (ss_peer_store s') \<and> (\<forall>ih a t. stored s' ih a t \<longrightarrow> stored s ih a t \<or>
    (\<exists>fresh from bytes. ev = EvDatagram t fresh from bytes \<and> announce_of sha1 s t from bytes = Some (ih, a)))"
proof -
  have same: ?thesis if "ss_peer_store s' = ss_peer_store s" using that assms(1) by (simp add: stored_def)
  show ?thesis
  proof (cases ev)
    case (EvDatagram now fresh src bytes)
    then have "handle_datagram fl sha1 fresh now s src bytes = (s', effs)" using assms(2) by simp
    from handle_datagram_store [OF this] show ?thesis
    proof (elim disjE exE conjE)
      fix ih a
      assume a: "announce_of sha1 s now src bytes = Some (ih, a)" "ss_peer_store s' = ss_peer_store (record_announce now s ih a)"
      have "stored s' = stored (record_announce now s ih a)" using a(2) by (simp add: stored_def fun_eq_iff)
      then show ?thesis using a record_announce_ok [OF assms(1), of now ih a] record_announce_stored [of now s ih a] EvDatagram
        by fastforce
    qed (rule same)
  next
    case (EvPrune now)
    then show ?thesis using assms prune_store [OF assms(1)] by auto
  qed (use assms same in \<open>auto simp: send_query_start_def send_query_end_def split: option.splits krpc_reply.splits\<close>)
qed

lemma dht_start_store [simp]: "ss_peer_store (dht_start now cur prev me warm strict) = []"
  by (simp add: dht_start_def shared_state_new_def)

lemma run_store:
  assumes run: "run = dht_run fl sha1 (dht_start now0 cur prev me warm strict)"
  shows "store_ok (ss_peer_store (run evs)) \<and> (\<forall>ih a t. stored (run evs) ih a t \<longrightarrow>
    (\<exists>pre fresh from bytes post. evs = pre @ EvDatagram t fresh from bytes # post \<and> announce_of sha1 (run pre) t from bytes = Some (ih, a)))"
proof (induction evs rule: rev_induct)
  case Nil
  then show ?case by (simp add: run store_ok_def stored_def MAX_INFO_HASHES_def)
next
  case (snoc ev evs)
  obtain s' effs where st: "dht_step fl sha1 ev (run evs) = (s', effs)" by fastforce
  note S = step_store [OF conjunct1 [OF snoc.IH] st]
  have "run (evs @ [ev]) = s'" using st by (simp add: run dht_run_snoc)
  moreover have "\<exists>pre fresh from bytes post. evs @ [ev] = pre @ EvDatagram t fresh from bytes # post \<and>
      announce_of sha1 (run pre) t from bytes = Some (ih, a)" if "stored s' ih a t" for ih a t
  proof -
    from S that consider "stored (run evs) ih a t"
      | fresh src bytes where "ev = EvDatagram t fresh src bytes" "announce_of sha1 (run evs) t src bytes = Some (ih, a)" by blast
    then show ?thesis
    proof cases
      case 1
      with snoc.IH obtain pre fresh src bytes post where
        "evs = pre @ EvDatagram t fresh src bytes # post" "announce_of sha1 (run pre) t src bytes = Some (ih, a)" by blast
      then show ?thesis by (intro exI [of _ pre] exI [of _ "post @ [ev]"]) auto
    next
      case 2
      then show ?thesis by (intro exI [of _ evs] exI [of _ fresh] exI [of _ src] exI [of _ bytes] exI [of _ "[]"]) auto
    qed
  qed
  ultimately show ?case using S by blast
qed

text \<open>
  C24: in every run of the node an entry of the peer store comes from an announce query for that info-hash, sent
  from the recorded address's own IP at the recorded time, with a token that the node's current or previous secret
  yields for that IP; and the store holds at most 16384 info-hashes with at most 256 distinct addresses each.
\<close>

theorem announce_store:
  assumes run: "s = dht_run fl sha1 (dht_start now0 cur prev me warm strict) evs"
  shows "length (ss_peer_store s) \<le> 16384 \<and> distinct (map fst (ss_peer_store s)) \<and>
    (\<forall>(ih, es) \<in> set (ss_peer_store s). length es \<le> 256 \<and> distinct (map fst es) \<and>
      (\<forall>(a, t) \<in> set es. \<exists>pre fresh from bytes post txid i port token implied.
         evs = pre @ EvDatagram t fresh from bytes # post \<and>
         krpc_decode t bytes = Inr (KQuery txid (AnnouncePeer i ih port token implied)) \<and>
         verify_token sha1 (dht_run fl sha1 (dht_start now0 cur prev me warm strict) pre) from token \<and>
         a = SocketAddr (sa_ip from) (if implied then sa_port from else port)))"
proof -
  let ?run = "dht_run fl sha1 (dht_start now0 cur prev me warm strict)"
  from run_store [OF refl, of fl sha1 now0 cur prev me warm strict evs]
  have ok: "store_ok (ss_peer_store s)" and *: "stored s ih a t \<Longrightarrow>
    \<exists>pre fresh from bytes post. evs = pre @ EvDatagram t fresh from bytes # post \<and> announce_of sha1 (?run pre) t from bytes = Some (ih, a)"
    for ih a t by (auto simp: run)
  have "\<exists>pre fresh from bytes post txid i port token implied. evs = pre @ EvDatagram t fresh from bytes # post \<and>
      krpc_decode t bytes = Inr (KQuery txid (AnnouncePeer i ih port token implied)) \<and>
      verify_token sha1 (?run pre) from token \<and> a = SocketAddr (sa_ip from) (if implied then sa_port from else port)"
    if "(ih, es) \<in> set (ss_peer_store s)" "(a, t) \<in> set es" for ih es a t
    using * [of ih a t] that announce_of_Some by (metis stored_def)
  moreover have "length (ss_peer_store s) \<le> 16384" "distinct (map fst (ss_peer_store s))"
    "(ih, es) \<in> set (ss_peer_store s) \<Longrightarrow> length es \<le> 256 \<and> distinct (map fst es)" for ih es
    using ok by (auto simp: store_ok_def MAX_INFO_HASHES_def MAX_PEERS_PER_INFO_HASH_def)
  ultimately show ?thesis unfolding Ball_def split_paired_All prod.case by meson
qed

abbreviation sample_start :: shared_state where
  "sample_start \<equiv> dht_start 0 (replicate 8 7) (replicate 8 9) sample_me [] False"

definition sample_announce :: krpc_message where
  "sample_announce = KQuery (ascii ''aa'') (AnnouncePeer (replicate 20 1) (replicate 20 2) 6881 (replicate 8 7) False)"

definition sample_events :: "dht_event list" where
  "sample_events = [EvDatagram 5 [] (SocketAddr (V4 8 8 8 8) 4000) (krpc_encode sample_announce)]"

lemma sample_decode: "krpc_decode now (krpc_encode sample_announce) = Inr sample_announce"
proof -
  have "wf_krpc sample_announce" by (simp add: sample_announce_def)
  from krpc_decode_encode [OF this] show ?thesis by (simp add: sample_announce_def)
qed

theorem announce_store_witness:
  "let s = dht_run (\<lambda>x. x) (\<lambda>b. b) sample_start sample_events in
   ss_peer_store s = [(replicate 20 2, [(SocketAddr (V4 8 8 8 8) 6881, 5)])] \<and> length (ss_peer_store s) \<le> 16384 \<and>
   (\<exists>pre fresh from bytes post token. sample_events = pre @ EvDatagram 5 fresh from bytes # post \<and>
      verify_token (\<lambda>b. b) (dht_run (\<lambda>x. x) (\<lambda>b. b) sample_start pre) from token)"
proof -
  let ?s = "dht_run (\<lambda>x. x) (\<lambda>b. b) sample_start sample_events"
  have "ss_peer_store ?s = [(replicate 20 2, [(SocketAddr (V4 8 8 8 8) 6881, 5)])]"
    by (simp add: sample_events_def dht_run_Cons handle_datagram_def sample_decode) (simp add: sample_announce_def allow_query_from_def
        dht_start_def shared_state_new_def insert_contacts_def bucket_new_def try_consume_def refill_def as_secs_f64_def
        duration_since_def QUERY_BURST_def answer_query_def learn_contact_def verify_token_def token_for_def record_announce_def
        MAX_QUERY_LIMIT_IPS_def MAX_INFO_HASHES_def MAX_PEERS_PER_INFO_HASH_def Let_def)
  then show ?thesis
    using announce_store [of ?s "\<lambda>x. x" "\<lambda>b. b" 0 "replicate 8 7" "replicate 8 9" sample_me "[]" False sample_events, OF refl]
    unfolding Let_def by fastforce
qed

section \<open>Tokens\<close>

fun ev_time :: "dht_event \<Rightarrow> int option" where
  "ev_time (EvDatagram now _ _ _) = Some now"
| "ev_time (EvPrune now) = Some now"
| "ev_time (EvIngest now _) = Some now"
| "ev_time _ = None"

definition during :: "int \<Rightarrow> int \<Rightarrow> dht_event \<Rightarrow> bool" where
  "during t1 t2 ev \<longleftrightarrow> (case ev_time ev of Some t \<Rightarrow> t1 \<le> t \<and> t < t2 | None \<Rightarrow> True)"

definition salt_live :: "bytes \<Rightarrow> int \<Rightarrow> token_state \<Rightarrow> bool" where
  "salt_live salt t0 ts \<longleftrightarrow> ts_current ts = salt \<or> ts_previous ts = salt \<and> t0 \<le> ts_last_rotated ts"

lemma issue_token_live:
  assumes "salt_live salt t0 (ss_token_state s)" "t0 \<le> now" "now < t0 + TOKEN_TTL" "issue_token sha1 fresh now s addr = (token, s')"
  shows "salt_live salt t0 (ss_token_state s')"
  using assms by (auto simp: issue_token_def salt_live_def Let_def duration_since_def)

lemma answer_query_live:
  assumes "salt_live salt t0 (ss_token_state s)" "t0 \<le> now" "now < t0 + TOKEN_TTL"
    "answer_query sha1 fresh now s from txid q = (s', effs)"
  shows "salt_live salt t0 (ss_token_state s')"
proof (cases q)
  case (GetPeers i ih)
  obtain token s1 where it: "issue_token sha1 fresh now (learn_contact now i from s) from = (token, s1)" by fastforce
  have "salt_live salt t0 (ss_token_state s1)" by (rule issue_token_live [OF _ assms(2,3) it]) (simp add: assms(1))
  then show ?thesis using assms(4) GetPeers it by (simp add: answer_query_def Let_def split: if_splits)
qed (use assms in \<open>auto simp: answer_query_def Let_def split: if_splits\<close>)

lemma handle_datagram_live:
  assumes "salt_live salt t0 (ss_token_state s)" "t0 \<le> now" "now < t0 + TOKEN_TTL"
    "handle_datagram fl sha1 fresh now s from bytes = (s', effs)"
  shows "salt_live salt t0 (ss_token_state s')"
proof (cases "krpc_decode now bytes")
  case (Inr m)
  show ?thesis
  proof (cases m)
    case (KQuery txid q)
    obtain ok s1 where al: "allow_query_from fl now s (sa_ip from) = (ok, s1)" by fastforce
    have "salt_live salt t0 (ss_token_state s1)" using allow_query_frame(1) [OF al] assms(1) by simp
    moreover have "if ok then answer_query sha1 fresh now s1 from txid q = (s', effs) else s' = s1"
      using assms(4) Inr KQuery al by (simp add: handle_datagram_def split: if_splits)
    ultimately show ?thesis using answer_query_live [OF _ assms(2,3)] by (metis (full_types))
  qed (use assms Inr in \<open>auto simp: handle_datagram_def Let_def split: option.splits dest: route_reply_frame\<close>)
qed (use assms in \<open>simp add: handle_datagram_def\<close>)

lemma run_live:
  assumes "list_all (during t0 (t0 + TOKEN_TTL)) evs" "salt_live salt t0 (ss_token_state s)"
  shows "salt_live salt t0 (ss_token_state (dht_run fl sha1 s evs))"
  using assms
proof (induction evs arbitrary: s)
  case (Cons ev evs)
  have "salt_live salt t0 (ss_token_state (fst (dht_step fl sha1 ev s)))"
  proof (cases ev)
    case (EvDatagram now fresh src bytes)
    obtain s' effs where "handle_datagram fl sha1 fresh now s src bytes = (s', effs)" by fastforce
    then show ?thesis using handle_datagram_live [OF Cons.prems(2)] Cons.prems(1) EvDatagram by (auto simp: during_def)
  qed (use Cons.prems(2) in \<open>auto simp: prune_peer_store_def send_query_start_def send_query_end_def split: option.splits krpc_reply.splits\<close>)
  then show ?case using Cons by (simp add: dht_run_Cons)
qed simp

lemma token_good:
  assumes "issue_token sha1 fresh t0 s addr = (token, s1)" "list_all (during t0 (t0 + TOKEN_TTL)) evs" "sa_ip addr' = sa_ip addr"
  shows "verify_token sha1 (dht_run fl sha1 s1 evs) addr' token"
proof -
  let ?salt = "ts_current (ss_token_state s1)"
  have "token = token_for sha1 addr' ?salt" using assms(1,3) by (auto simp: issue_token_def token_for_def Let_def)
  moreover have "salt_live ?salt t0 (ss_token_state (dht_run fl sha1 s1 evs))"
    by (rule run_live [OF assms(2)]) (simp add: salt_live_def)
  ultimately show ?thesis by (auto simp: verify_token_def salt_live_def)
qed

lemma step_local_id: "ss_local_id (fst (dht_step fl sha1 ev s)) = ss_local_id s"
proof (cases ev)
  case (EvDatagram now fresh src bytes)
  have ans: "ss_local_id (fst (answer_query sha1 fresh now s src txid q)) = ss_local_id s" for s txid q
    by (cases q) (auto simp: answer_query_def Let_def split: prod.splits if_splits dest: issue_token_frame)
  show ?thesis using EvDatagram
    by (auto simp: handle_datagram_def Let_def ans route_reply_def split: sum.splits krpc_message.splits option.splits prod.splits
        dest: allow_query_frame)
qed (auto simp: prune_peer_store_def send_query_start_def send_query_end_def split: option.splits krpc_reply.splits)

lemma run_local_id [simp]: "ss_local_id (dht_run fl sha1 s evs) = ss_local_id s"
  by (induction evs arbitrary: s) (simp_all add: dht_run_Cons step_local_id)

lemma record_announce_lists:
  assumes "length (ss_peer_store s) < 16384 \<or> ih \<in> fst ` set (ss_peer_store s)"
  shows "a \<in> set (stored_peers (record_announce now s ih a) ih)"
proof -
  have "map_of (ss_peer_store s) ih \<noteq> None" if "ih \<in> fst ` set (ss_peer_store s)" using that by (simp add: map_of_eq_None_iff)
  then have "length (ss_peer_store s) < MAX_INFO_HASHES \<or> map_of (ss_peer_store s) ih \<noteq> None" using assms by (auto simp: MAX_INFO_HASHES_def)
  moreover have "a \<in> fst ` set (drop n (es @ [(a, now)]))" if "n \<le> length es" for n and es :: "(socket_addr \<times> int) list"
    using that by simp
  ultimately show ?thesis
    by (simp add: record_announce_def stored_peers_def update_conv' MAX_PEERS_PER_INFO_HASH_def Let_def)
qed

lemma get_peers_token:
  assumes "krpc_decode t0 b = Inr (KQuery txid (GetPeers i ih))" "fst (allow_query_from fl t0 s (sa_ip a))"
    "handle_datagram fl sha1 fresh t0 s a b = (s1, effs)"
  obtains r token s0 where "issue_token sha1 fresh t0 s0 a = (token, s1)" "effs = [SendTo (krpc_encode (KResponse txid r)) a]"
    "(\<exists>ps. r = RPeers (ss_local_id s) token ps) \<or> (\<exists>ns. r = RPeersNodes (ss_local_id s) token ns)"
proof -
  obtain s0 where al: "allow_query_from fl t0 s (sa_ip a) = (True, s0)" using assms(2) by (metis prod.collapse)
  obtain token s2 where it: "issue_token sha1 fresh t0 (learn_contact t0 i a s0) a = (token, s2)" by fastforce
  have "ss_local_id s2 = ss_local_id s" using issue_token_frame(4) [OF it] allow_query_frame(4) [OF al] by simp
  moreover have "answer_query sha1 fresh t0 s0 a txid (GetPeers i ih) = (s1, effs)" using assms al by (simp add: handle_datagram_def)
  then have "s1 = s2" "effs = [SendTo (krpc_encode (KResponse txid
      (if stored_peers s2 ih \<noteq> [] then RPeers (ss_local_id s2) token (stored_peers s2 ih)
       else RPeersNodes (ss_local_id s2) token (closest (ss_routing s2) ih K)))) a]"
    using it by (auto simp: answer_query_def Let_def split: if_splits)
  ultimately show ?thesis by (intro that [OF it [folded \<open>s1 = s2\<close>]]) auto
qed

text \<open>
  C26: a token handed out by a \<open>get_peers\<close> answer is good for ten minutes. Whatever else the node does in that time,
  an \<open>announce_peer\<close> with the token from the same IP that passes the rate limit is acknowledged, and the announced
  address is listed for the info-hash afterwards, unless the store is full and does not know the hash.
\<close>

theorem announce_accepted:
  assumes "krpc_decode t0 b1 = Inr (KQuery tx1 (GetPeers i ih1))" "fst (allow_query_from fl t0 s (sa_ip a1))"
    "handle_datagram fl sha1 fresh1 t0 s a1 b1 = (s1, effs1)"
  shows "\<exists>r token. effs1 = [SendTo (krpc_encode (KResponse tx1 r)) a1] \<and>
    ((\<exists>ps. r = RPeers (ss_local_id s) token ps) \<or> (\<exists>ns. r = RPeersNodes (ss_local_id s) token ns)) \<and>
    (\<forall>evs t a2 b2 tx2 j ih port implied fresh2 s2 s3 effs.
       list_all (during t0 (t0 + TOKEN_TTL)) evs \<and> s2 = dht_run fl sha1 s1 evs \<and> sa_ip a2 = sa_ip a1 \<and>
       krpc_decode t b2 = Inr (KQuery tx2 (AnnouncePeer j ih port token implied)) \<and>
       fst (allow_query_from fl t s2 (sa_ip a2)) \<and> handle_datagram fl sha1 fresh2 t s2 a2 b2 = (s3, effs) \<longrightarrow>
       effs = [SendTo (krpc_encode (KResponse tx2 (RId (ss_local_id s)))) a2] \<and>
       (length (ss_peer_store s2) < 16384 \<or> ih \<in> fst ` set (ss_peer_store s2) \<longrightarrow>
        SocketAddr (sa_ip a2) (if implied then sa_port a2 else port) \<in> set (stored_peers s3 ih)))"
proof -
  obtain r token s0 where g: "issue_token sha1 fresh1 t0 s0 a1 = (token, s1)" "effs1 = [SendTo (krpc_encode (KResponse tx1 r)) a1]"
    "(\<exists>ps. r = RPeers (ss_local_id s) token ps) \<or> (\<exists>ns. r = RPeersNodes (ss_local_id s) token ns)"
    by (rule get_peers_token [OF assms])
  have id1: "ss_local_id s1 = ss_local_id s"
    using step_local_id [of fl sha1 "EvDatagram t0 fresh1 a1 b1" s] assms(3) by simp
  have acc: "effs = [SendTo (krpc_encode (KResponse tx2 (RId (ss_local_id s)))) a2] \<and>
       (length (ss_peer_store s2) < 16384 \<or> ih \<in> fst ` set (ss_peer_store s2) \<longrightarrow>
        SocketAddr (sa_ip a2) (if implied then sa_port a2 else port) \<in> set (stored_peers s3 ih))"
    if p: "list_all (during t0 (t0 + TOKEN_TTL)) evs" "s2 = dht_run fl sha1 s1 evs" "sa_ip a2 = sa_ip a1"
      "krpc_decode t b2 = Inr (KQuery tx2 (AnnouncePeer j ih port token implied))"
      "fst (allow_query_from fl t s2 (sa_ip a2))" "handle_datagram fl sha1 fresh2 t s2 a2 b2 = (s3, effs)"
    for evs t a2 b2 tx2 j ih port implied fresh2 s2 s3 effs
  proof -
    obtain s4 where al: "allow_query_from fl t s2 (sa_ip a2) = (True, s4)" using p(5) by (metis prod.collapse)
    let ?s5 = "learn_contact t j a2 s4" and ?a = "SocketAddr (sa_ip a2) (if implied then sa_port a2 else port)"
    have "verify_token sha1 s2 a2 token" unfolding p(2) by (rule token_good [OF g(1) p(1,3)])
    moreover have "verify_token sha1 ?s5 = verify_token sha1 s2" by (rule verify_token_cong) (simp add: allow_query_frame(1) [OF al])
    ultimately have "s3 = record_announce t ?s5 ih ?a" "effs = [SendTo (krpc_encode (KResponse tx2 (RId (ss_local_id ?s5)))) a2]"
      using p(4,6) al by (auto simp: handle_datagram_def answer_query_def Let_def)
    moreover have "ss_local_id ?s5 = ss_local_id s" using allow_query_frame(4) [OF al] p(2) id1 by simp
    moreover have "ss_peer_store ?s5 = ss_peer_store s2" using allow_query_frame(2) [OF al] by simp
    ultimately show ?thesis using record_announce_lists [of ?s5 ih ?a t] by simp
  qed
  show ?thesis
    by (rule exI [of _ r], rule exI [of _ token], intro conjI g(2,3) allI impI; elim conjE; drule (5) acc; simp)
qed

definition sample_get :: krpc_message where
  "sample_get = KQuery (ascii ''gp'') (GetPeers (replicate 20 1) (replicate 20 2))"

theorem announce_accepted_witness:
  "\<exists>r token. snd (handle_datagram (\<lambda>x. x) (\<lambda>b. b) [] 5 sample_start (SocketAddr (V4 8 8 8 8) 4000) (krpc_encode sample_get)) =
       [SendTo (krpc_encode (KResponse (ascii ''gp'') r)) (SocketAddr (V4 8 8 8 8) 4000)] \<and>
     ((\<exists>ps. r = RPeers sample_me token ps) \<or> (\<exists>ns. r = RPeersNodes sample_me token ns))"
proof -
  let ?a = "SocketAddr (V4 8 8 8 8) 4000"
  have "wf_krpc sample_get" by (simp add: sample_get_def)
  from krpc_decode_encode [OF this] have "krpc_decode 5 (krpc_encode sample_get) = Inr (KQuery (ascii ''gp'') (GetPeers (replicate 20 1) (replicate 20 2)))"
    by (simp add: sample_get_def)
  moreover have "fst (allow_query_from (\<lambda>x. x) 5 sample_start (sa_ip ?a))"
    by (simp add: allow_query_from_def dht_start_def shared_state_new_def insert_contacts_def bucket_new_def try_consume_def refill_def
        as_secs_f64_def duration_since_def QUERY_BURST_def Let_def)
  moreover have "ss_local_id sample_start = sample_me" by (simp add: dht_start_def shared_state_new_def)
  ultimately show ?thesis
    using announce_accepted [of 5 "krpc_encode sample_get" "ascii ''gp''" "replicate 20 1" "replicate 20 2" "\<lambda>x. x" sample_start ?a "\<lambda>b. b" "[]",
        OF _ _ surjective_pairing] by metis
qed

section \<open>Replies\<close>

text \<open>
  A datagram reaches a waiting query only if it comes from the very address the query was sent to and carries
  the query's transaction id, and then it is what the datagram decodes to. A datagram from any other address leaves
  every waiting query in place.
\<close>

theorem replies_only_from_target:
  assumes "handle_datagram fl sha1 fresh now s from bytes = (s', effs)"
  shows "(\<forall>ch r. Deliver ch r \<in> set effs \<longrightarrow>
      (\<exists>txid p. map_of (ss_pending s) txid = Some p \<and> pq_reply p = ch \<and> pq_target p = from \<and> map_of (ss_pending s') txid = None \<and>
        (case r of ReplyResponse resp \<Rightarrow> krpc_decode now bytes = Inr (KResponse txid resp)
         | ReplyError c msg \<Rightarrow> krpc_decode now bytes = Inr (KError txid c msg)))) \<and>
    (\<forall>txid p. map_of (ss_pending s) txid = Some p \<and> pq_target p \<noteq> from \<longrightarrow> map_of (ss_pending s') txid = Some p)"
proof (cases "krpc_decode now bytes")
  case (Inr m)
  show ?thesis
  proof (cases m)
    case (KQuery txid q)
    obtain ok s1 where al: "allow_query_from fl now s (sa_ip from) = (ok, s1)" by fastforce
    have "ss_pending (fst (answer_query sha1 fresh now s1 from txid q)) = ss_pending s1 \<and>
        Deliver ch r \<notin> set (snd (answer_query sha1 fresh now s1 from txid q))" for ch r
      by (cases q) (auto simp: answer_query_def Let_def split: prod.splits if_splits dest: issue_token_frame)
    then have "ss_pending s' = ss_pending s \<and> Deliver ch r \<notin> set effs" for ch r
      using assms Inr KQuery al allow_query_frame(3) [OF al] by (auto simp: handle_datagram_def split: if_splits)
    then show ?thesis by simp
  qed (use assms Inr in \<open>auto simp: handle_datagram_def route_reply_def delete_conv' Let_def split: option.splits if_splits\<close>)
qed (use assms in \<open>simp add: handle_datagram_def\<close>)

theorem replies_only_from_target_witness:
  "\<exists>s' effs p. handle_datagram (\<lambda>x. x) (\<lambda>b. b) [] 5 (fst (send_query_start (ascii ''gp'') 3 sample_start (SocketAddr (V4 9 9 9 9) 1) (Ping sample_me)))
       (SocketAddr (V4 8 8 8 8) 4000) (krpc_encode sample_get) = (s', effs) \<and> map_of (ss_pending s') (ascii ''gp'') = Some p \<and> pq_reply p = 3"
proof -
  let ?s = "fst (send_query_start (ascii ''gp'') 3 sample_start (SocketAddr (V4 9 9 9 9) 1) (Ping sample_me))"
  have p: "ss_pending ?s = [(ascii ''gp'', \<lparr>pq_reply = 3, pq_target = SocketAddr (V4 9 9 9 9) 1\<rparr>)]"
    by (simp add: send_query_start_def dht_start_def shared_state_new_def)
  obtain s' effs where h: "handle_datagram (\<lambda>x. x) (\<lambda>b. b) [] 5 ?s (SocketAddr (V4 8 8 8 8) 4000) (krpc_encode sample_get) = (s', effs)"
    by fastforce
  from replies_only_from_target [OF h] have "map_of (ss_pending s') (ascii ''gp'') = Some \<lparr>pq_reply = 3, pq_target = SocketAddr (V4 9 9 9 9) 1\<rparr>"
    by (simp add: p)
  then show ?thesis using h by fastforce
qed

section \<open>How many answers an address draws\<close>

definition limits_ok :: "(real \<Rightarrow> real) \<Rightarrow> int \<Rightarrow> ip_addr set \<Rightarrow> shared_state \<Rightarrow> bool" where
  "limits_ok fl t ips s \<longleftrightarrow> distinct (map fst (ss_query_limits s)) \<and>
     (\<forall>(ip, b) \<in> set (ss_query_limits s). ip \<in> ips \<and> bucket_wf fl b \<and> tb_capacity b = 20 \<and> tb_rate_per_sec b = 5 \<and> tb_last_refill b \<le> t)"

lemma limits_short:
  assumes "limits_ok fl t ips s" "finite ips" "card ips \<le> 4096"
  shows "length (ss_query_limits s) \<le> MAX_QUERY_LIMIT_IPS"
proof -
  have "fst ` set (ss_query_limits s) \<subseteq> ips" using assms(1) by (auto simp: limits_ok_def)
  then have "card (fst ` set (ss_query_limits s)) \<le> card ips" using assms(2) by (simp add: card_mono)
  moreover have "card (fst ` set (ss_query_limits s)) = length (ss_query_limits s)"
    using assms(1) distinct_card [of "map fst (ss_query_limits s)"] by (simp add: limits_ok_def)
  ultimately show ?thesis using assms(3) by (simp add: MAX_QUERY_LIMIT_IPS_def)
qed

text \<open>What an address can still draw in the window from \<open>t1\<close> to \<open>t2\<close>.\<close>

definition window :: "real \<Rightarrow> int \<Rightarrow> int \<Rightarrow> real" where
  "window e t1 t2 = 20 + 5 * (of_int (t2 - t1) / 1000) * (1 + e) ^ 3"

definition allowance :: "real \<Rightarrow> int \<Rightarrow> int \<Rightarrow> ip_addr \<Rightarrow> shared_state \<Rightarrow> real" where
  "allowance e t1 t2 ip s =
     (case map_of (ss_query_limits s) ip of None \<Rightarrow> window e t1 t2 | Some b \<Rightarrow> min (budget e b t2) (window e t1 t2))"

lemma allow_query_window:
  assumes r: "rounds_within e fl" and pos: "\<forall>x > 0. 0 < fl x" and f20: "fl 20 = 20"
    and ok: "limits_ok fl t2 ips s" and fin: "finite ips" "card ips \<le> 4096" "ip \<in> ips" and t: "t1 \<le> now" "now \<le> t2"
    and al: "allow_query_from fl now s ip = (g, s')"
  shows "limits_ok fl t2 ips s'"
    "(if g then 1 else 0) + allowance e t1 t2 ip s' \<le> allowance e t1 t2 ip s + 40 * e"
    "ip' \<noteq> ip \<Longrightarrow> allowance e t1 t2 ip' s' = allowance e t1 t2 ip' s"
proof -
  define b where "b = (case map_of (ss_query_limits s) ip of Some b \<Rightarrow> b | None \<Rightarrow> bucket_new now QUERY_BURST QUERY_RATE_PER_SEC)"
  obtain g' b' where tc: "try_consume fl now 1 b = (g', b')" by fastforce
  have s': "s' = s\<lparr>ss_query_limits := AList.update ip b' (ss_query_limits s)\<rparr>" "g' = g"
    using al tc limits_short [OF ok fin(1,2)] by (auto simp: allow_query_from_def Let_def b_def split: prod.splits)
  have b: "bucket_wf fl b" "tb_capacity b = 20" "tb_rate_per_sec b = 5" "tb_last_refill b \<le> t2"
    using ok t f20 by (auto simp: b_def limits_ok_def bucket_new_def bucket_wf_def QUERY_BURST_def QUERY_RATE_PER_SEC_def split: option.splits dest!: map_of_SomeD)
  note C = try_consume_refilled [OF r b(1) _ tc]
  have "tb_last_refill b' \<le> t2" using try_consume_last [OF tc] b(4) t by auto
  then show "limits_ok fl t2 ips s'"
    using ok C(1-3) b fin(3) set_alist_update [of ip b' "ss_query_limits s"] by (auto simp: limits_ok_def s' distinct_update)
  have "(if g then 1 else 0) + budget e b' t2 \<le> budget e (refill fl now b) t2 + e * 20" using C(4) [of t2] b s'(2) by simp
  moreover have "budget e (refill fl now b) t2 \<le> window e t1 t2" using refill_window [OF r pos b(1) t] b by (simp add: window_def)
  moreover have "budget e (refill fl now b) t2 \<le> budget e b t2 + e * 20" using refill_budget [OF r b(1) t(2)] b by simp
  moreover have "allowance e t1 t2 ip s \<ge> min (budget e b t2) (window e t1 t2)" by (simp add: allowance_def b_def split: option.splits)
  moreover have "allowance e t1 t2 ip s' \<le> budget e b' t2" by (simp add: allowance_def s' update_conv')
  moreover have "0 \<le> e" using r by (simp add: rounds_within_def)
  ultimately show "(if g then 1 else 0) + allowance e t1 t2 ip s' \<le> allowance e t1 t2 ip s + 40 * e" by (simp add: min_def split: if_splits)
  show "ip' \<noteq> ip \<Longrightarrow> allowance e t1 t2 ip' s' = allowance e t1 t2 ip' s" by (simp add: allowance_def s' update_conv')
qed

text \<open>The datagrams among the effects that go to an address.\<close>

definition sent_to :: "ip_addr \<Rightarrow> dht_effect list \<Rightarrow> nat" where
  "sent_to ip effs = length (filter (\<lambda>eff. case eff of SendTo _ a \<Rightarrow> sa_ip a = ip | Deliver _ _ \<Rightarrow> False) effs)"

lemma answer_query_sends:
  "answer_query sha1 fresh now s from txid q = (s', effs) \<Longrightarrow>
   ss_query_limits s' = ss_query_limits s \<and> sent_to ip effs = (if sa_ip from = ip then 1 else 0)"
  by (cases q) (auto simp: answer_query_def Let_def sent_to_def split: prod.splits if_splits dest: issue_token_frame)

lemma handle_datagram_sends:
  assumes r: "rounds_within e fl" and pos: "\<forall>x > 0. 0 < fl x" and f20: "fl 20 = 20"
    and ok: "limits_ok fl t2 ips s" and fin: "finite ips" "card ips \<le> 4096" "sa_ip from \<in> ips" and t: "t1 \<le> now" "now \<le> t2"
    and h: "handle_datagram fl sha1 fresh now s from bytes = (s', effs)"
  shows "limits_ok fl t2 ips s' \<and> of_nat (sent_to ip effs) + allowance e t1 t2 ip s' \<le> allowance e t1 t2 ip s + 40 * e"
proof -
  have e: "0 \<le> e" using r by (simp add: rounds_within_def)
  have same: ?thesis if "ss_query_limits s' = ss_query_limits s" "sent_to ip effs = 0"
    using that ok e by (simp add: limits_ok_def allowance_def)
  show ?thesis
  proof (cases "krpc_decode now bytes")
    case (Inr m)
    show ?thesis
    proof (cases m)
      case (KQuery txid q)
      obtain g s1 where al: "allow_query_from fl now s (sa_ip from) = (g, s1)" by fastforce
      note W = allow_query_window [OF r pos f20 ok fin t al]
      have "ss_query_limits s' = ss_query_limits s1 \<and> sent_to ip effs = (if g \<and> sa_ip from = ip then 1 else 0)"
        using h Inr KQuery al answer_query_sends [of sha1 fresh now s1 "from" txid q s' effs ip]
        by (auto simp: handle_datagram_def sent_to_def split: if_splits)
      moreover from this have "allowance e t1 t2 ip s' = allowance e t1 t2 ip s1" "limits_ok fl t2 ips s' = limits_ok fl t2 ips s1"
        by (simp_all add: allowance_def limits_ok_def)
      ultimately show ?thesis using W e by (cases "sa_ip from = ip") (auto split: if_splits)
    next
      case (KResponse txid resp)
      show ?thesis by (rule same)
        (use h Inr KResponse in \<open>auto simp: handle_datagram_def Let_def route_reply_def sent_to_def split: option.splits if_splits\<close>)
    next
      case (KError txid c msg)
      show ?thesis by (rule same)
        (use h Inr KError in \<open>auto simp: handle_datagram_def route_reply_def sent_to_def split: option.splits if_splits\<close>)
    qed
  qed (use h same in \<open>simp add: handle_datagram_def sent_to_def\<close>)
qed

text \<open>The datagrams the receive task sends to \<open>ip\<close> in a run.\<close>

fun answers :: "(real \<Rightarrow> real) \<Rightarrow> (bytes \<Rightarrow> bytes) \<Rightarrow> ip_addr \<Rightarrow> shared_state \<Rightarrow> dht_event list \<Rightarrow> nat" where
  "answers fl sha1 ip s [] = 0"
| "answers fl sha1 ip s (ev # evs) =
     (case ev of EvDatagram _ _ _ _ \<Rightarrow> sent_to ip (snd (dht_step fl sha1 ev s)) | _ \<Rightarrow> 0) + answers fl sha1 ip (fst (dht_step fl sha1 ev s)) evs"

definition asking :: "dht_event list \<Rightarrow> ip_addr set" where
  "asking evs = {sa_ip a | a. \<exists>now fresh bytes. EvDatagram now fresh a bytes \<in> set evs}"

lemma step_sends:
  assumes "rounds_within e fl" "\<forall>x > 0. 0 < fl x" "fl 20 = 20" "limits_ok fl t2 ips s" "finite ips" "card ips \<le> 4096"
    "asking [ev] \<subseteq> ips" "during t1 (t2 + 1) ev" "dht_step fl sha1 ev s = (s', effs)"
  shows "limits_ok fl t2 ips s' \<and>
    of_nat (case ev of EvDatagram _ _ _ _ \<Rightarrow> sent_to ip effs | _ \<Rightarrow> 0) + allowance e t1 t2 ip s' \<le> allowance e t1 t2 ip s + 40 * e"
proof -
  have "0 \<le> e" using assms(1) by (simp add: rounds_within_def)
  then have same: "limits_ok fl t2 ips s' \<and> allowance e t1 t2 ip s' \<le> allowance e t1 t2 ip s + 40 * e"
    if "ss_query_limits s' = ss_query_limits s" using that assms(4) by (simp add: limits_ok_def allowance_def)
  show ?thesis
  proof (cases ev)
    case (EvDatagram now fresh src bytes)
    have "sa_ip src \<in> ips" "t1 \<le> now" "now \<le> t2" using assms(7,8) EvDatagram by (auto simp: asking_def during_def)
    from handle_datagram_sends [OF assms(1-6) this, of sha1 fresh bytes s' effs ip] show ?thesis using assms(9) EvDatagram by simp
  qed (use assms(9) same in \<open>auto simp: prune_peer_store_def send_query_start_def send_query_end_def split: option.splits krpc_reply.splits\<close>)
qed

lemma run_sends:
  assumes "rounds_within e fl" "\<forall>x > 0. 0 < fl x" "fl 20 = 20" "finite ips" "card ips \<le> 4096"
  shows "limits_ok fl t2 ips s \<Longrightarrow> asking evs \<subseteq> ips \<Longrightarrow> list_all (during t1 (t2 + 1)) evs \<Longrightarrow>
    limits_ok fl t2 ips (dht_run fl sha1 s evs) \<and>
    of_nat (answers fl sha1 ip s evs) + allowance e t1 t2 ip (dht_run fl sha1 s evs) \<le> allowance e t1 t2 ip s + of_nat (length evs) * (40 * e)"
proof (induction evs arbitrary: s)
  case (Cons ev evs)
  obtain s' effs where st: "dht_step fl sha1 ev s = (s', effs)" by fastforce
  have "asking [ev] \<subseteq> ips" "asking evs \<subseteq> ips" using Cons.prems(2) by (fastforce simp: asking_def)+
  moreover have "answers fl sha1 ip s (ev # evs) = (case ev of EvDatagram _ _ _ _ \<Rightarrow> sent_to ip effs | _ \<Rightarrow> 0) + answers fl sha1 ip s' evs"
    using st by (cases ev) simp_all
  ultimately show ?case
    using step_sends [OF assms(1-3) Cons.prems(1) assms(4,5) _ _ st, of t1 ip] Cons.IH [of s'] Cons.prems(3) st
    by (simp add: dht_run_Cons algebra_simps)
qed simp

lemma allowance_bounds:
  assumes "rounds_within e fl" "limits_ok fl t2 ips s" "t1 \<le> t2"
  shows "0 \<le> allowance e t1 t2 ip s" "allowance e t1 t2 ip s \<le> window e t1 t2"
  using assms by (auto simp: allowance_def window_def budget_def limits_ok_def bucket_wf_def rounds_within_def split: option.splits dest!: map_of_SomeD)

text \<open>
  C25: as long as at most 4096 different addresses have ever sent the node a datagram, no address draws more than
  20 answers plus 5 for every second of any time window, up to the rounding of the token bucket. So a spoofed source
  address cannot be flooded by reflection. (Beyond 4096 addresses the sweep of the limiter map forgets buckets:
  see \<open>sweep_resets_limit\<close>.)
\<close>

theorem answers_bounded:
  assumes "rounds_within e fl" "\<forall>x > 0. 0 < fl x" "fl 20 = 20" "card (asking (pre @ evs)) \<le> 4096"
    "list_all (during t0 (t1 + 1)) pre" "list_all (during t1 (t2 + 1)) evs" "t1 \<le> t2"
    and s: "s = dht_run fl sha1 (dht_start now0 cur prev me warm strict) pre"
  shows "real (answers fl sha1 ip s evs) \<le> 20 + 5 * (of_int (t2 - t1) / 1000) * (1 + e) ^ 3 + of_nat (length evs) * (40 * e)"
proof -
  let ?ips = "asking (pre @ evs)"
  have sub: "asking xs \<subseteq> sa_ip ` (\<lambda>ev. case ev of EvDatagram _ _ a _ \<Rightarrow> a | _ \<Rightarrow> undefined) ` set xs" for xs
    by (force simp: asking_def image_iff)
  have fin: "finite ?ips" by (rule finite_subset [OF sub]) simp
  have split: "asking pre \<subseteq> ?ips" "asking evs \<subseteq> ?ips" by (auto simp: asking_def)
  have "limits_ok fl t1 ?ips (dht_start now0 cur prev me warm strict)"
    by (simp add: limits_ok_def dht_start_def shared_state_new_def)
  then have "limits_ok fl t1 ?ips s"
    using run_sends [OF assms(1-3) fin assms(4)] split(1) assms(5) unfolding s by blast
  then have ok: "limits_ok fl t2 ?ips s" using assms(7) by (fastforce simp: limits_ok_def)
  note R = run_sends [OF assms(1-3) fin assms(4) ok split(2) assms(6), of sha1 ip]
  show ?thesis
    using R allowance_bounds [OF assms(1) ok assms(7), of ip] allowance_bounds(1) [OF assms(1) conjunct1 [OF R] assms(7), of ip]
    by (simp add: window_def)
qed

lemma sample_answer:
  assumes "snd (handle_datagram (\<lambda>x. x) (\<lambda>b. b) [] 5 sample_start (SocketAddr (V4 8 8 8 8) 4000) (krpc_encode sample_announce)) = effs"
  shows "sent_to (V4 8 8 8 8) effs = 1"
  unfolding assms [symmetric] by (simp add: handle_datagram_def sample_decode) (simp add: sample_announce_def allow_query_from_def sent_to_def
        dht_start_def shared_state_new_def insert_contacts_def bucket_new_def try_consume_def refill_def as_secs_f64_def
        duration_since_def QUERY_BURST_def answer_query_def learn_contact_def verify_token_def token_for_def
        MAX_QUERY_LIMIT_IPS_def Let_def)

theorem answers_bounded_witness:
  "answers (\<lambda>x. x) (\<lambda>b. b) (V4 8 8 8 8) sample_start sample_events = 1 \<and>
   real (answers (\<lambda>x. x) (\<lambda>b. b) (V4 8 8 8 8) sample_start sample_events) \<le> 20 + 5 * (of_int (10 - 0) / 1000)"
proof -
  have "answers (\<lambda>x. x) (\<lambda>b. b) (V4 8 8 8 8) sample_start sample_events = 1"
    using sample_answer [OF refl] by (simp add: sample_events_def)
  moreover have "asking sample_events = {V4 8 8 8 8}" by (auto simp: asking_def sample_events_def)
  moreover have "rounds_within 0 (\<lambda>x. x)" by (simp add: rounds_within_def mono_def)
  ultimately show ?thesis
    using answers_bounded [of 0 "\<lambda>x. x" "[]" sample_events 0 0 10 sample_start "\<lambda>b. b"] by (simp add: sample_events_def during_def)
qed

text \<open>
  The sweep of the limiter map, run when it holds more than 4096 addresses, drops a bucket that holds 19 tokens or more,
  the asking address's own included; the address then starts over with a full bucket. As long as the other
  addresses keep the map large, an address that asks again at once is always answered.
\<close>

lemma alist_update_new: "k \<notin> fst ` set al \<Longrightarrow> AList.update k v al = al @ [(k, v)]"
  by (induction al) auto

definition crowded :: "int \<Rightarrow> ip_addr \<Rightarrow> shared_state \<Rightarrow> bool" where
  "crowded now ip s \<longleftrightarrow>
     (let others = filter (\<lambda>(x, b). x \<noteq> ip) (ss_query_limits s) in
      length others > MAX_QUERY_LIMIT_IPS \<and> (\<forall>(x, b) \<in> set others. tb_tokens b < 19 \<and> tb_last_refill b = now)) \<and>
     (case map_of (ss_query_limits s) ip of None \<Rightarrow> True | Some b \<Rightarrow> tb_tokens b = 19 \<and> tb_last_refill b = now) \<and>
     distinct (map fst (ss_query_limits s))"

lemma sweep_resets_limit:
  assumes "crowded now ip s"
  shows "fst (allow_query_from (\<lambda>x. x) now s ip) \<and> crowded now ip (snd (allow_query_from (\<lambda>x. x) now s ip))"
proof -
  let ?l = "ss_query_limits s"
  let ?o = "filter (\<lambda>(x, b). x \<noteq> ip) ?l"
  have c: "length ?o > MAX_QUERY_LIMIT_IPS" "\<And>x b. (x, b) \<in> set ?l \<Longrightarrow> x \<noteq> ip \<Longrightarrow> tb_tokens b < 19 \<and> tb_last_refill b = now"
    "\<And>b. map_of ?l ip = Some b \<Longrightarrow> tb_tokens b = 19 \<and> tb_last_refill b = now" "distinct (map fst ?l)"
    using assms by (auto simp: crowded_def Let_def)
  have long: "length ?l > MAX_QUERY_LIMIT_IPS" using c(1) length_filter_le [of "\<lambda>(x, b). x \<noteq> ip" ?l] by linarith
  have fresh: "tb_last_refill b = now \<and> (tb_tokens b < 19 \<longleftrightarrow> x \<noteq> ip)" if "(x, b) \<in> set ?l" for x b
  proof (cases "x = ip")
    case True
    then have "map_of ?l ip = Some b" using that c(4) by simp
    then show ?thesis using c(3) True by simp
  qed (use c(2) that in auto)
  have still: "snd (available (\<lambda>x. x) now b) = b" if "tb_last_refill b = now" for b
    using that by (simp add: available_def refill_def as_secs_f64_def duration_since_def)
  have "map (\<lambda>(x, b). (x, snd (available (\<lambda>x. x) now b))) ?l = ?l" by (rule map_idI) (use fresh still in auto)
  then have "retain_limited (\<lambda>x. x) now ?l = filter (\<lambda>(x, b). tb_tokens b < 19) ?l" by (simp add: retain_limited_def QUERY_BURST_def)
  also have "\<dots> = ?o" by (rule filter_cong) (use fresh in auto)
  finally have keep: "retain_limited (\<lambda>x. x) now ?l = ?o" .
  have notin: "ip \<notin> fst ` set ?o" by auto
  let ?b = "(bucket_new now 20 5)\<lparr>tb_tokens := 19\<rparr>"
  have upd: "AList.update ip ?b ?o = ?o @ [(ip, ?b)]" using notin by (rule alist_update_new)
  have none: "map_of ?o ip = None" using notin unfolding map_of_eq_None_iff .
  have "allow_query_from (\<lambda>x. x) now s ip = (True, s\<lparr>ss_query_limits := AList.update ip ?b ?o\<rparr>)"
    using long by (simp add: allow_query_from_def keep none try_consume_def refill_def as_secs_f64_def
      duration_since_def QUERY_BURST_def QUERY_RATE_PER_SEC_def bucket_new_def Let_def)
  then have al: "allow_query_from (\<lambda>x. x) now s ip = (True, s\<lparr>ss_query_limits := ?o @ [(ip, ?b)]\<rparr>)" by (simp only: upd)
  have "filter (\<lambda>(x, b). x \<noteq> ip) (?o @ [(ip, ?b)]) = ?o" by simp
  moreover have "map_of (?o @ [(ip, ?b)]) ip = Some ?b" by (simp add: map_add_def none)
  moreover have "distinct (map fst (?o @ [(ip, ?b)]))" using c(4) notin by (auto simp: distinct_map_filter)
  ultimately show ?thesis using c(1,2) by (auto simp: al crowded_def bucket_new_def)
qed

end
