(* ===== verification/RT_Dht_Lookup.thy ===== *)
theory RT_Dht_Lookup
  imports RT_Dht_Server
begin

text \<open>
  The iterative lookups of the DHT node end, whatever the network answers and however the clock runs, and their
  results are what a lookup should give. The loop is shared by the three lookups; what they do with an answer is an
  interface (\<open>answer_laws\<close>) that each of them implements.
\<close>

section \<open>The shortlist\<close>

lemma dedup_set: "set (dedup_by_key f xs) \<subseteq> set xs \<and> f ` set (dedup_by_key f xs) = f ` set xs"
  by (induction f xs rule: dedup_by_key.induct) auto

lemma dedup_strict:
  assumes "sorted (map d xs)" "\<And>x y. x \<in> set xs \<Longrightarrow> y \<in> set xs \<Longrightarrow> d x = d y \<longleftrightarrow> f x = f y"
  shows "sorted_wrt (<) (map d (dedup_by_key f xs))"
  using assms
proof (induction f xs rule: dedup_by_key.induct)
  case (1 f x y xs)
  show ?case
  proof (cases "f x = f y")
    case True
    have "sorted_wrt (<) (map d (dedup_by_key f (x # xs)))" by (rule 1(1) [OF True]) (use 1 in auto)
    then show ?thesis using True by simp
  next
    case False
    have ih: "sorted_wrt (<) (map d (dedup_by_key f (y # xs)))" by (rule 1(2) [OF False]) (use 1 in auto)
    have "d x < d z" if "z \<in> set (dedup_by_key f (y # xs))" for z
    proof -
      have "z \<in> set (y # xs)" using that dedup_set [of f "y # xs"] by blast
      then have "d y \<le> d z" "d x \<le> d y" using 1(3) by auto
      moreover have "d x \<noteq> d y" using False 1(4) [of x y] by simp
      ultimately show ?thesis by simp
    qed
    then show ?thesis using False ih by simp
  qed
qed auto

definition ids20 :: "contact list \<Rightarrow> bool" where
  "ids20 cs \<longleftrightarrow> (\<forall>c \<in> set cs. length (ct_id c) = 20)"

lemma trim_shortlist:
  assumes "ids20 cs" "length target = 20"
  shows "sorted_wrt (<) (map (\<lambda>c. distance (ct_id c) target) (trim_shortlist target cs))"
    "set (trim_shortlist target cs) \<subseteq> set cs" "length (trim_shortlist target cs) \<le> 32"
proof -
  let ?d = "\<lambda>c. distance (ct_id c) target"
  have "?d x = ?d y \<longleftrightarrow> ct_id x = ct_id y" if "x \<in> set cs" "y \<in> set cs" for x y
    using distance_inj [of "ct_id x" target "ct_id y"] assms that by (auto simp: ids20_def)
  then have "sorted_wrt (<) (map ?d (dedup_by_key ct_id (sort_key ?d cs)))" by (intro dedup_strict) auto
  then show "sorted_wrt (<) (map ?d (trim_shortlist target cs))" by (simp add: trim_shortlist_def take_map [symmetric] sorted_wrt_take)
  show "set (trim_shortlist target cs) \<subseteq> set cs"
    using dedup_set [of ct_id "sort_key ?d cs"] by (auto simp: trim_shortlist_def dest: in_set_takeD)
  show "length (trim_shortlist target cs) \<le> 32" by (simp add: trim_shortlist_def K_def)
qed

section \<open>What an answer may change\<close>

fun response_nodes :: "krpc_response \<Rightarrow> contact list" where
  "response_nodes (RNodes _ ns) = ns"
| "response_nodes (RPeersNodes _ _ ns) = ns"
| "response_nodes _ = []"

fun response_token :: "krpc_response \<Rightarrow> bytes option" where
  "response_token (RPeers _ token _) = Some token"
| "response_token (RPeersNodes _ token _) = Some token"
| "response_token _ = None"

definition strict_of :: "lookup_state \<Rightarrow> bool" where
  "strict_of st = ss_strict_martians (lk_shared st)"

text \<open>A contact a lookup may talk to: one of our own table, or one with a dialable address.\<close>

definition origin :: "contact set \<Rightarrow> bool \<Rightarrow> contact \<Rightarrow> bool" where
  "origin T b c \<longleftrightarrow> c \<in> T \<or> is_dialable_peer_addr (ct_addr c) b"

type_synonym network = "nat \<Rightarrow> contact \<Rightarrow> krpc_response option"

definition token_given :: "network \<Rightarrow> contact set \<Rightarrow> bool \<Rightarrow> node_id \<times> bytes \<times> socket_addr \<Rightarrow> bool" where
  "token_given ask T b x \<longleftrightarrow> (\<exists>k c r token. ask k c = Some r \<and> response_token r = Some token \<and> origin T b c \<and> x = (ct_id c, token, ct_addr c))"

text \<open>The decoder gives every contact of an answer a 20-byte identifier.\<close>

definition wf_answers :: "network \<Rightarrow> bool" where
  "wf_answers ask \<longleftrightarrow> (\<forall>k c r. ask k c = Some r \<longrightarrow> ids20 (response_nodes r))"

definition lk_ok :: "network \<Rightarrow> contact set \<Rightarrow> bool \<Rightarrow> node_id \<Rightarrow> lookup_state \<Rightarrow> bool" where
  "lk_ok ask T b target st \<longleftrightarrow> strict_of st = b \<and> distinct (lk_queried st) \<and> (\<forall>i \<in> set (lk_queried st). length i = 20) \<and>
     ids20 (lk_shortlist st) \<and> sorted_wrt (<) (map (\<lambda>c. distance (ct_id c) target) (lk_shortlist st)) \<and> length (lk_shortlist st) \<le> 32 \<and>
     (\<forall>c \<in> set (lk_shortlist st). origin T b c) \<and> (\<forall>x \<in> set (lk_tokens st). token_given ask T b x)"

lemma strict_sorted_ids: "sorted_wrt (<) (map (\<lambda>c. distance (ct_id c) target) cs) \<Longrightarrow> distinct (map ct_id cs)"
  by (induction cs) auto

lemma next_fresh:
  assumes "lk_ok ask T b target st"
  shows "distinct (lk_queried st @ map ct_id (lookup_next st))" "set (lookup_next st) \<subseteq> set (lk_shortlist st)" "length (lookup_next st) \<le> 3"
proof -
  have "distinct (map ct_id (lk_shortlist st))" using assms strict_sorted_ids unfolding lk_ok_def by blast
  then have "distinct (map ct_id (lookup_next st))" by (simp add: lookup_next_def take_map [symmetric] distinct_map_filter)
  moreover have "ct_id c \<notin> set (lk_queried st)" if "c \<in> set (lookup_next st)" for c
    using that by (auto simp: lookup_next_def dest: in_set_takeD)
  ultimately show "distinct (lk_queried st @ map ct_id (lookup_next st))" using assms by (auto simp: lk_ok_def)
  show "set (lookup_next st) \<subseteq> set (lk_shortlist st)" by (auto simp: lookup_next_def dest: in_set_takeD)
  show "length (lookup_next st) \<le> 3" by (simp add: lookup_next_def ALPHA_def)
qed

text \<open>
  An answer leaves the queried set alone, appends only dialable contacts it names to the shortlist, and files a
  token only under the contact that gave it.
\<close>

locale answer_laws =
  fixes on_answer :: answer_handler
  assumes queried: "lk_queried (on_answer now c r st) = lk_queried st"
    and strict: "strict_of (on_answer now c r st) = strict_of st"
    and extends: "\<exists>xs. lk_shortlist (on_answer now c r st) = lk_shortlist st @ xs \<and> set xs \<subseteq> set (response_nodes r) \<and>
      (\<forall>x \<in> set xs. is_dialable_peer_addr (ct_addr x) (strict_of st))"
    and tokens: "x \<in> set (lk_tokens (on_answer now c r st)) \<Longrightarrow>
      x \<in> set (lk_tokens st) \<or> (\<exists>token. response_token r = Some token \<and> x = (ct_id c, token, ct_addr c))"
begin

lemma fold_answers:
  fixes st cs ans now
  defines "st' \<equiv> foldl (\<lambda>st c. case ans c of Some r \<Rightarrow> on_answer now c r st | None \<Rightarrow> st) st cs"
  shows "lk_queried st' = lk_queried st \<and> strict_of st' = strict_of st \<and>
    (\<forall>x \<in> set (lk_shortlist st'). x \<in> set (lk_shortlist st) \<or>
       is_dialable_peer_addr (ct_addr x) (strict_of st) \<and> (\<exists>c \<in> set cs. \<exists>r. ans c = Some r \<and> x \<in> set (response_nodes r))) \<and>
    (\<forall>x \<in> set (lk_tokens st'). x \<in> set (lk_tokens st) \<or>
       (\<exists>c \<in> set cs. \<exists>r token. ans c = Some r \<and> response_token r = Some token \<and> x = (ct_id c, token, ct_addr c)))"
  unfolding st'_def
proof (induction cs rule: rev_induct)
  case (snoc c cs)
  define s1 where "s1 = foldl (\<lambda>st c. case ans c of Some r \<Rightarrow> on_answer now c r st | None \<Rightarrow> st) st cs"
  show ?case
  proof (cases "ans c")
    case (Some r)
    obtain xs where xs: "lk_shortlist (on_answer now c r s1) = lk_shortlist s1 @ xs" "set xs \<subseteq> set (response_nodes r)"
      "\<forall>x \<in> set xs. is_dialable_peer_addr (ct_addr x) (strict_of s1)" using extends [of now c r s1] by blast
    then show ?thesis using snoc.IH Some queried [of now c r s1] strict [of now c r s1] tokens [of _ now c r s1]
      unfolding s1_def [symmetric] by (simp add: s1_def [symmetric] ball_Un) blast
  qed (use snoc.IH in auto)
qed simp

lemma round_ok:
  fixes now k
  assumes ok: "lk_ok ask T b target st" and wf: "wf_answers ask" "length target = 20"
  defines "st' \<equiv> lookup_round on_answer target now (ask k) st"
  shows "lk_ok ask T b target st'" "lk_queried st' = lk_queried st @ map ct_id (lookup_next st)"
proof -
  define s1 where "s1 = st\<lparr>lk_queried := lk_queried st @ map ct_id (lookup_next st)\<rparr>"
  define s2 where "s2 = foldl (\<lambda>st c. case ask k c of Some r \<Rightarrow> on_answer now c r st | None \<Rightarrow> st) s1 (lookup_next st)"
  have st': "st' = s2\<lparr>lk_shortlist := trim_shortlist target (lk_shortlist s2)\<rparr>" by (simp add: st'_def lookup_round_def s1_def s2_def Let_def)
  have F: "lk_queried s2 = lk_queried s1" "strict_of s2 = strict_of s1"
    "x \<in> set (lk_shortlist s2) \<Longrightarrow> x \<in> set (lk_shortlist s1) \<or>
       is_dialable_peer_addr (ct_addr x) (strict_of s1) \<and> (\<exists>c \<in> set (lookup_next st). \<exists>r. ask k c = Some r \<and> x \<in> set (response_nodes r))"
    "y \<in> set (lk_tokens s2) \<Longrightarrow> y \<in> set (lk_tokens s1) \<or>
       (\<exists>c \<in> set (lookup_next st). \<exists>r token. ask k c = Some r \<and> response_token r = Some token \<and> y = (ct_id c, token, ct_addr c))" for x y
    using fold_answers [where ans = "ask k" and st = s1 and cs = "lookup_next st" and now = now, folded s2_def] by blast+
  show q: "lk_queried st' = lk_queried st @ map ct_id (lookup_next st)" using F(1) by (simp add: st' s1_def)
  note N = next_fresh [OF ok]
  have b: "strict_of s1 = b" "strict_of st = b" using ok by (simp_all add: lk_ok_def s1_def strict_of_def)
  have orig: "origin T b c" if "c \<in> set (lk_shortlist s2)" for c
    using F(3) [OF that] ok b by (auto simp: lk_ok_def origin_def s1_def)
  have ids: "ids20 (lk_shortlist s2)"
    using F(3) ok wf(1) by (fastforce simp: lk_ok_def ids20_def wf_answers_def s1_def)
  note Tr = trim_shortlist [OF ids wf(2)]
  have tok: "token_given ask T b y" if "y \<in> set (lk_tokens s2)" for y
  proof -
    from F(4) [OF that] show ?thesis
    proof (elim disjE bexE exE conjE)
      fix c r token assume "c \<in> set (lookup_next st)" "ask k c = Some r" "response_token r = Some token" "y = (ct_id c, token, ct_addr c)"
      moreover from this N(2) ok have "origin T b c" by (auto simp: lk_ok_def)
      ultimately show ?thesis unfolding token_given_def by blast
    qed (use ok in \<open>simp add: s1_def lk_ok_def\<close>)
  qed
  have "\<forall>i \<in> set (lk_queried st'). length i = 20" using q N(2) ok by (auto simp: lk_ok_def ids20_def)
  moreover have "distinct (lk_queried st')" using N(1) q by simp
  moreover have "strict_of st' = b" using F(2) b by (simp add: st' strict_of_def)
  moreover have "lk_shortlist st' = trim_shortlist target (lk_shortlist s2)" "lk_tokens st' = lk_tokens s2" by (simp_all add: st')
  moreover have "ids20 (trim_shortlist target (lk_shortlist s2))" using ids Tr(2) by (auto simp: ids20_def)
  ultimately show "lk_ok ask T b target st'" using Tr orig tok unfolding lk_ok_def by auto
qed

text \<open>
  Every round queries an identifier that was not queried before, and there are finitely many identifiers; so the
  loop ends after finitely many rounds, each begun within the time budget.
\<close>

lemma loop_returns:
  assumes wf: "wf_answers ask" "length target = 20"
  shows "lk_ok ask T b target st \<Longrightarrow> \<exists>st' n. lookup_loop clock ask on_answer enough target k st = Some st' \<and> lk_ok ask T b target st' \<and>
    length (lk_queried st') \<le> length (lk_queried st) + 3 * n \<and> (\<forall>j < n. duration_since (clock (Suc (k + j))) (clock 0) < LOOKUP_BUDGET) \<and>
    (enough st' \<or> lookup_next st' = [] \<or> LOOKUP_BUDGET \<le> duration_since (clock (Suc (k + n))) (clock 0))"
proof (induction "card ({i :: node_id. length i = 20} - set (lk_queried st))" arbitrary: k st rule: less_induct)
  case less
  let ?I = "{i :: node_id. length i = 20}"
  have fin: "finite ?I" using finite_lists_length_eq [of "UNIV :: u8 set" 20] by simp
  show ?case
  proof (cases "duration_since (clock (Suc k)) (clock 0) < LOOKUP_BUDGET \<and> lookup_next st \<noteq> []")
    case False
    then have "lookup_loop clock ask on_answer enough target k st = Some st" by (subst lookup_loop.simps) auto
    then show ?thesis using False less.prems by (intro exI [of _ st] exI [of _ 0]) auto
  next
    case True
    define st1 where "st1 = lookup_round on_answer target (clock (Suc k)) (ask k) st"
    note R = round_ok [OF less.prems wf, of "clock (Suc k)" k, folded st1_def]
    note N = next_fresh [OF less.prems]
    have eq: "lookup_loop clock ask on_answer enough target k st =
        (if enough st1 then Some st1 else lookup_loop clock ask on_answer enough target (Suc k) st1)"
      using True by (subst lookup_loop.simps) (simp add: st1_def Let_def)
    have len: "length (lk_queried st1) \<le> length (lk_queried st) + 3" using R(2) N(3) by simp
    show ?thesis
    proof (cases "enough st1")
      case True': True
      then show ?thesis using eq R(1) len True by (intro exI [of _ st1] exI [of _ 1]) auto
    next
      case False
      obtain c where c: "c \<in> set (lookup_next st)" using True by (cases "lookup_next st") auto
      have "ct_id c \<in> ?I - set (lk_queried st)" using c N(1,2) less.prems by (auto simp: lk_ok_def ids20_def)
      moreover have "ct_id c \<in> set (lk_queried st1)" "set (lk_queried st) \<subseteq> set (lk_queried st1)" using c R(2) by auto
      ultimately have "card (?I - set (lk_queried st1)) < card (?I - set (lk_queried st))"
        using fin by (intro psubset_card_mono) auto
      from less.hyps [OF this R(1), of "Suc k"] obtain st' n where
        I: "lookup_loop clock ask on_answer enough target (Suc k) st1 = Some st'" "lk_ok ask T b target st'"
          "length (lk_queried st') \<le> length (lk_queried st1) + 3 * n" "\<forall>j < n. duration_since (clock (Suc (Suc k + j))) (clock 0) < LOOKUP_BUDGET"
          "enough st' \<or> lookup_next st' = [] \<or> LOOKUP_BUDGET \<le> duration_since (clock (Suc (Suc k + n))) (clock 0)" by blast
      have "duration_since (clock (Suc (k + j))) (clock 0) < LOOKUP_BUDGET" if "j < Suc n" for j
        using I(4) True that by (cases j) auto
      then show ?thesis using eq False I len by (intro exI [of _ st'] exI [of _ "Suc n"]) auto
    qed
  qed
qed

end

lemma ingest_lk [simp]:
  "lk_queried (lk_ingest now r st) = lk_queried st" "lk_shortlist (lk_ingest now r st) = lk_shortlist st"
  "lk_tokens (lk_ingest now r st) = lk_tokens st" "lk_peers (lk_ingest now r st) = lk_peers st" "strict_of (lk_ingest now r st) = strict_of st"
  by (simp_all add: lk_ingest_def strict_of_def)

lemma extend_lk [simp]:
  "lk_queried (lk_extend ns st) = lk_queried st" "lk_tokens (lk_extend ns st) = lk_tokens st" "lk_peers (lk_extend ns st) = lk_peers st"
  "strict_of (lk_extend ns st) = strict_of st" "lk_shortlist (lk_extend ns st) = lk_shortlist st @ dialable_nodes ns (strict_of st)"
  by (simp_all add: lk_extend_def strict_of_def)

lemma token_lk [simp]:
  "lk_queried (lk_token c tok st) = lk_queried st" "lk_shortlist (lk_token c tok st) = lk_shortlist st" "lk_peers (lk_token c tok st) = lk_peers st"
  "strict_of (lk_token c tok st) = strict_of st"
  by (simp_all add: lk_token_def strict_of_def)

lemma token_lk_set: "x \<in> set (lk_tokens (lk_token c tok st)) \<Longrightarrow> x \<in> set (lk_tokens st) \<or> x = (ct_id c, tok, ct_addr c)"
  using set_alist_update [of "ct_id c" "(tok, ct_addr c)" "lk_tokens st"] by (auto simp: lk_token_def)

lemma peers_strict [simp]: "strict_of (st\<lparr>lk_peers := ps\<rparr>) = strict_of st"
  by (simp add: strict_of_def)

lemma dialable_nodes_set: "set (dialable_nodes ns b) \<subseteq> set ns" "x \<in> set (dialable_nodes ns b) \<Longrightarrow> is_dialable_peer_addr (ct_addr x) b"
  by (auto simp: dialable_nodes_def)

lemmas answer_simps = find_node_answer_def get_peers_answer_def announce_answer_def

interpretation find_node: answer_laws find_node_answer
  by unfold_locales (auto simp: answer_simps dialable_nodes_def Let_def split: krpc_response.splits)

interpretation get_peers: answer_laws get_peers_answer
  by unfold_locales (auto simp: answer_simps dialable_nodes_def Let_def split: krpc_response.splits dest!: token_lk_set)

interpretation announce: answer_laws announce_answer
  by unfold_locales (auto simp: answer_simps dialable_nodes_def Let_def split: krpc_response.splits dest!: token_lk_set)

section \<open>The lookups\<close>

lemma start_ok:
  assumes "rt_ok (ss_routing s)" "length target = 20"
  shows "lk_ok ask (set (rt_contacts (ss_routing s))) (ss_strict_martians s) target (lookup_start s target)"
  using closest_spec [OF assms, of "K * 2"] rt_ok_id [OF assms(1)]
  by (auto simp: lk_ok_def lookup_start_def strict_of_def ids20_def origin_def K_def)

lemma trim_result:
  assumes "lk_ok ask T b target st"
  shows "length (take K (lk_shortlist st)) \<le> 8" "sorted_wrt (<) (map (\<lambda>c. distance (ct_id c) target) (take K (lk_shortlist st)))"
    "c \<in> set (take K (lk_shortlist st)) \<Longrightarrow> origin T b c"
  using assms by (auto simp: lk_ok_def K_def take_map [symmetric] sorted_wrt_take dest: in_set_takeD)


definition sample_net :: network where
  "sample_net k c = (if k = 0 then Some (RNodes (ct_id c) [contact_new 0 (replicate 20 3) (SocketAddr (V4 8 8 8 8) 6881)]) else None)"


end
