(* ===== verification/RT_Dht_Persist.thy ===== *)
theory RT_Dht_Persist
  imports RT_Dht_Server
begin

text \<open>
  Saving and restoring the DHT state, \<open>src/src/dht/persist.rs\<close>, and starting the node from it, \<open>src/src/dht/mod.rs\<close>.
  A file system is a map from paths to contents; which of the system calls fail is an argument.
\<close>

section \<open>The file format\<close>

definition MAGIC :: bytes where "MAGIC = ascii ''RTDH''"
definition VERSION :: u8 where "VERSION = 1"

definition saved_contact :: "int \<Rightarrow> bytes \<Rightarrow> contact" where
  "saved_contact now chunk =
     contact_new now (take 20 chunk) (SocketAddr (V4 (chunk ! 20) (chunk ! 21) (chunk ! 22) (chunk ! 23)) (be16_at chunk 24))"

definition load_bytes :: "int \<Rightarrow> bytes \<Rightarrow> (node_id \<times> contact list) option" where
  "load_bytes now bytes =
     (if length bytes < 4 + 1 + 20 + 4 then None
      else if take 4 bytes \<noteq> MAGIC \<or> bytes ! 4 \<noteq> VERSION then None
      else
        let i = take 20 (drop 5 bytes);
            n = unat (be32_at bytes 25)
        in if length bytes \<noteq> 4 + 1 + 20 + 4 + n * 26 then None
           else Some (i, map (saved_contact now) (chunks 26 (drop 29 bytes))))"

definition load :: "int \<Rightarrow> ('p \<Rightarrow> bytes option) \<Rightarrow> 'p \<Rightarrow> (node_id \<times> contact list) option" where
  "load now fs path = (case fs path of None \<Rightarrow> None | Some bytes \<Rightarrow> load_bytes now bytes)"

fun save_loop :: "contact list \<Rightarrow> u32 \<Rightarrow> bytes \<Rightarrow> u32 \<times> bytes" where
  "save_loop [] v4_contacts payload = (v4_contacts, payload)"
| "save_loop (c # contacts) v4_contacts payload =
     (case ct_addr c of
        SocketAddr (V4 x y z w) port \<Rightarrow> save_loop contacts (v4_contacts + 1) (payload @ ct_id c @ [x, y, z, w] @ be16 port)
      | SocketAddr (V6 _) _ \<Rightarrow> save_loop contacts v4_contacts payload)"

definition save_bytes :: "node_id \<Rightarrow> routing_table \<Rightarrow> bytes" where
  "save_bytes i table =
     (let contacts = closest table i (rt_len table);
          (v4_contacts, payload) = save_loop contacts 0 []
      in MAGIC @ [VERSION] @ i @ be32 v4_contacts @ payload)"

text \<open>
  \<open>save\<close> writes a temporary file and renames it. The write may stop after some bytes (\<open>write_fails = Some n\<close>).
\<close>

definition save ::
  "bool \<Rightarrow> nat option \<Rightarrow> bool \<Rightarrow> 'p \<Rightarrow> 'p \<Rightarrow> ('p \<Rightarrow> bytes option) \<Rightarrow> node_id \<Rightarrow> routing_table \<Rightarrow> bool \<times> ('p \<Rightarrow> bytes option)" where
  "save dir_ok write_fails rename_ok path tmp fs i table =
     (if \<not> dir_ok then (False, fs)
      else
        let out = save_bytes i table in
        case write_fails of
          Some n \<Rightarrow> (False, fs(tmp := Some (take n out)))
        | None \<Rightarrow>
            let fs = fs(tmp := Some out) in
            if rename_ok then (True, fs(path := Some out, tmp := None)) else (False, fs))"

section \<open>Starting the node\<close>

definition dialable_warm_contacts :: "contact list \<Rightarrow> bool \<Rightarrow> contact list" where
  "dialable_warm_contacts contacts strict = filter (\<lambda>c. is_dialable_peer_addr (ct_addr c) strict) contacts"

definition dht_spawn :: "int \<Rightarrow> node_id \<Rightarrow> bytes \<Rightarrow> bytes \<Rightarrow> (node_id \<times> contact list) option \<Rightarrow> bool \<Rightarrow> shared_state" where
  "dht_spawn now random_id current previous loaded strict =
     (let (node_id, warm_contacts) =
            (case loaded of Some (i, c) \<Rightarrow> (Some i, dialable_warm_contacts c strict) | None \<Rightarrow> (None, []))
      in dht_start now current previous (case node_id of Some i \<Rightarrow> i | None \<Rightarrow> random_id) warm_contacts strict)"

section \<open>Round trip\<close>

fun is_v4 :: "socket_addr \<Rightarrow> bool" where
  "is_v4 (SocketAddr (V4 _ _ _ _) _) = True"
| "is_v4 (SocketAddr (V6 _) _) = False"

lemma save_loop_eq:
  "save_loop cs n p = (n + of_nat (length (filter (\<lambda>c. is_v4 (ct_addr c)) cs)), p @ nodes_to_bytes cs)"
proof (induction cs n p rule: save_loop.induct)
  case (2 c cs n p)
  then show ?case by (cases "ct_addr c" rule: is_v4.cases) (auto simp: algebra_simps)
qed simp

lemma nodes_to_bytes_length:
  "list_all (\<lambda>c. length (ct_id c) = 20) cs \<Longrightarrow> length (nodes_to_bytes cs) = 26 * length (filter (\<lambda>c. is_v4 (ct_addr c)) cs)"
proof (induction cs)
  case (Cons c cs)
  then show ?case by (cases "ct_addr c" rule: is_v4.cases) auto
qed simp

lemma saved_chunks:
  "list_all (\<lambda>c. length (ct_id c) = 20) cs \<Longrightarrow>
   map (saved_contact now) (chunks 26 (nodes_to_bytes cs)) = map (\<lambda>c. c\<lparr>ct_last_seen := now\<rparr>) (filter (\<lambda>c. is_v4 (ct_addr c)) cs)"
proof (induction cs)
  case (Cons c cs)
  have IH: "map (saved_contact now) (chunks 26 (nodes_to_bytes cs)) = map (\<lambda>c. c\<lparr>ct_last_seen := now\<rparr>) (filter (\<lambda>c. is_v4 (ct_addr c)) cs)"
    using Cons by simp
  show ?case
  proof (cases "ct_addr c" rule: is_v4.cases)
    case (1 x y z w port)
    let ?e = "ct_id c @ [x, y, z, w] @ be16 port"
    have len: "length (ct_id c) = 20" using Cons.prems by simp
    have "nodes_to_bytes (c # cs) = ?e @ nodes_to_bytes cs" using 1 by simp
    then have "chunks 26 (nodes_to_bytes (c # cs)) = ?e # chunks 26 (nodes_to_bytes cs)"
      using chunks_append [of ?e 26 "nodes_to_bytes cs"] len by (simp del: nodes_to_bytes.simps)
    moreover have "saved_contact now ?e = c\<lparr>ct_last_seen := now\<rparr>"
      using len 1 by (simp add: saved_contact_def contact_new_def nth_append be16_at_append be16_at_def be16_def)
    ultimately show ?thesis using IH 1 by (simp del: nodes_to_bytes.simps)
  next
    case (2 segs port)
    then show ?thesis using IH by simp
  qed
qed simp

lemma rt_len_bound: "rt_ok rt \<Longrightarrow> rt_len rt \<le> 1280"
proof -
  assume ok: "rt_ok rt"
  have "sum_list (map length bs) \<le> length bs * 8" if "\<forall>b \<in> set bs. length b \<le> 8" for bs :: "kbucket list"
    using that by (induction bs) auto
  moreover have "\<forall>b \<in> set (rt_buckets rt). length b \<le> 8" using ok by (auto simp: rt_ok_def bucket_ok_def K_def in_set_conv_nth)
  ultimately have "rt_len rt \<le> length (rt_buckets rt) * 8" unfolding rt_len_def by blast
  then show "rt_len rt \<le> 1280" using ok by (simp add: rt_ok_def)
qed

lemma load_save:
  assumes ok: "rt_ok rt" and me: "rt_local_id rt = me"
  shows "load_bytes now (save_bytes me rt) =
    Some (me, map (\<lambda>c. c\<lparr>ct_last_seen := now\<rparr>) (filter (\<lambda>c. is_v4 (ct_addr c)) (closest rt me (rt_len rt))))"
proof -
  let ?cs = "closest rt me (rt_len rt)"
  let ?n = "length (filter (\<lambda>c. is_v4 (ct_addr c)) ?cs)"
  have len: "length me = 20" using ok me by (auto simp: rt_ok_def)
  have sub: "set ?cs \<subseteq> set (rt_contacts rt)" and l: "length ?cs = rt_len rt" using closest_spec [OF ok len, of "rt_len rt"] by auto
  have ids: "list_all (\<lambda>c. length (ct_id c) = 20) ?cs" using sub rt_ok_id [OF ok] by (auto simp: list_all_iff)
  have "?n \<le> rt_len rt" using length_filter_le [of "\<lambda>c. is_v4 (ct_addr c)" ?cs] unfolding l by simp
  then have n: "unat (of_nat ?n :: u32) = ?n" using rt_len_bound [OF ok] by (simp add: unat_of_nat)
  let ?out = "MAGIC @ [VERSION] @ me @ be32 (of_nat ?n) @ nodes_to_bytes ?cs"
  have out: "save_bytes me rt = ?out" by (simp add: save_bytes_def save_loop_eq Let_def)
  have m: "length MAGIC = 4" by (simp add: MAGIC_def)
  have "be32_at ?out 25 = of_nat ?n"
    using be32_at_append [of "MAGIC @ [VERSION] @ me" 25 "be32 (of_nat ?n) @ nodes_to_bytes ?cs" 0] len m by simp
  moreover have "drop 29 ?out = nodes_to_bytes ?cs" "take 20 (drop 5 ?out) = me" "take 4 ?out = MAGIC" "?out ! 4 = VERSION"
    using len m by (simp_all add: nth_append)
  moreover have "length ?out = 29 + ?n * 26" using len m nodes_to_bytes_length [OF ids] by simp
  ultimately show ?thesis using n saved_chunks [OF ids, of now] unfolding out load_bytes_def by (simp del: append.simps)
qed

text \<open>Contacts that fit into an empty table: inserting them keeps all of them.\<close>

definition in_bucket :: "node_id \<Rightarrow> nat \<Rightarrow> contact \<Rightarrow> bool" where
  "in_bucket me i c \<longleftrightarrow> bucket_index me (ct_id c) = Some i"

definition fits :: "node_id \<Rightarrow> contact list \<Rightarrow> bool" where
  "fits me cs \<longleftrightarrow> distinct (map ct_id cs) \<and> (\<forall>c \<in> set cs. length (ct_id c) = 20 \<and> ct_id c \<noteq> me) \<and>
     (\<forall>i. length (filter (in_bucket me i) cs) \<le> K)"

lemma restore_buckets:
  assumes "length me = 20"
  shows "fits me cs \<Longrightarrow> rt = foldl (\<lambda>rt c. snd (rt_insert now rt c)) (rt_new me) cs \<Longrightarrow>
    rt_ok rt \<and> rt_local_id rt = me \<and> (\<forall>i < 160. rt_buckets rt ! i = filter (in_bucket me i) cs)"
proof (induction cs arbitrary: rt rule: rev_induct)
  case Nil
  then show ?case using rt_new_ok [OF assms] by (simp add: rt_new_def)
next
  case (snoc c cs)
  define r0 where "r0 = foldl (\<lambda>rt c. snd (rt_insert now rt c)) (rt_new me) cs"
  have fc: "fits me cs" using snoc.prems(1) by (auto simp: fits_def split: if_splits) (metis (lifting) Suc_leD)
  have "ct_id c \<notin> ct_id ` set cs" using snoc.prems(1) by (simp add: fits_def)
  then have c: "length (ct_id c) = 20" "ct_id c \<noteq> me" "\<forall>x \<in> set cs. ct_id x \<noteq> ct_id c"
    using snoc.prems(1) by (simp_all add: fits_def image_iff) metis
  have I: "rt_ok r0" "rt_local_id r0 = me" "\<forall>i < 160. rt_buckets r0 ! i = filter (in_bucket me i) cs" using snoc.IH [OF fc r0_def] by auto
  obtain i r b where i: "i < 160" "bucket_index (rt_local_id r0) (ct_id c) = Some i" "kbucket_insert now (rt_buckets r0 ! i) c = (r, b)"
    "rt_insert now r0 c = (r, r0\<lparr>rt_buckets := (rt_buckets r0)[i := b]\<rparr>)"
    using rt_insert_bucket [OF I(1) c(1), of now] c(2) I(2) by metis
  have ib: "in_bucket me j c \<longleftrightarrow> j = i" for j using i(2) I(2) by (auto simp: in_bucket_def)
  have "length (filter (in_bucket me i) (cs @ [c])) \<le> K" using snoc.prems(1) by (simp only: fits_def)
  then have room: "length (rt_buckets r0 ! i) < K" using I(3) i(1) ib by simp
  have "ct_id x \<noteq> ct_id c" if "x \<in> set (rt_buckets r0 ! i)" for x using that I(3) i(1) c(3) by auto
  then have pos: "position (\<lambda>x. ct_id x = ct_id c) (rt_buckets r0 ! i) = None" by simp
  have "b = rt_buckets r0 ! i @ [c]" using i(3) room unfolding kbucket_insert_def pos by simp
  then have b: "b = filter (in_bucket me i) (cs @ [c])" using i(1) I(3) ib by simp
  have rt: "rt = r0\<lparr>rt_buckets := (rt_buckets r0)[i := b]\<rparr>" using snoc.prems(2) i(4) by (simp add: r0_def)
  have "rt_ok rt \<and> rt_local_id rt = me" using rt_insert_ok [OF I(1) c(1) i(4)] I(2) rt by simp
  moreover have "rt_buckets rt ! j = filter (in_bucket me j) (cs @ [c])" if "j < 160" for j
    using that I b ib i(1) by (cases "j = i") (auto simp: rt rt_ok_def)
  ultimately show ?case by blast
qed

lemma length_subset: "set xs \<subseteq> set ys \<Longrightarrow> distinct xs \<Longrightarrow> length xs \<le> length ys"
  using card_mono [of "set ys" "set xs"] card_length [of ys] by (simp add: distinct_card)

lemma contact_bucket:
  assumes ok: "rt_ok rt" and c: "c \<in> set (rt_contacts rt)" and i: "in_bucket (rt_local_id rt) i c"
  shows "i < 160 \<and> c \<in> set (rt_buckets rt ! i)"
proof -
  have "length (rt_buckets rt) = 160" using ok by (simp add: rt_ok_def)
  from rt_contacts_bucket [OF this] c obtain j where j: "j < 160" "c \<in> set (rt_buckets rt ! j)" by blast
  have "j = i" using rt_ok_contact [OF ok j] i by (simp add: in_bucket_def)
  then show ?thesis using j by simp
qed

lemma fits_subset:
  assumes ok: "rt_ok rt" and cs: "set cs \<subseteq> set (rt_contacts rt)" and d: "distinct (map ct_id cs)"
  shows "fits (rt_local_id rt) cs"
proof -
  have "length (filter (in_bucket (rt_local_id rt) i) cs) \<le> K" for i
  proof (cases "i < 160")
    case True
    have "set (filter (in_bucket (rt_local_id rt) i) cs) \<subseteq> set (rt_buckets rt ! i)" using contact_bucket [OF ok] cs by auto
    moreover have "distinct (filter (in_bucket (rt_local_id rt) i) cs)" using d by (simp add: distinct_map)
    ultimately have "length (filter (in_bucket (rt_local_id rt) i) cs) \<le> length (rt_buckets rt ! i)" by (rule length_subset)
    moreover have "length (rt_buckets rt ! i) \<le> K" using ok True unfolding rt_ok_def bucket_ok_def by blast
    ultimately show ?thesis by linarith
  next
    case False
    then have "filter (in_bucket (rt_local_id rt) i) cs = []" using contact_bucket [OF ok] cs unfolding filter_empty_conv by blast
    then show ?thesis by simp
  qed
  moreover have "length (ct_id c) = 20 \<and> ct_id c \<noteq> rt_local_id rt" if c: "c \<in> set cs" for c
  proof -
    have "c \<in> set (rt_contacts rt)" using cs c by blast
    then show ?thesis using rt_ok_id [OF ok] rt_distinct(2) [OF ok] by (metis image_eqI)
  qed
  ultimately show ?thesis unfolding fits_def using d by blast
qed

section \<open>Across a restart\<close>

lemma save_atomic:
  assumes "path \<noteq> tmp" "save dir_ok w rn path tmp fs i table = (r, fs')"
  shows "fs' path = (if r then Some (save_bytes i table) else fs path)"
  using assms by (auto simp: save_def Let_def split: if_splits option.splits)

definition seen_at :: "int \<Rightarrow> contact \<Rightarrow> contact" where
  "seen_at now c = c\<lparr>ct_last_seen := now\<rparr>"

lemma seen_at_simps [simp]: "ct_id (seen_at now c) = ct_id c" "ct_addr (seen_at now c) = ct_addr c"
  by (simp_all add: seen_at_def)

lemma in_bucket_seen [simp]: "in_bucket me i (seen_at now c) = in_bucket me i c"
  by (simp add: in_bucket_def)

lemma fits_seen: "fits me cs \<Longrightarrow> fits me (map (seen_at now) cs)"
  by (simp add: fits_def o_def filter_map)

lemma restored_contacts:
  assumes ok: "rt_ok rt" and cs: "set cs \<subseteq> set (rt_contacts rt)" and d: "distinct (map ct_id cs)"
  shows "set (rt_contacts (ss_routing (dht_start now cur prev (rt_local_id rt) (map (seen_at now) cs) strict))) = seen_at now ` set cs"
proof -
  let ?me = "rt_local_id rt" and ?cs = "map (seen_at now) cs"
  have len: "length ?me = 20" using ok by (simp add: rt_ok_def)
  have f: "fits ?me ?cs" by (rule fits_seen [OF fits_subset [OF ok cs d]])
  define r where "r = foldl (\<lambda>rt c. snd (rt_insert now rt c)) (rt_new ?me) ?cs"
  have R: "rt_ok r" "\<forall>i < 160. rt_buckets r ! i = filter (in_bucket ?me i) ?cs" using restore_buckets [OF len f r_def] by auto
  have "ss_routing (dht_start now cur prev ?me ?cs strict) = r"
    by (simp add: r_def dht_start_def insert_contacts_def shared_state_new_def)
  moreover have "c \<in> set (rt_contacts r) \<longleftrightarrow> c \<in> set ?cs" for c
  proof -
    have "\<exists>i < 160. in_bucket ?me i c" if "c \<in> set ?cs"
    proof -
      have "length (ct_id c) = 20" "ct_id c \<noteq> ?me" using f that by (auto simp: fits_def)
      then obtain i where "bucket_index ?me (ct_id c) = Some i" using bucket_index_None [of ?me "ct_id c"] len by (cases "bucket_index ?me (ct_id c)") auto
      then show ?thesis using bucket_index_log [OF len \<open>length (ct_id c) = 20\<close>] by (auto simp: in_bucket_def)
    qed
    then show ?thesis using R rt_contacts_bucket [of r c] by (auto simp: rt_ok_def)
  qed
  ultimately show ?thesis by auto
qed

text \<open>
  C28: a restart keeps what can be kept. After a successful save, and whatever is left of later saves that failed
  part way, loading gives back our node identifier and exactly the IPv4 contacts of the table, and the table of the
  node started from them holds exactly those with a dialable address, none lost to a full bucket.
\<close>

theorem restart_keeps_contacts:
  assumes "rt_ok rt" "path \<noteq> tmp" "save True None True path tmp fs (rt_local_id rt) rt = (r, fs1)"
    "save d w n path tmp fs1 i' rt' = (False, fs2)"
  defines "kept \<equiv> {c \<in> set (rt_contacts rt). is_v4 (ct_addr c)}"
  shows "\<exists>cs. load now fs2 path = Some (rt_local_id rt, cs) \<and> set cs = seen_at now ` kept \<and> distinct (map ct_id cs) \<and>
    set (rt_contacts (ss_routing (dht_spawn now any cur prev (load now fs2 path) strict))) =
      seen_at now ` {c \<in> kept. is_dialable_peer_addr (ct_addr c) strict}"
proof -
  let ?me = "rt_local_id rt"
  let ?v4 = "filter (\<lambda>c. is_v4 (ct_addr c)) (closest rt ?me (rt_len rt))"
  have len: "length ?me = 20" using assms(1) by (simp add: rt_ok_def)
  have "r" using assms(3) by (auto simp: save_def Let_def)
  then have "fs2 path = Some (save_bytes ?me rt)" using save_atomic [OF assms(2,3)] save_atomic [OF assms(2,4)] by simp
  then have load: "load now fs2 path = Some (?me, map (seen_at now) ?v4)"
    using load_save [OF assms(1) refl, of now] by (simp add: load_def seen_at_def [abs_def])
  have C: "set (closest rt ?me (rt_len rt)) = set (rt_contacts rt)"
    by (simp add: closest_def rt_contacts_def rt_len_def length_concat [symmetric])
  then have v4: "set ?v4 = kept" by (auto simp: kept_def)
  have "distinct (map ct_id (closest rt ?me (rt_len rt)))"
    using rt_distinct(1) [OF assms(1)] by (simp add: closest_def distinct_map rt_contacts_def rt_len_def length_concat [symmetric])
  then have d: "distinct (map ct_id ?v4)" by (rule distinct_map_filter)
  let ?w = "filter (\<lambda>c. is_dialable_peer_addr (ct_addr c) strict) ?v4"
  have "dialable_warm_contacts (map (seen_at now) ?v4) strict = map (seen_at now) ?w"
    by (simp add: dialable_warm_contacts_def filter_map o_def)
  then have "dht_spawn now any cur prev (load now fs2 path) strict = dht_start now cur prev ?me (map (seen_at now) ?w) strict"
    by (simp add: dht_spawn_def load)
  moreover have "set ?w \<subseteq> set (rt_contacts rt)" using C by auto
  ultimately have "set (rt_contacts (ss_routing (dht_spawn now any cur prev (load now fs2 path) strict))) = seen_at now ` set ?w"
    using restored_contacts [OF assms(1) _ distinct_map_filter [OF d]] by simp
  then show ?thesis using load v4 d by (intro exI [of _ "map (seen_at now) ?v4"]) (auto simp: o_def)
qed

theorem restart_keeps_contacts_witness:
  "let rt = rt_run sample_me [(0, sample_contact 1)];
       fs1 = snd (save True None True (0 :: nat) 1 (\<lambda>_. None) sample_me rt);
       fs2 = snd (save True (Some 3) True 0 1 fs1 [] rt)
   in \<exists>cs. load 7 fs2 0 = Some (sample_me, cs) \<and> set cs = {seen_at 7 (sample_contact 1)}"
proof -
  let ?rt = "rt_run sample_me [(0, sample_contact 1)]"
  have ok: "rt_ok ?rt" "rt_local_id ?rt = sample_me"
    using rt_run_ok [of sample_me "[(0, sample_contact 1)]"] by (simp_all add: sample_me_def sample_contact_def)
  obtain r fs1 where s1: "save True None True (0 :: nat) 1 (\<lambda>_. None) (rt_local_id ?rt) ?rt = (r, fs1)" by fastforce
  obtain fs2 where s2: "save True (Some 3) True 0 1 fs1 [] ?rt = (False, fs2)" by (auto simp: save_def Let_def)
  have "rt_contacts ?rt = [sample_contact 1]" by code_simp
  moreover have "is_v4 (ct_addr (sample_contact 1))" by (simp add: sample_contact_def)
  ultimately have "{c \<in> set (rt_contacts ?rt). is_v4 (ct_addr c)} = {sample_contact 1}" by auto
  then show ?thesis using restart_keeps_contacts [OF ok(1) _ s1 s2, of 7] s1 s2 ok(2) by (simp add: Let_def) blast
qed

end
