(* ===== verification/RT_Rc4.thy ===== *)
theory RT_Rc4
  imports RT_Stream "HOL-Library.Multiset"
begin

text \<open>
  RC4, \<open>src/src/peer/mse/rc4.rs\<close>, and the stream wrappers that encrypt and decrypt with it,
  \<open>src/src/peer/mse/stream.rs\<close>.
\<close>

section \<open>The cipher\<close>

record rc4 =
  rc_s :: "u8 list"
  rc_i :: u8
  rc_j :: u8

text \<open>\<open>slice::swap\<close>.\<close>

definition swap :: "'a list \<Rightarrow> nat \<Rightarrow> nat \<Rightarrow> 'a list" where
  "swap xs i j = xs[i := xs ! j, j := xs ! i]"

definition rc4_schedule :: "bytes \<Rightarrow> u8 list \<times> u8 \<Rightarrow> nat \<Rightarrow> u8 list \<times> u8" where
  "rc4_schedule key = (\<lambda>(s, j) i.
     let j = j + s ! i + key ! (i mod length key) in (swap s i (unat j), j))"

text \<open>The result is None where the assertion on the key fails.\<close>

definition rc4_new :: "bytes \<Rightarrow> rc4 option" where
  "rc4_new key =
     (if key = [] then None
      else Some \<lparr>rc_s = fst (foldl (rc4_schedule key) (map of_nat [0..<256], 0) [0..<256]), rc_i = 0, rc_j = 0\<rparr>)"

definition rc4_byte :: "rc4 \<Rightarrow> u8 \<times> rc4" where
  "rc4_byte c =
     (let i = rc_i c + 1;
          j = rc_j c + rc_s c ! unat i;
          s = swap (rc_s c) (unat i) (unat j);
          k = s ! unat (s ! unat i + s ! unat j)
      in (k, \<lparr>rc_s = s, rc_i = i, rc_j = j\<rparr>))"

fun rc4_process :: "rc4 \<Rightarrow> bytes \<Rightarrow> bytes \<times> rc4" where
  "rc4_process c [] = ([], c)"
| "rc4_process c (b # bs) =
     (let (k, c) = rc4_byte c; (out, c) = rc4_process c bs in ((b XOR k) # out, c))"

definition rc4_skip :: "rc4 \<Rightarrow> nat \<Rightarrow> rc4" where
  "rc4_skip c n = snd (rc4_process c (replicate n 0))"

section \<open>The cipher's state\<close>

definition rc4_ok :: "rc4 \<Rightarrow> bool" where
  "rc4_ok c \<longleftrightarrow> mset (rc_s c) = mset (map of_nat [0..<256])"

lemma length_swap [simp]: "length (swap xs i j) = length xs"
  by (simp add: swap_def)

lemma mset_swap_list: "i < length xs \<Longrightarrow> j < length xs \<Longrightarrow> mset (swap xs i j) = mset xs"
  by (simp add: swap_def mset_swap)

lemma rc4_ok_length: "rc4_ok c \<Longrightarrow> length (rc_s c) = 256"
  unfolding rc4_ok_def by (drule arg_cong [of _ _ size]) simp

lemma rc4_byte_ok: "rc4_ok c \<Longrightarrow> rc4_ok (snd (rc4_byte c))"
  using rc4_ok_length [of c] by (simp add: rc4_byte_def rc4_ok_def Let_def mset_swap_list octet_less)

lemma rc4_process_ok: "rc4_ok c \<Longrightarrow> rc4_ok (snd (rc4_process c bs))"
proof (induction bs arbitrary: c)
  case (Cons b bs)
  then show ?case using rc4_byte_ok [of c] by (simp add: case_prod_beta Let_def)
qed simp

lemma rc4_new_ok:
  assumes "rc4_new key = Some c"
  shows "rc4_ok c"
proof -
  have "mset (fst (foldl (rc4_schedule key) (s, j) is)) = mset s" if "length s = 256" "\<forall>i \<in> set is. i < 256" for s j "is"
    using that
  proof (induction "is" arbitrary: s j)
    case (Cons i "is")
    obtain s' j' where st: "rc4_schedule key (s, j) i = (s', j')" by fastforce
    have "mset s' = mset s" "length s' = 256"
      using st Cons.prems by (auto simp: rc4_schedule_def Let_def mset_swap_list octet_less)
    then show ?case using Cons.IH [of s' j'] Cons.prems st by simp
  qed simp
  from this [of "map of_nat [0..<256]" "[0..<256]" 0] show ?thesis
    using assms by (auto simp: rc4_new_def rc4_ok_def split: if_splits)
qed

section \<open>Encryption and decryption\<close>

lemma rc4_process_length [simp]: "length (fst (rc4_process c bs)) = length bs"
  by (induction bs arbitrary: c) (simp_all add: case_prod_beta Let_def)

lemma rc4_process_append:
  "rc4_process c (xs @ ys) =
     (fst (rc4_process c xs) @ fst (rc4_process (snd (rc4_process c xs)) ys), snd (rc4_process (snd (rc4_process c xs)) ys))"
  by (induction xs arbitrary: c) (simp_all add: case_prod_beta Let_def)

text \<open>The state after \<open>n\<close> bytes depends on their number only.\<close>

lemma rc4_process_state: "snd (rc4_process c bs) = rc4_skip c (length bs)"
  unfolding rc4_skip_def by (induction bs arbitrary: c) (simp_all add: case_prod_beta Let_def)

lemma rc4_skip_add: "rc4_skip (rc4_skip c m) n = rc4_skip c (m + n)"
  by (simp add: rc4_skip_def replicate_add rc4_process_append)

lemma rc4_involution [simp]: "fst (rc4_process c (fst (rc4_process c bs))) = bs"
  by (induction bs arbitrary: c) (simp_all add: case_prod_beta Let_def xor.assoc)

lemma rc4_process_take: "fst (rc4_process c (take n bs)) = take n (fst (rc4_process c bs))"
proof -
  have "rc4_process c bs = rc4_process c (take n bs @ drop n bs)" by simp
  then show ?thesis unfolding rc4_process_append by (cases "n \<le> length bs") simp_all
qed

section \<open>Encrypting streams\<close>

text \<open>
  \<open>poll_write\<close> of the inner writer may accept some of the bytes, be pending, or fail; \<open>Rc4Writer\<close> and
  \<open>EncryptedStream\<close> treat it alike.
\<close>

datatype poll_io = Ready nat | Pending | Failed

definition enc_poll_write :: "rc4 \<Rightarrow> bytes \<Rightarrow> (bytes \<Rightarrow> poll_io) \<Rightarrow> poll_io \<times> rc4" where
  "enc_poll_write write_cipher buf inner =
     (let (encrypted, cipher) = rc4_process write_cipher buf in
      case inner encrypted of
        Ready n \<Rightarrow>
          if n = length encrypted then (Ready n, cipher) else (Ready n, rc4_skip write_cipher n)
      | other \<Rightarrow> (other, write_cipher))"

text \<open>
  \<open>poll_read\<close>: the bytes the inner reader deposits beyond the already filled ones are decrypted; a pending or failed
  read deposits nothing.
\<close>

definition enc_poll_read :: "rc4 \<Rightarrow> bytes \<Rightarrow> bytes option \<Rightarrow> bytes \<times> rc4" where
  "enc_poll_read read_cipher filled inner =
     (case inner of
        Some new \<Rightarrow> if new \<noteq> [] then let (plain, c) = rc4_process read_cipher new in (filled @ plain, c) else (filled, read_cipher)
      | None \<Rightarrow> (filled, read_cipher))"

text \<open>
  A task writing \<open>data\<close> retries with what is left after every poll; the inner writer's answers are given, and
  what it accepts goes on the wire.
\<close>

fun write_polls :: "rc4 \<Rightarrow> bytes \<Rightarrow> poll_io list \<Rightarrow> bytes \<Rightarrow> bytes \<times> bytes \<times> rc4" where
  "write_polls c data [] wire = (wire, data, c)"
| "write_polls c data (p # ps) wire =
     (let (r, c') = enc_poll_write c data (\<lambda>_. p) in
      case r of
        Ready n \<Rightarrow> write_polls c' (drop n data) ps (wire @ take n (fst (rc4_process c data)))
      | Pending \<Rightarrow> write_polls c' data ps wire
      | Failed \<Rightarrow> (wire, data, c'))"

fun read_polls :: "rc4 \<Rightarrow> bytes option list \<Rightarrow> bytes \<Rightarrow> bytes \<times> rc4" where
  "read_polls c [] filled = (filled, c)"
| "read_polls c (p # ps) filled = (let (filled, c) = enc_poll_read c filled p in read_polls c ps filled)"

definition deposited :: "bytes option list \<Rightarrow> bytes" where
  "deposited ps = concat (map (\<lambda>p. case p of Some b \<Rightarrow> b | None \<Rightarrow> []) ps)"

text \<open>An \<open>AsyncWrite\<close> never reports more bytes than it was given.\<close>

fun accepts_within :: "nat \<Rightarrow> poll_io list \<Rightarrow> bool" where
  "accepts_within left [] = True"
| "accepts_within left (Ready n # ps) = (n \<le> left \<and> accepts_within (left - n) ps)"
| "accepts_within left (Pending # ps) = accepts_within left ps"
| "accepts_within left (Failed # ps) = True"

lemma enc_poll_write_Ready:
  "n \<le> length data \<Longrightarrow> enc_poll_write c data (\<lambda>_. Ready n) = (Ready n, rc4_skip c n)"
  using rc4_process_state [of c data] by (auto simp: enc_poll_write_def Let_def case_prod_beta)

lemma write_polls_spec:
  "write_polls c data ps wire = (wire', rest, c') \<Longrightarrow> accepts_within (length data) ps \<Longrightarrow>
   \<exists>sent. data = sent @ rest \<and> wire' = wire @ fst (rc4_process c sent) \<and> c' = snd (rc4_process c sent)"
proof (induction ps arbitrary: c data wire)
  case (Cons p ps)
  show ?case
  proof (cases p)
    case (Ready n)
    let ?d = "take n data" and ?c = "rc4_skip c n"
    have n: "n \<le> length data" "accepts_within (length (drop n data)) ps" using Cons.prems(2) Ready by auto
    have "write_polls ?c (drop n data) ps (wire @ take n (fst (rc4_process c data))) = (wire', rest, c')"
      using Cons.prems(1) Ready enc_poll_write_Ready [OF n(1)] by simp
    from Cons.IH [OF this n(2)] obtain sent where
      s: "drop n data = sent @ rest" "wire' = wire @ take n (fst (rc4_process c data)) @ fst (rc4_process ?c sent)"
        "c' = snd (rc4_process ?c sent)" by auto
    have "snd (rc4_process c ?d) = ?c" using n(1) by (simp add: rc4_process_state)
    then have "wire' = wire @ fst (rc4_process c (?d @ sent))" "c' = snd (rc4_process c (?d @ sent))"
      using s(2,3) by (simp_all add: rc4_process_append rc4_process_take)
    moreover have "data = (?d @ sent) @ rest" using s(1) by (metis append.assoc append_take_drop_id)
    ultimately show ?thesis by blast
  next
    case Pending
    then show ?thesis using Cons by (simp add: enc_poll_write_def Let_def case_prod_beta)
  next
    case Failed
    then show ?thesis using Cons.prems by (auto simp: enc_poll_write_def Let_def case_prod_beta intro!: exI [of _ "[]"])
  qed
qed simp

lemma read_polls_spec:
  "read_polls c ps filled = (filled @ fst (rc4_process c (deposited ps)), snd (rc4_process c (deposited ps)))"
proof (induction ps arbitrary: c filled)
  case (Cons p ps)
  have "enc_poll_read c filled p = (filled @ fst (rc4_process c (deposited [p])), snd (rc4_process c (deposited [p])))"
    by (auto simp: enc_poll_read_def deposited_def Let_def case_prod_beta split: option.splits)
  moreover have "deposited (p # ps) = deposited [p] @ deposited ps" by (simp add: deposited_def)
  ultimately show ?case using Cons by (simp add: rc4_process_append)
qed (simp add: deposited_def)


definition sample_rc4 :: rc4 where
  "sample_rc4 = the (rc4_new [1, 2, 3, 4, 5])"


end
