(* ===== verification/RT_Mse.thy ===== *)
theory RT_Mse
  imports RT_Rc4
begin

text \<open>
  The message stream encryption handshake: \<open>src/src/peer/mse/mod.rs\<close>, \<open>dh.rs\<close> and \<open>handshake.rs\<close>. SHA-1 and the
  modular exponentiation of the big-integer library are arguments, as are the random bytes: the entropy of the
  private key and the four paddings. A \<open>BigUint\<close> is a natural number. A failed assertion is the error \<open>MsePanic\<close>.
\<close>

section \<open>Diffie-Hellman\<close>

definition DH_P :: nat where
  "DH_P = 0xFFFFFFFFFFFFFFFFC90FDAA22168C234C4C6628B80DC1CD129024E088A67CC74020BBEA63B139B22514A08798E3404DDEF9519B3CD3A431B302B0A6DF25F14374FE1356D6D51C245E485B576625E7EC6F44C42E9A63A36210000000000090563"

definition DH_G :: nat where "DH_G = 2"
definition KEY_LEN :: nat where "KEY_LEN = 96"

type_synonym modpow = "nat \<Rightarrow> nat \<Rightarrow> nat \<Rightarrow> nat"

record keypair =
  kp_private :: nat
  kp_public :: nat

text \<open>\<open>entropy\<close> stands for the 20 random bytes.\<close>

definition keypair_generate :: "modpow \<Rightarrow> bytes \<Rightarrow> keypair" where
  "keypair_generate modpow entropy =
     (let bytes = entropy[0 := entropy ! 0 OR 0x80];
          private = be_nat bytes
      in \<lparr>kp_private = private, kp_public = modpow DH_G private DH_P\<rparr>)"

definition shared_secret :: "modpow \<Rightarrow> keypair \<Rightarrow> nat \<Rightarrow> nat" where
  "shared_secret modpow kp peer_public = modpow peer_public (kp_private kp) DH_P"

definition dh_to_bytes :: "nat \<Rightarrow> bytes option" where
  "dh_to_bytes n = (if n < 256 ^ KEY_LEN then Some (map (\<lambda>k. of_nat (n div 256 ^ (KEY_LEN - 1 - k))) [0..<KEY_LEN]) else None)"

definition dh_from_bytes :: "bytes \<Rightarrow> nat" where
  "dh_from_bytes bs = be_nat bs"

definition validate_peer_public :: "nat \<Rightarrow> string + unit" where
  "validate_peer_public y =
     (if y \<le> 1 then Inl ''peer public key <= 1''
      else if y \<ge> DH_P - 1 then Inl ''peer public key >= p-1''
      else Inr ())"

section \<open>The handshake\<close>

datatype mse_error = MseIo | MseHandshake string | NoCommonCrypto | UnknownSkey | MsePanic

type_synonym 'a mse = "(stream, mse_error, 'a) estep"

definition PAD_MAX :: nat where "PAD_MAX = 512"
definition SYNC_SEARCH_LIMIT :: nat where "SYNC_SEARCH_LIMIT = PAD_MAX + 20"
definition CRYPTO_PLAINTEXT :: u32 where "CRYPTO_PLAINTEXT = 1"
definition CRYPTO_RC4 :: u32 where "CRYPTO_RC4 = 2"
definition VC :: bytes where "VC = replicate 8 0"

definition sha1_concat :: "(bytes \<Rightarrow> bytes) \<Rightarrow> bytes list \<Rightarrow> bytes" where
  "sha1_concat sha1 parts = sha1 (concat parts)"

definition crypto_provide_bytes :: bytes where
  "crypto_provide_bytes = be32 (CRYPTO_PLAINTEXT OR CRYPTO_RC4)"

definition mse_assert :: "'a option \<Rightarrow> 'a mse" where
  "mse_assert x = io_lift (case x of Some y \<Rightarrow> Inr y | None \<Rightarrow> Inl MsePanic)"

definition derive_rc4 :: "(bytes \<Rightarrow> bytes) \<Rightarrow> string \<Rightarrow> bytes \<Rightarrow> bytes \<Rightarrow> rc4 option" where
  "derive_rc4 sha1 label s skey = map_option (\<lambda>c. rc4_skip c 1024) (rc4_new (sha1_concat sha1 [ascii label, s, skey]))"

definition xor_bytes :: "bytes \<Rightarrow> bytes \<Rightarrow> bytes" where
  "xor_bytes a b = map (\<lambda>(x, y). x XOR y) (zip a b)"

text \<open>The search loops of \<open>sync_on_encrypted_vc\<close> and \<open>sync_on_pattern\<close>: a sliding window over the input.\<close>

fun sync_loop :: "mse_error \<Rightarrow> nat \<Rightarrow> bytes \<Rightarrow> bytes \<Rightarrow> unit mse" where
  "sync_loop e 0 needle window = io_fail e"
| "sync_loop e (Suc n) needle window =
     io_bind (read_exact MseIo 1) (\<lambda>byte.
       let window = window @ byte;
           window = (if length window > length needle then tl window else window)
       in if length window = length needle \<and> window = needle then io_return ()
          else sync_loop e n needle window)"

definition sync_on_encrypted_vc :: "rc4 \<Rightarrow> rc4 mse" where
  "sync_on_encrypted_vc in_cipher =
     (let (needle, probe) = rc4_process in_cipher (replicate 8 0) in
      io_bind (sync_loop (MseHandshake ''could not sync on encrypted VC'') (SYNC_SEARCH_LIMIT + 8) needle []) (\<lambda>_. io_return probe))"

definition sync_on_pattern :: "bytes \<Rightarrow> unit mse" where
  "sync_on_pattern needle = sync_loop (MseHandshake ''could not sync on HASH(req1, S) within search limit'') SYNC_SEARCH_LIMIT needle []"

definition write_pad :: "bytes \<Rightarrow> unit mse" where
  "write_pad pad = (if pad \<noteq> [] then write_all MseIo pad else io_return ())"

definition read_pad :: "rc4 \<Rightarrow> nat \<Rightarrow> rc4 mse" where
  "read_pad cipher n =
     (if n > 0 then io_bind (read_exact MseIo n) (\<lambda>pad. io_return (snd (rc4_process cipher pad))) else io_return cipher)"

definition check_public :: "nat \<Rightarrow> unit mse" where
  "check_public y = io_lift (case validate_peer_public y of Inl why \<Rightarrow> Inl (MseHandshake ''bad peer DH key: '') | Inr u \<Rightarrow> Inr u)"

subsection \<open>The initiator\<close>

text \<open>Steps 1 and 2: exchanging public keys; the result is the shared secret.\<close>

definition outgoing_exchange :: "modpow \<Rightarrow> bytes \<Rightarrow> bytes \<Rightarrow> bytes mse" where
  "outgoing_exchange modpow entropy pad_a =
     (let kp = keypair_generate modpow entropy in
      io_bind (mse_assert (dh_to_bytes (kp_public kp))) (\<lambda>ya.
      io_bind (write_all MseIo ya) (\<lambda>_.
      io_bind (write_pad pad_a) (\<lambda>_.
      io_bind (read_exact MseIo KEY_LEN) (\<lambda>yb.
      let yb_big = dh_from_bytes yb in
      io_bind (check_public yb_big) (\<lambda>_.
      mse_assert (dh_to_bytes (shared_secret modpow kp yb_big))))))))"

definition req_hash :: "(bytes \<Rightarrow> bytes) \<Rightarrow> string \<Rightarrow> bytes \<Rightarrow> bytes" where
  "req_hash sha1 label x = sha1_concat sha1 [ascii label, x]"

definition offer_block :: "bytes \<Rightarrow> bytes" where
  "offer_block pad_c = VC @ crypto_provide_bytes @ be16 (of_nat (length pad_c)) @ pad_c @ be16 0"

text \<open>Step 3: naming the torrent and offering ciphers; the result is the ciphers for reading and writing.\<close>

definition outgoing_offer :: "(bytes \<Rightarrow> bytes) \<Rightarrow> bytes \<Rightarrow> bytes \<Rightarrow> bytes \<Rightarrow> (rc4 \<times> rc4) mse" where
  "outgoing_offer sha1 pad_c info_hash s =
     (let req1 = req_hash sha1 ''req1'' s;
          req2 = req_hash sha1 ''req2'' info_hash;
          req3 = req_hash sha1 ''req3'' s;
          req23 = xor_bytes req2 req3
      in
      io_bind (mse_assert (derive_rc4 sha1 ''keyA'' s info_hash)) (\<lambda>out_cipher.
      io_bind (mse_assert (derive_rc4 sha1 ''keyB'' s info_hash)) (\<lambda>in_cipher.
      let (encrypted_block, out_cipher) = rc4_process out_cipher (offer_block pad_c) in
      io_bind (write_all MseIo req1) (\<lambda>_.
      io_bind (write_all MseIo req23) (\<lambda>_.
      io_bind (write_all MseIo encrypted_block) (\<lambda>_.
      io_return (in_cipher, out_cipher)))))))"

text \<open>Step 4: the receiver's choice; the result is the reading cipher after it.\<close>

definition outgoing_finish :: "rc4 \<Rightarrow> rc4 mse" where
  "outgoing_finish in_cipher =
     io_bind (sync_on_encrypted_vc in_cipher) (\<lambda>in_cipher.
     io_bind (read_exact MseIo 6) (\<lambda>tail.
     let (tail, in_cipher) = rc4_process in_cipher tail;
         crypto_select = be32_at tail 0;
         pad_d_len = unat (be16_at tail 4)
     in
     if pad_d_len > PAD_MAX then io_fail (MseHandshake ''PadD length '')
     else
       io_bind (read_pad in_cipher pad_d_len) (\<lambda>in_cipher.
       if crypto_select AND CRYPTO_RC4 = 0 then io_fail NoCommonCrypto
       else io_return in_cipher)))"

text \<open>The result is the pair of ciphers of the encrypted stream, for reading and for writing.\<close>

definition mse_outgoing :: "modpow \<Rightarrow> (bytes \<Rightarrow> bytes) \<Rightarrow> bytes \<Rightarrow> bytes \<Rightarrow> bytes \<Rightarrow> bytes \<Rightarrow> (rc4 \<times> rc4) mse" where
  "mse_outgoing modpow sha1 entropy pad_a pad_c info_hash =
     io_bind (outgoing_exchange modpow entropy pad_a) (\<lambda>s.
     io_bind (outgoing_offer sha1 pad_c info_hash s) (\<lambda>(in_cipher, out_cipher).
     io_bind (outgoing_finish in_cipher) (\<lambda>in_cipher.
     io_return (in_cipher, out_cipher))))"

subsection \<open>The receiver\<close>

text \<open>Steps 1 and 2: exchanging public keys, starting with bytes the caller has already read.\<close>

definition incoming_exchange :: "modpow \<Rightarrow> bytes \<Rightarrow> bytes \<Rightarrow> bytes \<Rightarrow> bytes mse" where
  "incoming_exchange modpow entropy pad_b pre_read =
     (if length pre_read > KEY_LEN then io_fail (MseHandshake ''pre_read longer than Ya'')
      else
      io_bind (if length pre_read < KEY_LEN then read_exact MseIo (KEY_LEN - length pre_read) else io_return []) (\<lambda>more.
      let peer_pub = dh_from_bytes (pre_read @ more) in
      io_bind (check_public peer_pub) (\<lambda>_.
      let kp = keypair_generate modpow entropy in
      io_bind (mse_assert (dh_to_bytes (kp_public kp))) (\<lambda>yb.
      io_bind (write_all MseIo yb) (\<lambda>_.
      io_bind (write_pad pad_b) (\<lambda>_.
      mse_assert (dh_to_bytes (shared_secret modpow kp peer_pub))))))))"

definition match_skey :: "(bytes \<Rightarrow> bytes) \<Rightarrow> bytes list \<Rightarrow> bytes \<Rightarrow> bytes option" where
  "match_skey sha1 info_hashes x =
     foldl (\<lambda>matched ih. if req_hash sha1 ''req2'' ih = x then Some ih else matched) None info_hashes"

text \<open>Steps 3 and 4: finding the initiator's torrent.\<close>

definition incoming_skey :: "(bytes \<Rightarrow> bytes) \<Rightarrow> bytes list \<Rightarrow> bytes \<Rightarrow> bytes mse" where
  "incoming_skey sha1 info_hashes s =
     io_bind (sync_on_pattern (req_hash sha1 ''req1'' s)) (\<lambda>_.
     io_bind (read_exact MseIo 20) (\<lambda>req23.
     let req3 = req_hash sha1 ''req3'' s;
         req2_xor_req3 = xor_bytes req23 req3
     in
     case match_skey sha1 info_hashes req2_xor_req3 of
       None \<Rightarrow> io_fail UnknownSkey
     | Some matched \<Rightarrow> io_return matched))"

text \<open>Steps 5 and 6: reading the offer; the result is the ciphers for reading and writing and the offered algorithms.\<close>

definition incoming_offer :: "(bytes \<Rightarrow> bytes) \<Rightarrow> bytes \<Rightarrow> bytes \<Rightarrow> (rc4 \<times> rc4 \<times> u32) mse" where
  "incoming_offer sha1 s matched =
     io_bind (mse_assert (derive_rc4 sha1 ''keyA'' s matched)) (\<lambda>in_cipher.
     io_bind (mse_assert (derive_rc4 sha1 ''keyB'' s matched)) (\<lambda>out_cipher.
     io_bind (read_exact MseIo 14) (\<lambda>vc_and_header.
     let (vc_and_header, in_cipher) = rc4_process in_cipher vc_and_header in
     if take 8 vc_and_header \<noteq> VC then io_fail (MseHandshake ''VC mismatch after sync'')
     else
     let crypto_provide = be32_at vc_and_header 8;
         pad_c_len = unat (be16_at vc_and_header 12)
     in
     if pad_c_len > PAD_MAX then io_fail (MseHandshake ''PadC length '')
     else
     io_bind (read_pad in_cipher pad_c_len) (\<lambda>in_cipher.
     io_bind (read_exact MseIo 2) (\<lambda>ia_len_buf.
     let (ia_len_buf, in_cipher) = rc4_process in_cipher ia_len_buf;
         ia_len = unat (be16_at ia_len_buf 0)
     in
     io_bind (read_pad in_cipher ia_len) (\<lambda>in_cipher.
     io_return (in_cipher, out_cipher, crypto_provide)))))))"

definition select_block :: "bytes \<Rightarrow> bytes" where
  "select_block pad_d = VC @ be32 CRYPTO_RC4 @ be16 (of_nat (length pad_d)) @ pad_d"

definition mse_incoming ::
  "modpow \<Rightarrow> (bytes \<Rightarrow> bytes) \<Rightarrow> bytes \<Rightarrow> bytes \<Rightarrow> bytes \<Rightarrow> bytes list \<Rightarrow> bytes \<Rightarrow> ((rc4 \<times> rc4) \<times> bytes) mse" where
  "mse_incoming modpow sha1 entropy pad_b pad_d info_hashes pre_read =
     io_bind (incoming_exchange modpow entropy pad_b pre_read) (\<lambda>s.
     io_bind (incoming_skey sha1 info_hashes s) (\<lambda>matched.
     io_bind (incoming_offer sha1 s matched) (\<lambda>(in_cipher, out_cipher, crypto_provide).
     if crypto_provide AND CRYPTO_RC4 = 0 then io_fail NoCommonCrypto
     else
     let (packet, out_cipher) = rc4_process out_cipher (select_block pad_d) in
     io_bind (write_all MseIo packet) (\<lambda>_.
     io_return ((in_cipher, out_cipher), matched)))))"

section \<open>Synchronisation\<close>

text \<open>\<open>needle\<close> does not occur in \<open>pad @ needle\<close> before its end.\<close>

definition no_false_sync :: "bytes \<Rightarrow> bytes \<Rightarrow> bool" where
  "no_false_sync pad needle \<longleftrightarrow> (\<forall>k < length pad. take (length needle) (drop k (pad @ needle)) \<noteq> needle)"

lemma window_step:
  assumes "0 < N"
  shows "(if length (drop (length pre - N) pre @ [x]) > N then tl (drop (length pre - N) pre @ [x]) else drop (length pre - N) pre @ [x]) =
    drop (length (pre @ [x]) - N) (pre @ [x])"
proof (cases "length pre < N")
  case True
  then show ?thesis by simp
next
  case False
  then have "drop (length pre - N) pre \<noteq> []" using assms by simp
  moreover have "drop (Suc (length pre) - N) pre = tl (drop (length pre - N) pre)" using False by (simp add: Suc_diff_le drop_Suc tl_drop)
  ultimately show ?thesis using False assms by simp
qed

lemma take_drop_suffix: "N \<le> length A \<Longrightarrow> take N (drop (length A - N) (A @ xs)) = drop (length A - N) A"
  by simp

lemma sync_loop_found:
  assumes N: "needle \<noteq> []" and nf: "no_false_sync pad needle"
  shows "pad @ needle = pre @ xs \<Longrightarrow> xs \<noteq> [] \<Longrightarrow> length xs \<le> n \<Longrightarrow> s_in s = xs @ rest \<Longrightarrow>
    sync_loop e n needle (drop (length pre - length needle) pre) s = (Inr (), s\<lparr>s_in := rest\<rparr>)"
proof (induction xs arbitrary: pre n s)
  case (Cons x xs)
  obtain m where n: "n = Suc m" using Cons.prems(3) by (cases n) auto
  let ?w = "drop (length (pre @ [x]) - length needle) (pre @ [x])"
  have rd: "read_exact MseIo 1 s = (Inr [x], s\<lparr>s_in := xs @ rest\<rparr>)" using Cons.prems(4) by (simp add: read_exact_def)
  have step: "sync_loop e n needle (drop (length pre - length needle) pre) s =
      (if length ?w = length needle \<and> ?w = needle then io_return () else sync_loop e m needle ?w) (s\<lparr>s_in := xs @ rest\<rparr>)"
    using window_step [of "length needle" pre x] N unfolding n sync_loop.simps io_bind_step [of "read_exact MseIo 1", OF rd] Let_def by simp
  show ?case
  proof (cases "xs = []")
    case True
    then have "pre @ [x] = pad @ needle" using Cons.prems(1) by simp
    then have "?w = needle" by simp
    then show ?thesis using step True by (simp add: io_return_def)
  next
    case False
    have len: "length pre + 1 + length xs = length pad + length needle" using arg_cong [OF Cons.prems(1), of length] by simp
    have "?w \<noteq> needle"
    proof (cases "length (pre @ [x]) < length needle")
      case True
      then show ?thesis by auto
    next
      case ge: False
      let ?k = "length (pre @ [x]) - length needle"
      have "take (length needle) (drop ?k (pad @ needle)) = ?w"
        using take_drop_suffix [of "length needle" "pre @ [x]" xs] ge Cons.prems(1) by (simp del: drop_append length_append)
      moreover have "?k < length pad" using len False ge by (cases xs) auto
      ultimately show ?thesis using nf unfolding no_false_sync_def by metis
    qed
    then have "sync_loop e n needle (drop (length pre - length needle) pre) s = sync_loop e m needle ?w (s\<lparr>s_in := xs @ rest\<rparr>)"
      using step by simp
    also have "\<dots> = (Inr (), s\<lparr>s_in := rest\<rparr>)"
      using Cons.IH [of "pre @ [x]" m "s\<lparr>s_in := xs @ rest\<rparr>"] Cons.prems(1,3) False n by simp
    finally show ?thesis .
  qed
qed simp

lemma sync_found:
  assumes "needle \<noteq> []" "no_false_sync pad needle" "length pad + length needle \<le> n" "s_in s = pad @ needle @ rest"
  shows "sync_loop e n needle [] s = (Inr (), s\<lparr>s_in := rest\<rparr>)"
  using sync_loop_found [OF assms(1,2), of "[]" "pad @ needle" n s rest e] assms by simp

section \<open>Numbers as bytes\<close>

lemma be_nat_digits: "be_nat (map (\<lambda>k. of_nat (n div 256 ^ (m - 1 - k))) [0..<m]) = n mod 256 ^ m"
proof (induction m arbitrary: n)
  case (Suc m)
  have shift: "map (\<lambda>k. (of_nat (n div 256 ^ (Suc m - 1 - k)) :: u8)) [0..<m] = map (\<lambda>k. of_nat (n div 256 div 256 ^ (m - 1 - k))) [0..<m]"
  proof (rule map_cong [OF refl])
    fix k assume "k \<in> set [0..<m]"
    then have "Suc m - 1 - k = Suc (m - 1 - k)" by auto
    then show "(of_nat (n div 256 ^ (Suc m - 1 - k)) :: u8) = of_nat (n div 256 div 256 ^ (m - 1 - k))" by (simp add: div_mult2_eq)
  qed
  have "be_nat (map (\<lambda>k. of_nat (n div 256 ^ (Suc m - 1 - k))) [0..<Suc m]) =
      be_nat (map (\<lambda>k. of_nat (n div 256 ^ (Suc m - 1 - k))) [0..<m]) * 256 + n mod 256"
    by (simp add: be_nat_snoc unat_of_nat)
  then have "be_nat (map (\<lambda>k. of_nat (n div 256 ^ (Suc m - 1 - k))) [0..<Suc m]) = (n div 256) mod 256 ^ m * 256 + n mod 256"
    unfolding shift Suc .
  then show ?case using mod_mult2_eq [of n 256 "256 ^ m"] by (simp add: mult.commute)
qed (simp add: be_nat_def)

lemma dh_to_bytes_Some:
  assumes "dh_to_bytes n = Some bs"
  shows "length bs = 96" "dh_from_bytes bs = n"
proof -
  have bs: "bs = map (\<lambda>k. of_nat (n div 256 ^ (KEY_LEN - 1 - k))) [0..<KEY_LEN]" "n < 256 ^ KEY_LEN"
    using assms by (auto simp: dh_to_bytes_def split: if_splits)
  show "length bs = 96" by (simp add: bs KEY_LEN_def)
  show "dh_from_bytes bs = n" using be_nat_digits [of n KEY_LEN] bs(2) by (simp add: dh_from_bytes_def bs(1))
qed

lemma DH_P_less: "n < DH_P \<Longrightarrow> \<exists>bs. dh_to_bytes n = Some bs"
proof -
  have "DH_P < 256 ^ KEY_LEN" by (simp add: DH_P_def KEY_LEN_def)
  then show "n < DH_P \<Longrightarrow> \<exists>bs. dh_to_bytes n = Some bs" by (simp add: dh_to_bytes_def)
qed

section \<open>Runs of the steps\<close>

lemma mse_assert_Some: "x = Some y \<Longrightarrow> mse_assert x s = (Inr y, s)"
  by (simp add: mse_assert_def io_lift_def)

lemma check_public_ok: "1 < y \<Longrightarrow> y < DH_P - 1 \<Longrightarrow> check_public y s = (Inr (), s)"
  by (simp add: check_public_def validate_peer_public_def io_lift_def)

lemma write_ok: "s_writable s \<Longrightarrow> write_all e bs s = (Inr (), s\<lparr>s_out := s_out s @ bs\<rparr>)"
  by (simp add: write_all_def)

lemma write_pad_ok: "s_writable s \<Longrightarrow> write_pad bs s = (Inr (), s\<lparr>s_out := s_out s @ bs\<rparr>)"
  by (simp add: write_pad_def write_all_def io_return_def)

lemma read_pad_ok:
  "s_in s = pad @ r \<Longrightarrow> length pad = n \<Longrightarrow> read_pad c n s = (Inr (snd (rc4_process c pad)), s\<lparr>s_in := r\<rparr>)"
  by (auto simp: read_pad_def io_bind_def read_exact_def io_return_def)

lemmas step_ok = mse_assert_Some check_public_ok write_ok write_pad_ok

definition valid_public :: "nat \<Rightarrow> bool" where
  "valid_public y \<longleftrightarrow> 1 < y \<and> y < DH_P - 1"

lemma outgoing_exchange_ok:
  assumes "kp = keypair_generate modpow entropy" "dh_to_bytes (kp_public kp) = Some ya" "s_writable s" "s_in s = yb @ r" "length yb = 96"
    "valid_public (dh_from_bytes yb)" "dh_to_bytes (shared_secret modpow kp (dh_from_bytes yb)) = Some sec"
  shows "outgoing_exchange modpow entropy pad_a s = (Inr sec, s\<lparr>s_in := r, s_out := s_out s @ ya @ pad_a\<rparr>)"
proof -
  have "read_exact MseIo KEY_LEN (s\<lparr>s_out := s_out s @ ya @ pad_a\<rparr>) = (Inr yb, s\<lparr>s_in := r, s_out := s_out s @ ya @ pad_a\<rparr>)"
    using assms(4,5) by (simp add: read_exact_def KEY_LEN_def)
  then show ?thesis using assms unfolding outgoing_exchange_def Let_def valid_public_def by (simp add: io_bind_step step_ok)
qed

lemma outgoing_offer_ok:
  assumes "derive_rc4 sha1 ''keyA'' sec ih = Some ca" "derive_rc4 sha1 ''keyB'' sec ih = Some cb" "s_writable s"
  shows "outgoing_offer sha1 pad_c ih sec s =
    (Inr (cb, snd (rc4_process ca (offer_block pad_c))),
     s\<lparr>s_out := s_out s @ req_hash sha1 ''req1'' sec @ xor_bytes (req_hash sha1 ''req2'' ih) (req_hash sha1 ''req3'' sec) @
       fst (rc4_process ca (offer_block pad_c))\<rparr>)"
  using assms by (simp add: outgoing_offer_def Let_def io_bind_step step_ok case_prod_beta io_return_def)

lemma be_pair: "be32_at (be32 w @ be16 l) 0 = w" "be16_at (be32 w @ be16 l) 4 = l"
  using be16_at_append [of "be32 w" 4 "be16 l" 0] be16_at_be16 [of l "[]"] by simp_all

lemma len16: "n \<le> 512 \<Longrightarrow> unat (of_nat n :: u16) = n"
  by (simp add: unat_of_nat)

lemma outgoing_finish_ok:
  assumes in_s: "s_in s = pad_b @ fst (rc4_process c (select_block pad_d)) @ r"
    and pads: "length pad_b \<le> 512" "length pad_d \<le> 512" and sync: "no_false_sync pad_b (fst (rc4_process c VC))"
  shows "outgoing_finish c s = (Inr (snd (rc4_process c (select_block pad_d))), s\<lparr>s_in := r\<rparr>)"
proof -
  let ?h = "be32 CRYPTO_RC4 @ be16 (of_nat (length pad_d))"
  define n1 c1 where "n1 = fst (rc4_process c VC)" and "c1 = snd (rc4_process c VC)"
  define t1 c2 where "t1 = fst (rc4_process c1 ?h)" and "c2 = snd (rc4_process c1 ?h)"
  define d1 where "d1 = fst (rc4_process c2 pad_d)"
  have enc: "fst (rc4_process c (select_block pad_d)) = n1 @ t1 @ d1" "snd (rc4_process c (select_block pad_d)) = snd (rc4_process c2 pad_d)"
  proof -
    have "select_block pad_d = VC @ ?h @ pad_d" by (simp add: select_block_def)
    then show "fst (rc4_process c (select_block pad_d)) = n1 @ t1 @ d1" "snd (rc4_process c (select_block pad_d)) = snd (rc4_process c2 pad_d)"
      by (simp_all only: rc4_process_append fst_conv snd_conv n1_def c1_def t1_def c2_def d1_def append_assoc)
  qed
  have len: "length n1 = 8" "length t1 = 6" "length d1 = length pad_d" by (simp_all add: n1_def t1_def d1_def VC_def)
  have "sync_loop (MseHandshake ''could not sync on encrypted VC'') (SYNC_SEARCH_LIMIT + 8) n1 [] s = (Inr (), s\<lparr>s_in := t1 @ d1 @ r\<rparr>)"
    by (rule sync_found [OF _ sync [folded n1_def]]) (use in_s len pads enc(1) in \<open>auto simp: SYNC_SEARCH_LIMIT_def PAD_MAX_def\<close>)
  then have s1: "sync_on_encrypted_vc c s = (Inr c1, s\<lparr>s_in := t1 @ d1 @ r\<rparr>)"
    by (simp add: sync_on_encrypted_vc_def io_bind_step n1_def c1_def VC_def case_prod_beta io_return_def)
  have s2: "read_exact MseIo 6 (s\<lparr>s_in := t1 @ d1 @ r\<rparr>) = (Inr t1, s\<lparr>s_in := d1 @ r\<rparr>)" using len by (simp add: read_exact_def)
  have t: "rc4_process c1 t1 = (?h, c2)"
    using rc4_involution [of c1 ?h] by (simp add: t1_def c2_def prod_eq_iff rc4_process_state del: rc4_involution)
  have p: "read_pad c2 (length pad_d) (s\<lparr>s_in := d1 @ r\<rparr>) = (Inr (snd (rc4_process c2 pad_d)), s\<lparr>s_in := r\<rparr>)"
    using read_pad_ok [of "s\<lparr>s_in := d1 @ r\<rparr>" d1 r "length pad_d" c2] len by (simp add: rc4_process_state)
  have rc: "CRYPTO_RC4 AND CRYPTO_RC4 \<noteq> 0" by (simp add: CRYPTO_RC4_def)
  show ?thesis
    unfolding outgoing_finish_def io_bind_step [of "sync_on_encrypted_vc c", OF s1] io_bind_step [of "read_exact MseIo 6", OF s2] t Let_def
    using pads rc by (simp add: be_pair len16 PAD_MAX_def io_bind_step [of "read_pad c2 (length pad_d)", OF p] enc(2) io_return_def)
qed

lemma incoming_exchange_ok:
  assumes "kp = keypair_generate modpow entropy" "dh_to_bytes (kp_public kp) = Some yb" "s_writable s"
    "pre @ rst = ya" "length ya = 96" "s_in s = rst @ r"
    "valid_public (dh_from_bytes ya)" "dh_to_bytes (shared_secret modpow kp (dh_from_bytes ya)) = Some sec"
  shows "incoming_exchange modpow entropy pad_b pre s = (Inr sec, s\<lparr>s_in := r, s_out := s_out s @ yb @ pad_b\<rparr>)"
proof -
  have len: "length pre + length rst = 96" using assms(4,5) by auto
  have "(if length pre < KEY_LEN then read_exact MseIo (KEY_LEN - length pre) else io_return []) s = (Inr rst, s\<lparr>s_in := r\<rparr>)"
  proof (cases "length pre < 96")
    case True
    then show ?thesis using assms(6) len by (auto simp: read_exact_def KEY_LEN_def)
  next
    case False
    then have "rst = []" using len by (cases rst) auto
    then show ?thesis using assms(6) False by (cases s) (simp add: KEY_LEN_def io_return_def)
  qed
  then show ?thesis using assms len unfolding incoming_exchange_def Let_def valid_public_def
    by (auto simp add: io_bind_step step_ok KEY_LEN_def)
qed

lemma xor_bytes_cancel: "length a = length b \<Longrightarrow> xor_bytes (xor_bytes a b) b = a"
  by (induction a b rule: list_induct2) (simp_all add: xor_bytes_def xor.assoc)

lemma length_xor_bytes [simp]: "length (xor_bytes a b) = min (length a) (length b)"
  by (simp add: xor_bytes_def)

lemma match_skey_found:
  assumes "ih \<in> set ihs" "\<forall>ih' \<in> set ihs. req_hash sha1 ''req2'' ih' = req_hash sha1 ''req2'' ih \<longrightarrow> ih' = ih"
  shows "match_skey sha1 ihs (req_hash sha1 ''req2'' ih) = Some ih"
proof -
  let ?x = "req_hash sha1 ''req2'' ih"
  have "foldl (\<lambda>m i. if req_hash sha1 ''req2'' i = ?x then Some i else m) m ihs = (if ih \<in> set ihs then Some ih else m)"
    if "\<forall>ih' \<in> set ihs. req_hash sha1 ''req2'' ih' = ?x \<longrightarrow> ih' = ih" for m ihs
    using that by (induction ihs arbitrary: m) auto
  from this [OF assms(2), of None] show ?thesis using assms(1) by (simp add: match_skey_def)
qed

lemma incoming_skey_ok:
  assumes sha1: "\<forall>b. length (sha1 b) = 20"
    and in_s: "s_in s = pad_a @ req_hash sha1 ''req1'' sec @ xor_bytes (req_hash sha1 ''req2'' ih) (req_hash sha1 ''req3'' sec) @ r"
    and pad: "length pad_a \<le> 512" and sync: "no_false_sync pad_a (req_hash sha1 ''req1'' sec)"
    and ih: "ih \<in> set ihs" "\<forall>ih' \<in> set ihs. req_hash sha1 ''req2'' ih' = req_hash sha1 ''req2'' ih \<longrightarrow> ih' = ih"
  shows "incoming_skey sha1 ihs sec s = (Inr ih, s\<lparr>s_in := r\<rparr>)"
proof -
  have len: "length (req_hash sha1 l x) = 20" for l x using sha1 by (simp add: req_hash_def sha1_concat_def)
  let ?x = "xor_bytes (req_hash sha1 ''req2'' ih) (req_hash sha1 ''req3'' sec)"
  have "req_hash sha1 ''req1'' sec \<noteq> []" using len [of "''req1''" sec] by auto
  then have s1: "sync_on_pattern (req_hash sha1 ''req1'' sec) s = (Inr (), s\<lparr>s_in := ?x @ r\<rparr>)"
    unfolding sync_on_pattern_def by (rule sync_found [OF _ sync]) (use in_s pad len in \<open>simp_all add: SYNC_SEARCH_LIMIT_def PAD_MAX_def\<close>)
  have s2: "read_exact MseIo 20 (s\<lparr>s_in := ?x @ r\<rparr>) = (Inr ?x, s\<lparr>s_in := r\<rparr>)" by (simp add: read_exact_def len)
  show ?thesis
    unfolding incoming_skey_def io_bind_step [of "sync_on_pattern _", OF s1] io_bind_step [of "read_exact MseIo 20", OF s2] Let_def
    using xor_bytes_cancel [of "req_hash sha1 ''req2'' ih" "req_hash sha1 ''req3'' sec"] match_skey_found [OF ih] len
    by (simp add: io_return_def)
qed

lemma len_vc: "length VC = 8" "length crypto_provide_bytes = 4"
  by (simp_all add: VC_def crypto_provide_bytes_def)

lemma incoming_offer_ok:
  assumes "derive_rc4 sha1 ''keyA'' sec ih = Some ca" "derive_rc4 sha1 ''keyB'' sec ih = Some cb"
    and in_s: "s_in s = fst (rc4_process ca (offer_block pad_c)) @ r" and pad: "length pad_c \<le> 512"
  shows "incoming_offer sha1 sec ih s =
    (Inr (snd (rc4_process ca (offer_block pad_c)), cb, CRYPTO_PLAINTEXT OR CRYPTO_RC4), s\<lparr>s_in := r\<rparr>)"
proof -
  let ?h = "VC @ crypto_provide_bytes @ be16 (of_nat (length pad_c))"
  define h1 c1 where "h1 = fst (rc4_process ca ?h)" and "c1 = snd (rc4_process ca ?h)"
  define p1 c2 where "p1 = fst (rc4_process c1 pad_c)" and "c2 = snd (rc4_process c1 pad_c)"
  define l1 c3 where "l1 = fst (rc4_process c2 (be16 0))" and "c3 = snd (rc4_process c2 (be16 0))"
  have "offer_block pad_c = ?h @ pad_c @ be16 0" by (simp add: offer_block_def)
  then have enc: "fst (rc4_process ca (offer_block pad_c)) = h1 @ p1 @ l1" "snd (rc4_process ca (offer_block pad_c)) = c3"
    by (simp_all only: rc4_process_append fst_conv snd_conv h1_def c1_def p1_def c2_def l1_def c3_def append_assoc)
  have len: "length h1 = 14" "length p1 = length pad_c" "length l1 = 2"
    by (simp_all add: h1_def p1_def l1_def VC_def crypto_provide_bytes_def)
  have dec: "rc4_process ca h1 = (?h, c1)" "snd (rc4_process c1 p1) = c2" "rc4_process c2 l1 = (be16 0, c3)"
    by (simp_all add: prod_eq_iff h1_def c1_def p1_def c2_def l1_def c3_def rc4_process_state)
  have s1: "read_exact MseIo 14 s = (Inr h1, s\<lparr>s_in := p1 @ l1 @ r\<rparr>)" using in_s enc(1) len by (simp add: read_exact_def)
  have s2: "read_pad c1 (length pad_c) (s\<lparr>s_in := p1 @ l1 @ r\<rparr>) = (Inr c2, s\<lparr>s_in := l1 @ r\<rparr>)"
    using read_pad_ok [of "s\<lparr>s_in := p1 @ l1 @ r\<rparr>" p1 "l1 @ r" "length pad_c" c1] len dec(2) by simp
  have s3: "read_exact MseIo 2 (s\<lparr>s_in := l1 @ r\<rparr>) = (Inr l1, s\<lparr>s_in := r\<rparr>)" using len by (simp add: read_exact_def)
  have s4: "read_pad c3 0 (s\<lparr>s_in := r\<rparr>) = (Inr c3, s\<lparr>s_in := r\<rparr>)" by (simp add: read_pad_def io_return_def)
  have vc: "take 8 ?h = VC" "be32_at ?h 8 = CRYPTO_PLAINTEXT OR CRYPTO_RC4" "be16_at ?h 12 = of_nat (length pad_c)"
    "be16_at (be16 0) 0 = 0"
    using be32_at_append [of VC 8 "crypto_provide_bytes @ be16 (of_nat (length pad_c))" 0]
      be16_at_append [of "VC @ crypto_provide_bytes" 12 "be16 (of_nat (length pad_c))" 0] be16_at_be16 [of _ "[]"]
    by (simp_all add: VC_def crypto_provide_bytes_def)
  show ?thesis
    unfolding incoming_offer_def io_bind_step [OF mse_assert_Some [OF assms(1)]] io_bind_step [OF mse_assert_Some [OF assms(2)]]
      io_bind_step [of "read_exact MseIo 14", OF s1] dec(1) Let_def
    using pad len_vc by (simp add: vc len16 PAD_MAX_def io_bind_step [of "read_pad c1 (length pad_c)", OF s2]
        io_bind_step [of "read_exact MseIo 2", OF s3] dec(3) io_bind_step [of "read_pad c3 0", OF s4] enc(2) io_return_def)
qed

section \<open>Two ends of a connection\<close>

text \<open>
  What the code relies on of the big-integer library: exponents commute and a result is below the modulus.
\<close>

definition dh_laws :: "modpow \<Rightarrow> bool" where
  "dh_laws modpow \<longleftrightarrow>
     (\<forall>x y. modpow (modpow DH_G x DH_P) y DH_P = modpow (modpow DH_G y DH_P) x DH_P) \<and> (\<forall>b e. modpow b e DH_P < DH_P)"

text \<open>What the initiator sends after its public key and padding, once its cipher is derived.\<close>

abbreviation offer_transcript :: "(bytes \<Rightarrow> bytes) \<Rightarrow> bytes \<Rightarrow> bytes \<Rightarrow> bytes \<Rightarrow> rc4 \<Rightarrow> bytes" where
  "offer_transcript sha1 sec ih pad_c c \<equiv>
     req_hash sha1 ''req1'' sec @ xor_bytes (req_hash sha1 ''req2'' ih) (req_hash sha1 ''req3'' sec) @ fst (rc4_process c (offer_block pad_c))"

lemma mse_outgoing_run:
  assumes ka: "ka = keypair_generate modpow ea" "dh_to_bytes (kp_public ka) = Some ya"
    and yb: "length yb = 96" "valid_public (dh_from_bytes yb)" "dh_to_bytes (shared_secret modpow ka (dh_from_bytes yb)) = Some sec"
    and c: "derive_rc4 sha1 ''keyA'' sec ih = Some c1" "derive_rc4 sha1 ''keyB'' sec ih = Some c2"
    and pads: "length pad_b \<le> 512" "length pad_d \<le> 512" and sync: "no_false_sync pad_b (fst (rc4_process c2 VC))"
  shows "mse_outgoing modpow sha1 ea pad_a pad_c ih
      \<lparr>s_in = (yb @ pad_b @ fst (rc4_process c2 (select_block pad_d))) @ rest, s_out = [], s_writable = True\<rparr> =
    (Inr (snd (rc4_process c2 (select_block pad_d)), snd (rc4_process c1 (offer_block pad_c))),
     \<lparr>s_in = rest, s_out = ya @ pad_a @ offer_transcript sha1 sec ih pad_c c1, s_writable = True\<rparr>)"
proof -
  define ta2 tb2 where "ta2 = offer_transcript sha1 sec ih pad_c c1" and "tb2 = fst (rc4_process c2 (select_block pad_d))"
  let ?s = "\<lparr>s_in = (yb @ pad_b @ tb2) @ rest, s_out = [], s_writable = True\<rparr>"
  have 1: "outgoing_exchange modpow ea pad_a ?s = (Inr sec, \<lparr>s_in = pad_b @ tb2 @ rest, s_out = ya @ pad_a, s_writable = True\<rparr>)"
    using outgoing_exchange_ok [OF ka, of ?s yb "pad_b @ tb2 @ rest" sec pad_a] yb by simp
  have 2: "outgoing_offer sha1 pad_c ih sec \<lparr>s_in = pad_b @ tb2 @ rest, s_out = ya @ pad_a, s_writable = True\<rparr> =
      (Inr (c2, snd (rc4_process c1 (offer_block pad_c))), \<lparr>s_in = pad_b @ tb2 @ rest, s_out = ya @ pad_a @ ta2, s_writable = True\<rparr>)"
    using outgoing_offer_ok [OF c] by (simp add: ta2_def)
  have 3: "outgoing_finish c2 \<lparr>s_in = pad_b @ tb2 @ rest, s_out = ya @ pad_a @ ta2, s_writable = True\<rparr> =
      (Inr (snd (rc4_process c2 (select_block pad_d))), \<lparr>s_in = rest, s_out = ya @ pad_a @ ta2, s_writable = True\<rparr>)"
    using outgoing_finish_ok [OF _ pads sync] by (simp add: tb2_def)
  show ?thesis unfolding mse_outgoing_def ta2_def [symmetric] tb2_def [symmetric]
    by (simp add: io_bind_step [of "outgoing_exchange _ _ _", OF 1 [simplified append_assoc]] io_bind_step [of "outgoing_offer _ _ _ _", OF 2]
        io_bind_step [of "outgoing_finish _", OF 3] io_return_def)
qed

lemma mse_incoming_run:
  assumes kb: "kb = keypair_generate modpow eb" "dh_to_bytes (kp_public kb) = Some yb" and sha1: "\<forall>b. length (sha1 b) = 20"
    and ya: "length ya = 96" "valid_public (dh_from_bytes ya)" "dh_to_bytes (shared_secret modpow kb (dh_from_bytes ya)) = Some sec"
    and c: "derive_rc4 sha1 ''keyA'' sec ih = Some c1" "derive_rc4 sha1 ''keyB'' sec ih = Some c2"
    and pads: "length pad_a \<le> 512" "length pad_c \<le> 512" and sync: "no_false_sync pad_a (req_hash sha1 ''req1'' sec)"
    and ih: "ih \<in> set ihs" "\<forall>ih' \<in> set ihs. req_hash sha1 ''req2'' ih' = req_hash sha1 ''req2'' ih \<longrightarrow> ih' = ih"
    and n: "n \<le> 96" and ta: "ta = ya @ pad_a @ offer_transcript sha1 sec ih pad_c c1"
  shows "mse_incoming modpow sha1 eb pad_b pad_d ihs (take n ta) \<lparr>s_in = drop n ta @ rest, s_out = [], s_writable = True\<rparr> =
    (Inr ((snd (rc4_process c1 (offer_block pad_c)), snd (rc4_process c2 (select_block pad_d))), ih),
     \<lparr>s_in = rest, s_out = yb @ pad_b @ fst (rc4_process c2 (select_block pad_d)), s_writable = True\<rparr>)"
proof -
  define ta2 where "ta2 = offer_transcript sha1 sec ih pad_c c1"
  have split: "take n ta = take n ya" "drop n ta = drop n ya @ pad_a @ ta2" using n ya(1) by (simp_all add: ta ta2_def)
  let ?s = "\<lparr>s_in = (drop n ya @ pad_a @ ta2) @ rest, s_out = [], s_writable = True\<rparr>"
  have 1: "incoming_exchange modpow eb pad_b (take n ya) ?s = (Inr sec, \<lparr>s_in = pad_a @ ta2 @ rest, s_out = yb @ pad_b, s_writable = True\<rparr>)"
    using incoming_exchange_ok [OF kb, of ?s "take n ya" "drop n ya" ya "pad_a @ ta2 @ rest" sec pad_b] ya by simp
  have 2: "incoming_skey sha1 ihs sec \<lparr>s_in = pad_a @ ta2 @ rest, s_out = yb @ pad_b, s_writable = True\<rparr> =
      (Inr ih, \<lparr>s_in = fst (rc4_process c1 (offer_block pad_c)) @ rest, s_out = yb @ pad_b, s_writable = True\<rparr>)"
    using incoming_skey_ok [OF sha1 _ pads(1) sync ih] by (simp add: ta2_def)
  have 3: "incoming_offer sha1 sec ih \<lparr>s_in = fst (rc4_process c1 (offer_block pad_c)) @ rest, s_out = yb @ pad_b, s_writable = True\<rparr> =
      (Inr (snd (rc4_process c1 (offer_block pad_c)), c2, CRYPTO_PLAINTEXT OR CRYPTO_RC4), \<lparr>s_in = rest, s_out = yb @ pad_b, s_writable = True\<rparr>)"
    using incoming_offer_ok [OF c _ pads(2)] by simp
  have rc: "(CRYPTO_PLAINTEXT OR CRYPTO_RC4) AND CRYPTO_RC4 \<noteq> 0" by (simp add: CRYPTO_PLAINTEXT_def CRYPTO_RC4_def)
  show ?thesis unfolding split mse_incoming_def
    using rc by (simp add: io_bind_step [of "incoming_exchange _ _ _ _", OF 1 [simplified append_assoc]] io_bind_step [of "incoming_skey _ _ _", OF 2]
        io_bind_step [of "incoming_offer _ _ _", OF 3] io_bind_step write_ok io_return_def case_prod_beta)
qed

text \<open>
  C29: an initiator and a receiver that knows its torrent complete the handshake with each other. For all random choices
  (up to the negligible accidents that a padding imitates a synchronisation mark or that two torrents share
  a hash) there are transcripts of the two directions such that each side, fed the other's transcript and any further
  bytes, writes its own and leaves the further bytes unread; the receiver identifies the torrent; and each side's writing
  cipher is in the state of the other's reading cipher, as the encrypted stream needs.
\<close>

theorem mse_agreement:
  assumes laws: "dh_laws modpow" and sha1: "\<forall>b. length (sha1 b) = 20"
    and pads: "length pad_a \<le> 512" "length pad_b \<le> 512" "length pad_c \<le> 512" "length pad_d \<le> 512"
    and keys: "valid_public (kp_public (keypair_generate modpow ea))" "valid_public (kp_public (keypair_generate modpow eb))"
    and sec: "dh_to_bytes (shared_secret modpow (keypair_generate modpow ea) (kp_public (keypair_generate modpow eb))) = Some sec"
    and ih: "ih \<in> set ihs" "\<forall>ih' \<in> set ihs. req_hash sha1 ''req2'' ih' = req_hash sha1 ''req2'' ih \<longrightarrow> ih' = ih"
    and sync: "no_false_sync pad_a (req_hash sha1 ''req1'' sec)"
      "\<And>c. derive_rc4 sha1 ''keyB'' sec ih = Some c \<Longrightarrow> no_false_sync pad_b (fst (rc4_process c VC))"
  shows "\<exists>ta tb ca cb. (\<forall>rest. mse_outgoing modpow sha1 ea pad_a pad_c ih \<lparr>s_in = tb @ rest, s_out = [], s_writable = True\<rparr> =
        (Inr (cb, ca), \<lparr>s_in = rest, s_out = ta, s_writable = True\<rparr>)) \<and>
     (\<forall>n \<le> 96. \<forall>rest. mse_incoming modpow sha1 eb pad_b pad_d ihs (take n ta) \<lparr>s_in = drop n ta @ rest, s_out = [], s_writable = True\<rparr> =
        (Inr ((ca, cb), ih), \<lparr>s_in = rest, s_out = tb, s_writable = True\<rparr>))"
proof -
  define ka kb where "ka = keypair_generate modpow ea" and "kb = keypair_generate modpow eb"
  have pub: "kp_public ka = modpow DH_G (kp_private ka) DH_P" "kp_public kb = modpow DH_G (kp_private kb) DH_P"
    by (simp_all add: ka_def kb_def keypair_generate_def Let_def)
  have lt: "modpow b e DH_P < DH_P" for b e using laws by (simp add: dh_laws_def)
  obtain ya yb where y: "dh_to_bytes (kp_public ka) = Some ya" "dh_to_bytes (kp_public kb) = Some yb"
    using DH_P_less [OF lt] pub by metis
  note ya = dh_to_bytes_Some [OF y(1)] and yb = dh_to_bytes_Some [OF y(2)]
  have "shared_secret modpow kb (kp_public ka) = shared_secret modpow ka (kp_public kb)"
    using laws by (simp add: shared_secret_def pub dh_laws_def)
  then have secs: "dh_to_bytes (shared_secret modpow ka (dh_from_bytes yb)) = Some sec" "dh_to_bytes (shared_secret modpow kb (dh_from_bytes ya)) = Some sec"
    using sec ya(2) yb(2) by (simp_all add: ka_def kb_def)
  have derive: "\<exists>c. derive_rc4 sha1 l sec ih = Some c" for l
  proof -
    have "sha1 x \<noteq> []" for x using sha1 [rule_format, of x] by auto
    then show ?thesis by (simp add: derive_rc4_def rc4_new_def sha1_concat_def)
  qed
  obtain c1 c2 where c: "derive_rc4 sha1 ''keyA'' sec ih = Some c1" "derive_rc4 sha1 ''keyB'' sec ih = Some c2" using derive by blast
  let ?ta = "ya @ pad_a @ offer_transcript sha1 sec ih pad_c c1"
  have pk: "valid_public (dh_from_bytes ya)" "valid_public (dh_from_bytes yb)" using keys ya(2) yb(2) by (simp_all add: ka_def kb_def)
  note out = mse_outgoing_run [OF ka_def y(1) yb(1) pk(2) secs(1) c pads(2,4) sync(2) [OF c(2)]]
    and inc = mse_incoming_run [OF kb_def y(2) sha1 ya(1) pk(1) secs(2) c pads(1,3) sync(1) ih _ refl]
  show ?thesis
    using out inc
    by (intro exI [where x = ?ta] exI [where x = "yb @ pad_b @ fst (rc4_process c2 (select_block pad_d))"]
        exI [where x = "snd (rc4_process c1 (offer_block pad_c))"] exI [where x = "snd (rc4_process c2 (select_block pad_d))"] conjI allI impI)
qed

definition sample_sha1 :: "bytes \<Rightarrow> bytes" where
  "sample_sha1 b = take 20 (b @ replicate 20 0)"

definition sample_modpow :: modpow where
  "sample_modpow b e m = b * e mod m"

theorem mse_agreement_witness:
  "\<exists>ta tb ca cb. mse_outgoing sample_modpow sample_sha1 (replicate 20 1) [] [] (replicate 20 5) \<lparr>s_in = tb @ [9], s_out = [], s_writable = True\<rparr> =
       (Inr (cb, ca), \<lparr>s_in = [9], s_out = ta, s_writable = True\<rparr>) \<and>
     mse_incoming sample_modpow sample_sha1 (replicate 20 2) [] [] [replicate 20 5] (take 20 ta) \<lparr>s_in = drop 20 ta @ [8], s_out = [], s_writable = True\<rparr> =
       (Inr ((ca, cb), replicate 20 5), \<lparr>s_in = [8], s_out = tb, s_writable = True\<rparr>)"
proof -
  have P: "DH_P > 0" by (simp add: DH_P_def)
  have laws: "dh_laws sample_modpow" using P by (simp add: dh_laws_def sample_modpow_def mod_mult_left_eq mod_mult_right_eq mult.commute mult.left_commute)
  have keys: "valid_public (kp_public (keypair_generate sample_modpow (replicate 20 n)))" for n :: u8
  proof -
    let ?bs = "(n OR 0x80) # replicate 19 n"
    have upd: "(replicate 20 n)[0 := replicate 20 n ! 0 OR 0x80] = ?bs" by (simp add: numeral_eq_Suc)
    have "n OR 0x80 \<noteq> 0" by (simp add: or_eq_0_iff)
    then have "0 < unat (n OR 0x80)" by (simp add: unat_gt_0)
    then have "1 * 256 ^ 19 \<le> unat (n OR 0x80) * 256 ^ 19" by (intro mult_right_mono) auto
    then have "256 ^ 19 \<le> be_nat ?bs" by (simp add: be_nat_Cons)
    moreover have "be_nat ?bs < 256 ^ 20" using be_nat_less [of ?bs] by simp
    moreover have "2 * 256 ^ 20 < DH_P - 1" by (simp add: DH_P_def)
    ultimately have "1 < 2 * be_nat ?bs" "2 * be_nat ?bs < DH_P - 1" by simp_all
    then show ?thesis unfolding valid_public_def keypair_generate_def upd sample_modpow_def DH_G_def Let_def by simp
  qed
  obtain sec where sec: "dh_to_bytes (shared_secret sample_modpow (keypair_generate sample_modpow (replicate 20 1))
      (kp_public (keypair_generate sample_modpow (replicate 20 2)))) = Some sec"
    using DH_P_less [of "shared_secret _ _ _"] laws by (force simp: shared_secret_def dh_laws_def)
  have "length (sample_sha1 b) = 20" for b by (simp add: sample_sha1_def)
  then obtain ta tb ca cb where
    A: "\<forall>rest. mse_outgoing sample_modpow sample_sha1 (replicate 20 1) [] [] (replicate 20 5) \<lparr>s_in = tb @ rest, s_out = [], s_writable = True\<rparr> =
       (Inr (cb, ca), \<lparr>s_in = rest, s_out = ta, s_writable = True\<rparr>)"
    and B: "\<forall>n \<le> 96. \<forall>rest. mse_incoming sample_modpow sample_sha1 (replicate 20 2) [] [] [replicate 20 5] (take n ta)
       \<lparr>s_in = drop n ta @ rest, s_out = [], s_writable = True\<rparr> = (Inr ((ca, cb), replicate 20 5), \<lparr>s_in = rest, s_out = tb, s_writable = True\<rparr>)"
    using mse_agreement [OF laws _ _ _ _ _ keys keys sec, of sample_sha1 "[]" "[]" "[]" "[]" "replicate 20 5" "[replicate 20 5]"]
    by (auto simp: no_false_sync_def)
  show ?thesis using A B [rule_format, of 20 "[8]"] by (intro exI [of _ ta] exI [of _ tb] exI [of _ ca] exI [of _ cb]) simp
qed

end
