(* ===== verification/RT_Magnet.thy ===== *)
theory RT_Magnet
  imports RT_Metainfo RT_Net
begin

text \<open>
  Magnet links (\<open>src/src/magnet.rs\<close>): the parser of the URI, of the two spellings of an info-hash
  (40 hexadecimal or 32 base32 digits) and of percent escapes. Strings are their UTF-8 bytes.
\<close>

section \<open>The parser\<close>

record magnet_link =
  mg_info_hash :: bytes
  mg_display_name :: "bytes option"
  mg_trackers :: "bytes list"

definition hex_nibble :: "u8 \<Rightarrow> u8 res" where
  "hex_nibble c =
     (if 48 \<le> c \<and> c \<le> 57 then Inr (c - 48)
      else if 97 \<le> c \<and> c \<le> 102 then Inr (10 + c - 97)
      else if 65 \<le> c \<and> c \<le> 70 then Inr (10 + c - 65)
      else Inl (Bencode ''non-hex char in info_hash: 0x''))"

definition hex_byte :: "u8 \<Rightarrow> u8 \<Rightarrow> u8 res" where
  "hex_byte x y = rbind (hex_nibble x) (\<lambda>hi. rbind (hex_nibble y) (\<lambda>lo. Inr (push_bit 4 hi OR lo)))"

definition parse_hex_20 :: "bytes \<Rightarrow> bytes res" where
  "parse_hex_20 s = rmapM (\<lambda>chunk. hex_byte (chunk ! 0) (chunk ! 1)) (chunks 2 s)"

definition base32_value :: "u8 \<Rightarrow> u8 res" where
  "base32_value c =
     (if 65 \<le> c \<and> c \<le> 90 then Inr (c - 65)
      else if 97 \<le> c \<and> c \<le> 122 then Inr (c - 97)
      else if 50 \<le> c \<and> c \<le> 55 then Inr (26 + (c - 50))
      else Inl (Bencode ''non-base32 char in info_hash: 0x''))"

text \<open>The array \<open>out\<close> is the part written so far; writing past its end panics.\<close>

fun base32_loop :: "bytes \<Rightarrow> u32 \<Rightarrow> nat \<Rightarrow> bytes \<Rightarrow> bytes res" where
  "base32_loop [] bit_buf bits out =
     (if length out \<noteq> 20 then Inl (Bencode ''base32 info_hash decoded to '') else Inr out)"
| "base32_loop (c # cs) bit_buf bits out =
     rbind (base32_value c) (\<lambda>v.
       let bit_buf = push_bit 5 bit_buf OR ucast v; bits = bits + 5 in
       if 8 \<le> bits then
         let bits = bits - 8 in
         if length out \<ge> 20 then Inl (Panic ''index out of bounds'')
         else base32_loop cs bit_buf bits (out @ [ucast (drop_bit bits bit_buf AND 0xff)])
       else base32_loop cs bit_buf bits out)"

definition parse_base32_20 :: "bytes \<Rightarrow> bytes res" where
  "parse_base32_20 s = base32_loop s 0 0 []"

definition parse_info_hash :: "bytes \<Rightarrow> bytes res" where
  "parse_info_hash s =
     (if length s = 40 then parse_hex_20 s
      else if length s = 32 then parse_base32_20 s
      else Inl (Bencode ''info_hash must be 40 hex chars or 32 base32 chars, got ''))"

fun percent_decode :: "bytes \<Rightarrow> bytes res" where
  "percent_decode [] = Inr []"
| "percent_decode (b # bs) =
     (if b = 37 then
        (case bs of
           x # y # rest \<Rightarrow> rbind (hex_byte x y) (\<lambda>d. rbind (percent_decode rest) (\<lambda>ds. Inr (d # ds)))
         | _ \<Rightarrow> Inl (Bencode ''truncated %XX escape''))
      else rbind (percent_decode bs) (\<lambda>ds. Inr (b # ds)))"

definition strip_prefix :: "bytes \<Rightarrow> bytes \<Rightarrow> bytes option" where
  "strip_prefix p s = (if take (length p) s = p then Some (drop (length p) s) else None)"

definition split_once :: "u8 \<Rightarrow> bytes \<Rightarrow> (bytes \<times> bytes) option" where
  "split_once c s = map_option (\<lambda>i. (take i s, drop (Suc i) s)) (position (\<lambda>b. b = c) s)"

type_synonym magnet_state = "bytes option \<times> bytes option \<times> bytes list"

definition magnet_pair :: "bytes \<Rightarrow> magnet_state \<Rightarrow> magnet_state res" where
  "magnet_pair pair st =
     (if pair = [] then Inr st
      else case st of (info_hash, display_name, trs) \<Rightarrow>
        rbind (ok_or (split_once 61 pair) (Bencode ''magnet param missing `=`'')) (\<lambda>(k, v).
        rbind (percent_decode v) (\<lambda>decoded.
          if k = ascii ''xt'' then
            rbind (ensure (utf8_valid decoded) (Bencode ''magnet xt not utf-8'')) (\<lambda>_.
            rbind (ok_or (strip_prefix (ascii ''urn:btih:'') decoded) (Bencode ''xt missing urn:btih: prefix'')) (\<lambda>hash_str.
            rbind (parse_info_hash hash_str) (\<lambda>h. Inr (Some h, display_name, trs))))
          else if k = ascii ''dn'' then
            rbind (ensure (utf8_valid decoded) (Bencode ''magnet dn not utf-8'')) (\<lambda>_. Inr (info_hash, Some decoded, trs))
          else if k = ascii ''tr'' then
            rbind (ensure (utf8_valid decoded) (Bencode ''magnet tr not utf-8'')) (\<lambda>_. Inr (info_hash, display_name, trs @ [decoded]))
          else Inr st)))"

fun magnet_pairs :: "bytes list \<Rightarrow> magnet_state \<Rightarrow> magnet_state res" where
  "magnet_pairs [] st = Inr st"
| "magnet_pairs (p # ps) st = rbind (magnet_pair p st) (magnet_pairs ps)"

definition MAX_TRACKERS :: nat where "MAX_TRACKERS = 64"

definition magnet_parse :: "bytes \<Rightarrow> magnet_link res" where
  "magnet_parse uri =
     rbind (ok_or (strip_prefix (ascii ''magnet:?'') uri) (Bencode ''magnet URI must start with `magnet:?`'')) (\<lambda>query.
     rbind (magnet_pairs (split_on 38 query) (None, None, [])) (\<lambda>(info_hash, display_name, trs).
     rbind (ok_or info_hash (Bencode ''magnet URI missing required xt=urn:btih:'')) (\<lambda>ih.
       Inr \<lparr>mg_info_hash = ih, mg_display_name = display_name,
            mg_trackers = take MAX_TRACKERS (foldl push_new [] trs)\<rparr>)))"

section \<open>Positional values\<close>

text \<open>The number a string of digits stands for; \<open>dig\<close> gives the value of a digit, \<open>r\<close> is the base.\<close>

definition radix_step :: "(u8 \<Rightarrow> u8 res) \<Rightarrow> nat \<Rightarrow> nat option \<Rightarrow> u8 \<Rightarrow> nat option" where
  "radix_step dig r acc c =
     (case (acc, dig c) of (Some n, Inr d) \<Rightarrow> Some (n * r + unat d) | _ \<Rightarrow> None)"

definition radix_value :: "(u8 \<Rightarrow> u8 res) \<Rightarrow> nat \<Rightarrow> bytes \<Rightarrow> nat option" where
  "radix_value dig r s = foldl (radix_step dig r) (Some 0) s"

lemma radix_step_simps [simp]:
  "radix_step dig r None c = None"
  "radix_step dig r (Some n) c = (case dig c of Inr d \<Rightarrow> Some (n * r + unat d) | Inl _ \<Rightarrow> None)"
  by (auto simp: radix_step_def split: sum.splits)

lemma radix_None [simp]: "foldl (radix_step dig r) None s = None"
  by (induction s) auto

lemma hex_nibble_less: "hex_nibble c = Inr v \<Longrightarrow> unat v < 16"
proof -
  assume h: "hex_nibble c = Inr v"
  have "v < 16" using h unfolding hex_nibble_def
    by (auto split: if_splits simp: word_less_nat_alt word_le_nat_alt unat_sub_if_size unat_word_ariths)
  then show ?thesis by (simp add: word_less_nat_alt)
qed

lemma base32_value_less: "base32_value c = Inr v \<Longrightarrow> unat v < 32"
proof -
  assume h: "base32_value c = Inr v"
  have "v < 32" using h unfolding base32_value_def
    by (auto split: if_splits simp: word_less_nat_alt word_le_nat_alt unat_sub_if_size unat_word_ariths)
  then show ?thesis by (simp add: word_less_nat_alt)
qed

lemma or_disjoint_add: "m < 2 ^ k \<Longrightarrow> push_bit k n OR m = n * 2 ^ k + (m :: nat)"
proof -
  assume m: "m < 2 ^ k"
  have "push_bit k n AND m = 0"
  proof (rule bit_eqI)
    fix i
    have "\<not> bit m i" if "k \<le> i"
    proof -
      have "m < 2 ^ i" using m that by (meson less_le_trans power_increasing one_le_numeral)
      then show ?thesis by (simp add: bit_iff_odd)
    qed
    then show "bit (push_bit k n AND m) i = bit 0 i" by (auto simp: bit_simps)
  qed
  then have "push_bit k n OR m = push_bit k n + m" by (simp add: disjunctive_add_eq_or)
  then show ?thesis by (simp add: push_bit_eq_mult)
qed

lemma unat_push_or:
  fixes w v :: "'a::len word"
  assumes "unat w * 2 ^ k < 2 ^ LENGTH('a)" "unat v < 2 ^ k"
  shows "unat (push_bit k w OR v) = unat w * 2 ^ k + unat v"
proof -
  have "unat (push_bit k w) = push_bit k (unat w)"
    unfolding unsigned_push_bit_eq using assms(1) by (simp add: push_bit_eq_mult take_bit_nat_eq_self)
  then show ?thesis using or_disjoint_add [OF assms(2)] by (simp add: unsigned_or_eq)
qed

lemma hex_byte_value:
  assumes "hex_nibble x = Inr hi" "hex_nibble y = Inr lo"
  shows "hex_byte x y = Inr (push_bit 4 hi OR lo)" "unat (push_bit 4 hi OR lo) = unat hi * 16 + unat lo"
  using hex_nibble_less [OF assms(1)] hex_nibble_less [OF assms(2)] unat_push_or [of hi 4 lo] assms
  by (auto simp: hex_byte_def)

lemma hex_byte_Inr:
  "hex_byte x y = Inr b \<longleftrightarrow>
     (\<exists>hi lo. hex_nibble x = Inr hi \<and> hex_nibble y = Inr lo \<and> unat b = unat hi * 16 + unat lo)"
proof
  assume "hex_byte x y = Inr b"
  then show "\<exists>hi lo. hex_nibble x = Inr hi \<and> hex_nibble y = Inr lo \<and> unat b = unat hi * 16 + unat lo"
    using hex_byte_value(2) by (auto simp: hex_byte_def)
next
  assume "\<exists>hi lo. hex_nibble x = Inr hi \<and> hex_nibble y = Inr lo \<and> unat b = unat hi * 16 + unat lo"
  then show "hex_byte x y = Inr b" using hex_byte_value by (auto simp: word_unat_eq_iff)
qed

section \<open>The two spellings of an info-hash\<close>

lemma hex_sound:
  "rmapM (\<lambda>chunk. hex_byte (chunk ! 0) (chunk ! 1)) (chunks 2 s) = Inr h \<Longrightarrow> length s = 2 * k \<Longrightarrow>
     length h = k \<and> foldl (radix_step hex_nibble 16) (Some n) s = Some (foldl (\<lambda>n b. n * 256 + unat b) n h)"
proof (induction k arbitrary: s n h)
  case (Suc k)
  obtain x y t where s: "s = [x, y] @ t" "length t = 2 * k"
    using Suc.prems(2) by (cases s rule: list.exhaust; cases "List.tl s") auto
  have "chunks 2 s = [x, y] # chunks 2 t" unfolding s by (rule chunks_append) simp_all
  then obtain b bs where h: "h = b # bs" and b: "hex_byte x y = Inr b"
      and bs: "rmapM (\<lambda>chunk. hex_byte (chunk ! 0) (chunk ! 1)) (chunks 2 t) = Inr bs"
    using Suc.prems(1) by auto
  show ?case using b Suc.IH [OF bs s(2)] s(1) h
    by (auto simp: hex_byte_Inr algebra_simps)
qed simp

lemma hex_complete:
  "foldl (radix_step hex_nibble 16) (Some n) s = Some v \<Longrightarrow> length s = 2 * k \<Longrightarrow>
     \<exists>h. rmapM (\<lambda>chunk. hex_byte (chunk ! 0) (chunk ! 1)) (chunks 2 s) = Inr h"
proof (induction k arbitrary: s n)
  case (Suc k)
  obtain x y t where s: "s = [x, y] @ t" "length t = 2 * k"
    using Suc.prems(2) by (cases s rule: list.exhaust; cases "List.tl s") auto
  have ch: "chunks 2 s = [x, y] # chunks 2 t" unfolding s by (rule chunks_append) simp_all
  obtain hi lo where d: "hex_nibble x = Inr hi" "hex_nibble y = Inr lo"
    using Suc.prems(1) s(1) by (auto split: sum.splits)
  then have "foldl (radix_step hex_nibble 16) (Some ((n * 16 + unat hi) * 16 + unat lo)) t = Some v"
    using Suc.prems(1) s(1) by simp
  from Suc.IH [OF this s(2)] show ?case using ch hex_byte_value(1) [OF d] by auto
qed simp

lemma parse_hex_20_iff:
  assumes "length s = 40"
  shows "parse_hex_20 s = Inr h \<longleftrightarrow> length h = 20 \<and> radix_value hex_nibble 16 s = Some (be_nat h)"
proof
  assume "parse_hex_20 s = Inr h"
  then show "length h = 20 \<and> radix_value hex_nibble 16 s = Some (be_nat h)"
    using hex_sound [of s h 20 0] assms by (simp add: parse_hex_20_def radix_value_def be_nat_def)
next
  assume r: "length h = 20 \<and> radix_value hex_nibble 16 s = Some (be_nat h)"
  then obtain g where g: "parse_hex_20 s = Inr g"
    using hex_complete [of 0 s _ 20] assms by (auto simp: parse_hex_20_def radix_value_def)
  then have "length g = 20" "radix_value hex_nibble 16 s = Some (be_nat g)"
    using hex_sound [of s g 20 0] assms by (auto simp: parse_hex_20_def radix_value_def be_nat_def)
  with r g show "parse_hex_20 s = Inr h" using be_nat_inj [of g h] by simp
qed

text \<open>One digit of the base32 loop: the low bits of the buffer are the bits not yet written.\<close>

lemma buf_step:
  fixes buf :: u32 and v :: u8
  assumes "unat v < 32" "bits < 8"
  shows "unat (push_bit 5 buf OR ucast v :: u32) mod 2 ^ (bits + 5) = (unat buf mod 2 ^ bits) * 32 + unat v"
proof -
  let ?w = "ucast v :: u32"
  have v: "unat ?w = unat v"
    unfolding unsigned_ucast_eq using assms(1) by (intro take_bit_nat_eq_self) simp
  have "unat (push_bit 5 buf) = take_bit 32 (push_bit 5 (unat buf))"
    unfolding unsigned_push_bit_eq by simp
  then have "unat (push_bit 5 buf OR ?w) = take_bit 32 (push_bit 5 (unat buf)) OR unat v"
    unfolding unsigned_or_eq v by simp
  also have "take_bit (bits + 5) \<dots> = take_bit (bits + 5) (push_bit 5 (unat buf)) OR take_bit (bits + 5) (unat v)"
    using assms(2) by (simp add: take_bit_or min_def)
  also have "take_bit (bits + 5) (unat v) = unat v"
    using assms(1) by (intro take_bit_nat_eq_self less_le_trans [OF assms(1)]) (simp add: power_add)
  also have "take_bit (bits + 5) (push_bit 5 (unat buf)) = push_bit 5 (take_bit bits (unat buf))"
    by (simp add: push_bit_take_bit add.commute)
  also have "\<dots> OR unat v = take_bit bits (unat buf) * 2 ^ 5 + unat v"
    using assms(1) by (intro or_disjoint_add) simp
  finally show ?thesis by (simp add: take_bit_eq_mod)
qed

lemma unat_low_byte: "unat (ucast (drop_bit k (x :: u32) AND 0xff) :: u8) = (unat x div 2 ^ k) mod 256"
proof -
  have "unat x < 2 ^ LENGTH(32)" by (rule unsigned_less)
  then have x: "take_bit 32 (unat x) = unat x" by (intro take_bit_nat_eq_self) simp
  have "drop_bit k x AND 0xff = take_bit 8 (drop_bit k x)"
    using take_bit_eq_mask [of 8 "drop_bit k x"] by (simp add: mask_eq_exp_minus_1)
  then have "unat (ucast (drop_bit k x AND 0xff) :: u8) = take_bit 8 (unat (take_bit 8 (drop_bit k x)))"
    by (simp add: unsigned_ucast_eq)
  also have "take_bit 8 (unat (take_bit 8 (drop_bit k x))) = take_bit 8 (drop_bit k (unat x))"
    using x by (simp add: unsigned_take_bit_eq unsigned_drop_bit_eq)
  also have "\<dots> = (unat x div 2 ^ k) mod 256" by (simp add: take_bit_eq_mod drop_bit_eq_div)
  finally show ?thesis .
qed

lemma split_bits: "(x :: nat) mod 2 ^ (b + 8) = ((x div 2 ^ b) mod 256) * 2 ^ b + x mod 2 ^ b"
proof -
  have "x mod (2 ^ b * 2 ^ 8) = 2 ^ b * (x div 2 ^ b mod 2 ^ 8) + x mod 2 ^ b" by (rule mod_mult2_eq)
  then show ?thesis by (simp add: power_add mult.commute)
qed

lemma base32_loop_iff:
  assumes "bits < 8" "8 * length out + bits + 5 * length s = 160"
    and "n = be_nat out * 2 ^ bits + unat buf mod 2 ^ bits"
  shows "(\<forall>v. foldl (radix_step base32_value 32) (Some n) s = Some v \<longrightarrow>
            (\<exists>h. base32_loop s buf bits out = Inr h \<and> length h = 20 \<and> be_nat h = v)) \<and>
         (foldl (radix_step base32_value 32) (Some n) s = None \<longrightarrow> (\<exists>e. base32_loop s buf bits out = Inl e))"
  using assms
proof (induction s arbitrary: buf bits out n)
  case Nil
  then have "bits = 0" by simp presburger
  with Nil show ?case by auto
next
  case (Cons c s)
  show ?case
  proof (cases "base32_value c")
    case (Inr v)
    let ?buf = "push_bit 5 buf OR ucast v :: u32"
    have low: "unat ?buf mod 2 ^ (bits + 5) = (unat buf mod 2 ^ bits) * 32 + unat v"
      using buf_step [OF base32_value_less [OF Inr] Cons.prems(1)] .
    have n: "n * 32 + unat v = be_nat out * 2 ^ (bits + 5) + unat ?buf mod 2 ^ (bits + 5)"
      unfolding low Cons.prems(3) by (simp add: power_add algebra_simps)
    show ?thesis
    proof (cases "8 \<le> bits + 5")
      case True
      let ?b = "bits + 5 - 8"
      let ?out = "out @ [ucast (drop_bit ?b ?buf AND 0xff)]"
      have b: "bits + 5 = ?b + 8" using True by simp
      have p: "(2 :: nat) ^ (bits + 5) = 2 ^ ?b * 256" by (subst b) (simp add: power_add)
      have "n * 32 + unat v = be_nat ?out * 2 ^ ?b + unat ?buf mod 2 ^ ?b"
        unfolding n be_nat_snoc unat_low_byte using split_bits [of "unat ?buf" ?b, folded b]
        unfolding p by (simp add: algebra_simps)
      from Cons.IH [OF _ _ this] Cons.prems(1,2) True Inr
      show ?thesis by (auto simp: Let_def)
    next
      case False
      from Cons.IH [OF _ _ n] Cons.prems(2) False Inr show ?thesis by (auto simp: Let_def)
    qed
  qed auto
qed

lemma parse_base32_20_iff:
  assumes "length s = 32"
  shows "parse_base32_20 s = Inr h \<longleftrightarrow> length h = 20 \<and> radix_value base32_value 32 s = Some (be_nat h)"
proof -
  note L = base32_loop_iff [of 0 "[]" s 0 0]
  show ?thesis
  proof (cases "radix_value base32_value 32 s")
    case None
    then show ?thesis using L assms by (auto simp: parse_base32_20_def radix_value_def be_nat_def)
  next
    case (Some v)
    then obtain g where "parse_base32_20 s = Inr g" "length g = 20" "be_nat g = v"
      using L assms by (auto simp: parse_base32_20_def radix_value_def be_nat_def)
    then show ?thesis using Some be_nat_inj [of g h] by auto
  qed
qed

section \<open>The grammar of magnet links\<close>

text \<open>
  Percent-encoded text: any byte but \<open>%\<close> stands for itself, an escape for the byte its two hexadecimal
  digits spell, in either case.
\<close>

inductive pct :: "bytes \<Rightarrow> bytes \<Rightarrow> bool" where
  pct_Nil: "pct [] []"
| pct_plain: "b \<noteq> 37 \<Longrightarrow> pct s d \<Longrightarrow> pct (b # s) (b # d)"
| pct_escape: "radix_value hex_nibble 16 [x, y] = Some (unat b) \<Longrightarrow> pct s d \<Longrightarrow> pct (37 # x # y # s) (b # d)"

inductive_cases pct_ConsE: "pct (b # s) d"
inductive_cases pct_NilE: "pct [] d"

lemma hex_byte_radix: "hex_byte x y = Inr b \<longleftrightarrow> radix_value hex_nibble 16 [x, y] = Some (unat b)"
  by (auto simp: hex_byte_Inr radix_value_def split: sum.splits)

lemma percent_decode_iff: "percent_decode s = Inr d \<longleftrightarrow> pct s d"
proof
  show "percent_decode s = Inr d \<Longrightarrow> pct s d"
  proof (induction s arbitrary: d rule: percent_decode.induct)
    case (2 b bs)
    then show ?case
      by (auto split: if_splits list.splits simp: hex_byte_radix intro: pct.intros)
  qed (auto intro: pct.intros)
  show "pct s d \<Longrightarrow> percent_decode s = Inr d"
    by (induction rule: pct.induct) (auto simp: hex_byte_radix [symmetric])
qed

text \<open>The spellings of an info-hash: its value as a number in base 16 or in base 32.\<close>

definition spells :: "bytes \<Rightarrow> bytes \<Rightarrow> bool" where
  "spells s ih \<longleftrightarrow> length ih = 20 \<and>
     (length s = 40 \<and> radix_value hex_nibble 16 s = Some (be_nat ih) \<or>
      length s = 32 \<and> radix_value base32_value 32 s = Some (be_nat ih))"

lemma parse_info_hash_iff: "parse_info_hash s = Inr ih \<longleftrightarrow> spells s ih"
  using parse_hex_20_iff [of s ih] parse_base32_20_iff [of s ih]
  by (auto simp: parse_info_hash_def spells_def)

lemma radix_digits: "foldl (radix_step dig r) (Some n) s = Some v \<Longrightarrow> list_all (\<lambda>c. \<exists>d. dig c = Inr d) s"
  by (induction s arbitrary: n) (auto split: sum.splits)

lemma digit_ascii: "hex_nibble c = Inr d \<Longrightarrow> c < 128" "base32_value c = Inr d \<Longrightarrow> c < 128"
  unfolding hex_nibble_def base32_value_def by (auto split: if_splits intro: le_less_trans)

lemma spells_ascii: "spells s ih \<Longrightarrow> list_all (\<lambda>b. b < 128) s"
  using radix_digits [of hex_nibble 16 0 s] radix_digits [of base32_value 32 0 s] digit_ascii
  unfolding spells_def radix_value_def list_all_iff by metis

text \<open>
  The parameters of a link, oldest first, with what they add up to: the info-hash and the name of the
  last \<open>xt\<close> and \<open>dn\<close>, and all \<open>tr\<close> values in order. Empty parameters and unknown keys change nothing.
\<close>

inductive magnet_params :: "bytes list \<Rightarrow> bytes option \<Rightarrow> bytes option \<Rightarrow> bytes list \<Rightarrow> bool" where
  mp_Nil: "magnet_params [] None None []"
| mp_empty: "magnet_params ps h n ts \<Longrightarrow> magnet_params (ps @ [[]]) h n ts"
| mp_xt: "magnet_params ps h n ts \<Longrightarrow> pct v (ascii ''urn:btih:'' @ s) \<Longrightarrow> spells s ih \<Longrightarrow>
     magnet_params (ps @ [ascii ''xt='' @ v]) (Some ih) n ts"
| mp_dn: "magnet_params ps h n ts \<Longrightarrow> pct v d \<Longrightarrow> utf8_valid d \<Longrightarrow>
     magnet_params (ps @ [ascii ''dn='' @ v]) h (Some d) ts"
| mp_tr: "magnet_params ps h n ts \<Longrightarrow> pct v d \<Longrightarrow> utf8_valid d \<Longrightarrow>
     magnet_params (ps @ [ascii ''tr='' @ v]) h n (ts @ [d])"
| mp_other: "magnet_params ps h n ts \<Longrightarrow> pct v d \<Longrightarrow> 61 \<notin> set k \<Longrightarrow>
     k \<notin> {ascii ''xt'', ascii ''dn'', ascii ''tr''} \<Longrightarrow> magnet_params (ps @ [k @ 61 # v]) h n ts"

inductive_cases magnet_params_snocE: "magnet_params (ps @ [p]) h n ts"
inductive_cases magnet_params_NilE: "magnet_params [] h n ts"

lemma strip_prefix_Some: "strip_prefix p s = Some r \<longleftrightarrow> s = p @ r"
  unfolding strip_prefix_def by (auto, metis append_take_drop_id)

lemma split_once_Some: "split_once c s = Some (k, v) \<longleftrightarrow> s = k @ c # v \<and> c \<notin> set k"
proof
  assume "split_once c s = Some (k, v)"
  then obtain i where i: "position (\<lambda>b. b = c) s = Some i" "k = take i s" "v = drop (Suc i) s"
    by (auto simp: split_once_def)
  have "i < length s" "s ! i = c" "\<forall>j < i. s ! j \<noteq> c" using position_SomeD [OF i(1)] by auto
  then show "s = k @ c # v \<and> c \<notin> set k"
    using i(2,3) by (auto simp: id_take_nth_drop [symmetric] in_set_conv_nth)
next
  assume "s = k @ c # v \<and> c \<notin> set k"
  then have "position (\<lambda>b. b = c) s = Some (length k)" by (auto intro!: position_append)
  then show "split_once c s = Some (k, v)" using \<open>s = k @ c # v \<and> c \<notin> set k\<close> by (auto simp: split_once_def)
qed

lemma magnet_pairs_snoc: "magnet_pairs (ps @ [p]) st = rbind (magnet_pairs ps st) (magnet_pair p)"
  by (induction ps arbitrary: st) (auto simp: rbind_assoc rbind_def split: sum.splits)

lemma xt_utf8: "spells s ih \<Longrightarrow> utf8_valid (ascii ''urn:btih:'' @ s)"
  by (intro utf8_ascii) (simp add: spells_ascii, code_simp)

lemma magnet_pair_iff:
  "magnet_pair p (h, n, ts) = Inr (h', n', ts') \<longleftrightarrow>
     p = [] \<and> h' = h \<and> n' = n \<and> ts' = ts \<or>
     (\<exists>v s ih. p = ascii ''xt='' @ v \<and> pct v (ascii ''urn:btih:'' @ s) \<and> spells s ih \<and> h' = Some ih \<and> n' = n \<and> ts' = ts) \<or>
     (\<exists>v d. p = ascii ''dn='' @ v \<and> pct v d \<and> utf8_valid d \<and> h' = h \<and> n' = Some d \<and> ts' = ts) \<or>
     (\<exists>v d. p = ascii ''tr='' @ v \<and> pct v d \<and> utf8_valid d \<and> h' = h \<and> n' = n \<and> ts' = ts @ [d]) \<or>
     (\<exists>k v d. p = k @ 61 # v \<and> 61 \<notin> set k \<and> k \<notin> {ascii ''xt'', ascii ''dn'', ascii ''tr''} \<and> pct v d \<and>
        h' = h \<and> n' = n \<and> ts' = ts)" (is "?L \<longleftrightarrow> ?R")
proof -
  have key: "ascii ''xt='' = ascii ''xt'' @ [61]" "ascii ''dn='' = ascii ''dn'' @ [61]"
      "ascii ''tr='' = ascii ''tr'' @ [61]"
    and no: "61 \<notin> set (ascii ''xt'')" "61 \<notin> set (ascii ''dn'')" "61 \<notin> set (ascii ''tr'')"
    by (simp_all add: ascii_def)
  show ?thesis
proof (cases "split_once 61 p")
  case None
  have nn: "p \<noteq> k @ 61 # v" if "61 \<notin> set k" for k v using None split_once_Some [of 61 p k v] that by auto
  have nk: "(p = ascii ''xt='' @ v) = False" "(p = ascii ''dn='' @ v) = False" "(p = ascii ''tr='' @ v) = False"
      "(p = k @ 61 # v \<and> 61 \<notin> set k \<and> Q) = False" for k v Q
    unfolding key append_assoc append_Cons append_Nil using nn [OF no(1)] nn [OF no(2)] nn [OF no(3)] nn [of k v] by auto
  have "?R \<longleftrightarrow> p = [] \<and> h' = h \<and> n' = n \<and> ts' = ts" unfolding nk by simp
  then show ?thesis using None by (auto simp: magnet_pair_def)
next
  case (Some kv)
  obtain k v where kv: "kv = (k, v)" by fastforce
  have p: "p = k @ 61 # v" "61 \<notin> set k" using Some kv split_once_Some by auto
  have inj: "k' = k \<and> v' = v" if "p = k' @ 61 # v'" "61 \<notin> set k'" for k' v'
    using Some kv split_once_Some [of 61 p k' v'] that by auto
  have e: "(p = ascii ''xt='' @ v') = (k = ascii ''xt'' \<and> v' = v)" "(p = ascii ''dn='' @ v') = (k = ascii ''dn'' \<and> v' = v)"
      "(p = ascii ''tr='' @ v') = (k = ascii ''tr'' \<and> v' = v)" "(p = k' @ 61 # v' \<and> 61 \<notin> set k' \<and> Q) = (k' = k \<and> v' = v \<and> Q)" for k' v' Q
    unfolding key append_assoc append_Cons append_Nil
    using p inj [OF _ no(1)] inj [OF _ no(2)] inj [OF _ no(3)] inj [of k' v'] by blast+
  have ne: "(p = []) = False" using p by simp
  have R: "?R \<longleftrightarrow>
     (\<exists>s ih. k = ascii ''xt'' \<and> pct v (ascii ''urn:btih:'' @ s) \<and> spells s ih \<and> h' = Some ih \<and> n' = n \<and> ts' = ts) \<or>
     (\<exists>d. k = ascii ''dn'' \<and> pct v d \<and> utf8_valid d \<and> h' = h \<and> n' = Some d \<and> ts' = ts) \<or>
     (\<exists>d. k = ascii ''tr'' \<and> pct v d \<and> utf8_valid d \<and> h' = h \<and> n' = n \<and> ts' = ts @ [d]) \<or>
     (\<exists>d. k \<notin> {ascii ''xt'', ascii ''dn'', ascii ''tr''} \<and> pct v d \<and> h' = h \<and> n' = n \<and> ts' = ts)"
    unfolding e ne by auto
  have L: "?L \<longleftrightarrow> (\<exists>d. pct v d \<and>
      (if k = ascii ''xt'' then \<exists>s ih. utf8_valid d \<and> d = ascii ''urn:btih:'' @ s \<and> spells s ih \<and> h' = Some ih \<and> n' = n \<and> ts' = ts
       else if k = ascii ''dn'' then utf8_valid d \<and> h' = h \<and> n' = Some d \<and> ts' = ts
       else if k = ascii ''tr'' then utf8_valid d \<and> h' = h \<and> n' = n \<and> ts' = ts @ [d]
       else h' = h \<and> n' = n \<and> ts' = ts))"
    using ne Some kv
    by (auto simp: magnet_pair_def percent_decode_iff strip_prefix_Some parse_info_hash_iff)
  show ?thesis unfolding L R using xt_utf8 by (auto split: if_splits)
qed
qed

lemma magnet_pairs_iff:
  "magnet_pairs ps (None, None, []) = Inr (h, n, ts) \<longleftrightarrow> magnet_params ps h n ts"
proof (induction ps arbitrary: h n ts rule: rev_induct)
  case Nil
  then show ?case by (auto intro: magnet_params.intros elim: magnet_params_NilE)
next
  case (snoc p ps)
  have "magnet_pairs (ps @ [p]) (None, None, []) = Inr (h, n, ts) \<longleftrightarrow>
    (\<exists>h0 n0 ts0. magnet_params ps h0 n0 ts0 \<and> magnet_pair p (h0, n0, ts0) = Inr (h, n, ts))"
    using snoc.IH by (auto simp: magnet_pairs_snoc)
  also have "\<dots> \<longleftrightarrow> magnet_params (ps @ [p]) h n ts"
  proof
    assume "\<exists>h0 n0 ts0. magnet_params ps h0 n0 ts0 \<and> magnet_pair p (h0, n0, ts0) = Inr (h, n, ts)"
    then show "magnet_params (ps @ [p]) h n ts"
      unfolding magnet_pair_iff by (auto intro: magnet_params.intros)
  next
    assume "magnet_params (ps @ [p]) h n ts"
    then show "\<exists>h0 n0 ts0. magnet_params ps h0 n0 ts0 \<and> magnet_pair p (h0, n0, ts0) = Inr (h, n, ts)"
      unfolding magnet_pair_iff by (rule magnet_params_snocE) blast+
  qed
  finally show ?case .
qed

section \<open>Magnet links are read exactly by their grammar\<close>

fun join_with :: "u8 \<Rightarrow> bytes list \<Rightarrow> bytes" where
  "join_with c [] = []"
| "join_with c [p] = p"
| "join_with c (p # q # ps) = p @ c # join_with c (q # ps)"

lemma join_split: "join_with c (split_on c q) = q \<and> list_all (\<lambda>p. c \<notin> set p) (split_on c q)"
proof (induction q)
  case (Cons b q)
  obtain s ss where s: "split_on c q = s # ss" using split_on_nonempty by (cases "split_on c q") auto
  have "join_with c ((b # s) # ss) = b # join_with c (s # ss)" by (cases ss) auto
  then show ?case using Cons s by auto
qed simp

lemma split_join: "ps \<noteq> [] \<Longrightarrow> list_all (\<lambda>p. c \<notin> set p) ps \<Longrightarrow> split_on c (join_with c ps) = ps"
  by (induction c ps rule: join_with.induct) (auto simp: split_on_plain split_on_append)

lemma split_on_iff: "split_on c q = ps \<longleftrightarrow> ps \<noteq> [] \<and> list_all (\<lambda>p. c \<notin> set p) ps \<and> q = join_with c ps"
  using join_split [of c q] split_join [of ps c] by auto

lemma magnet_trackers_bounded:
  assumes "magnet_parse uri = Inr m"
  shows "length (mg_trackers m) \<le> 64" and "distinct (mg_trackers m)" and "length (mg_info_hash m) = 20"
proof -
  obtain ps ih n ts where p: "magnet_params ps (Some ih) n ts"
      and m: "m = \<lparr>mg_info_hash = ih, mg_display_name = n, mg_trackers = take 64 (foldl push_new [] ts)\<rparr>"
    using assms by (auto simp: magnet_parse_def MAX_TRACKERS_def magnet_pairs_iff)
  have "h = Some ih' \<Longrightarrow> length ih' = 20" if "magnet_params qs h n' ts'" for qs h n' ts' ih'
    using that by (induction rule: magnet_params.induct) (auto simp: spells_def)
  then show "length (mg_info_hash m) = 20" using p m by auto
  show "length (mg_trackers m) \<le> 64" "distinct (mg_trackers m)" using m foldl_push_new [of "[]" ts] by auto
qed


end
