(* ===== verification/RT_Extension.thy ===== *)
theory RT_Extension
  imports RT_Bencode RT_Net
begin

text \<open>
  The payloads of the extension protocol (\<open>src/src/peer/extension.rs\<close>): the extension handshake, the
  messages that transfer torrent metadata, and the peer exchange lists.
\<close>

section \<open>The extension handshake\<close>

definition METADATA_PIECE_SIZE :: nat where "METADATA_PIECE_SIZE = 16384"
definition OUR_UT_METADATA_ID :: u8 where "OUR_UT_METADATA_ID = 1"
definition OUR_UT_PEX_ID :: u8 where "OUR_UT_PEX_ID = 2"
definition EXT_HANDSHAKE_ID :: u8 where "EXT_HANDSHAKE_ID = 0"
definition MAX_METADATA_SIZE :: int where "MAX_METADATA_SIZE = 100 * 1024 * 1024"

text \<open>The version string of the package, which the build inserts, is an argument.\<close>

definition build_handshake_payload :: "bytes \<Rightarrow> bool \<Rightarrow> bytes" where
  "build_handshake_payload version anonymous =
     (let m_map = btree_insert (ascii ''ut_metadata'') (BInt (uint OUR_UT_METADATA_ID)) [];
          m_map = btree_insert (ascii ''ut_pex'') (BInt (uint OUR_UT_PEX_ID)) m_map;
          root = btree_insert (ascii ''m'') (BDict m_map) [];
          root = (if anonymous then root
                  else btree_insert (ascii ''reqq'') (BInt 0)
                    (btree_insert (ascii ''v'') (BBytes (ascii ''rustytorrent '' @ version)) root))
      in to_bytes (BDict root))"

record peer_extension_info =
  their_ut_metadata_id :: "u8 option"
  their_ut_pex_id :: "u8 option"
  metadata_size :: "u32 option"

definition ut_metadata_id_from :: "(bytes, bvalue) btree \<Rightarrow> u8 option res" where
  "ut_metadata_id_from m_dict =
     (case btree_get m_dict (ascii ''ut_metadata'') of
        None \<Rightarrow> Inr None
      | Some v \<Rightarrow>
          rbind (map_err (as_int v) (\<lambda>_. Network ''ut_metadata id not int'')) (\<lambda>i.
          rbind (ensure (0 \<le> i \<and> i \<le> 255) (Network ''ut_metadata id out of range: '')) (\<lambda>_.
          Inr (if i \<noteq> 0 then Some (of_int i) else None))))"

definition ut_pex_id_from :: "(bytes, bvalue) btree \<Rightarrow> u8 option res" where
  "ut_pex_id_from m_dict =
     (case btree_get m_dict (ascii ''ut_pex'') of
        None \<Rightarrow> Inr None
      | Some v \<Rightarrow>
          rbind (map_err (as_int v) (\<lambda>_. Network ''ut_pex id not int'')) (\<lambda>i.
          Inr (if 1 \<le> i \<and> i \<le> 255 then Some (of_int i) else None)))"

definition extension_ids_from :: "(bytes, bvalue) btree \<Rightarrow> (u8 option \<times> u8 option) res" where
  "extension_ids_from d =
     (case btree_get d (ascii ''m'') of
        None \<Rightarrow> Inr (None, None)
      | Some m \<Rightarrow>
          rbind (map_err (as_dict m) (\<lambda>_. Network ''ext handshake `m` not a dict'')) (\<lambda>m_dict.
          rbind (ut_metadata_id_from m_dict) (\<lambda>md.
          rbind (ut_pex_id_from m_dict) (\<lambda>px. Inr (md, px)))))"

definition metadata_size_from :: "(bytes, bvalue) btree \<Rightarrow> u32 option res" where
  "metadata_size_from d =
     (case btree_get d (ascii ''metadata_size'') of
        None \<Rightarrow> Inr None
      | Some sz \<Rightarrow>
          rbind (map_err (as_int sz) (\<lambda>_. Network ''metadata_size not int'')) (\<lambda>n.
          rbind (ensure (n > 0) (Network ''metadata_size non-positive: '')) (\<lambda>_.
          rbind (ensure (n \<le> MAX_METADATA_SIZE) (Network ''metadata_size too large: '')) (\<lambda>_.
          Inr (Some (of_int n))))))"

definition parse_handshake_payload :: "bytes \<Rightarrow> peer_extension_info res" where
  "parse_handshake_payload payload =
     rbind (map_err (parse_all payload) (\<lambda>_. Network ''ext handshake bencode: '')) (\<lambda>root.
     rbind (map_err (as_dict root) (\<lambda>_. Network ''ext handshake not a dict'')) (\<lambda>d.
     rbind (extension_ids_from d) (\<lambda>(md, px).
     rbind (metadata_size_from d) (\<lambda>sz.
     Inr \<lparr>their_ut_metadata_id = md, their_ut_pex_id = px, metadata_size = sz\<rparr>))))"

section \<open>Metadata messages\<close>

definition build_metadata_request :: "u32 \<Rightarrow> bytes" where
  "build_metadata_request piece =
     to_bytes (BDict (btree_insert (ascii ''piece'') (BInt (uint piece)) (btree_insert (ascii ''msg_type'') (BInt 0) [])))"

datatype metadata_response =
    MData (md_piece: u32) (md_total_size: u32) (md_data: bytes)
  | MReject u32
  | MOther

definition int_field :: "(bytes, bvalue) btree \<Rightarrow> string \<Rightarrow> string \<Rightarrow> string \<Rightarrow> int res" where
  "int_field d k missing not_int =
     rbind (ok_or (btree_get d (ascii k)) (Network missing)) (\<lambda>v. map_err (as_int v) (\<lambda>_. Network not_int))"

definition parse_metadata_response :: "bytes \<Rightarrow> metadata_response res" where
  "parse_metadata_response payload =
     rbind (map_err (parse_value payload) (\<lambda>_. Network ''ut_metadata bencode: '')) (\<lambda>(dict, rest).
     rbind (map_err (as_dict dict) (\<lambda>_. Network ''ut_metadata not a dict'')) (\<lambda>d.
     rbind (int_field d ''msg_type'' ''ut_metadata missing msg_type'' ''ut_metadata msg_type not int'') (\<lambda>msg_type.
     rbind (int_field d ''piece'' ''ut_metadata missing piece'' ''ut_metadata piece not int'') (\<lambda>piece.
     rbind (ensure (0 \<le> piece \<and> piece \<le> int u32_max) (Network ''ut_metadata piece OOR: '')) (\<lambda>_.
     if msg_type = 0 then Inr MOther
     else if msg_type = 1 then
       rbind (int_field d ''total_size'' ''ut_metadata data missing total_size'' ''ut_metadata total_size not int'') (\<lambda>total_size.
       rbind (ensure (0 < total_size \<and> total_size \<le> 100 * 1024 * 1024) (Network ''ut_metadata total_size implausible: '')) (\<lambda>_.
       Inr (MData (of_int piece) (of_int total_size) rest)))
     else if msg_type = 2 then Inr (MReject (of_int piece))
     else Inr MOther)))))"

section \<open>Peer exchange\<close>

definition PEX_MAX_ENTRIES_PER_DIRECTION :: nat where "PEX_MAX_ENTRIES_PER_DIRECTION = 50"

fun split_v4_v6 :: "socket_addr list \<Rightarrow> socket_addr list \<times> socket_addr list" where
  "split_v4_v6 [] = ([], [])"
| "split_v4_v6 (a # addrs) =
     (case split_v4_v6 addrs of (v4, v6) \<Rightarrow>
        (case sa_ip a of V4 _ _ _ _ \<Rightarrow> (a # v4, v6) | V6 _ \<Rightarrow> (v4, a # v6)))"

fun ip_octets :: "ip_addr \<Rightarrow> bytes" where
  "ip_octets (V4 a b c d) = [a, b, c, d]"
| "ip_octets (V6 segs) = concat (map be16 segs)"

definition encode_compact_v4 :: "socket_addr list \<Rightarrow> bytes" where
  "encode_compact_v4 addrs = concat (map (\<lambda>a. ip_octets (sa_ip a) @ be16 (sa_port a)) addrs)"

definition encode_compact_v6 :: "socket_addr list \<Rightarrow> bytes" where
  "encode_compact_v6 addrs = concat (map (\<lambda>a. ip_octets (sa_ip a) @ be16 (sa_port a)) addrs)"

definition build_pex_payload :: "socket_addr list \<Rightarrow> socket_addr list \<Rightarrow> bytes" where
  "build_pex_payload added dropped =
     (case (split_v4_v6 added, split_v4_v6 dropped) of ((added4, added6), (dropped4, dropped6)) \<Rightarrow>
      let d = [];
          d = (if added4 = [] then d
               else btree_insert (ascii ''added.f'') (BBytes (replicate (length added4) 0))
                      (btree_insert (ascii ''added'') (BBytes (encode_compact_v4 added4)) d));
          d = (if added6 = [] then d
               else btree_insert (ascii ''added6.f'') (BBytes (replicate (length added6) 0))
                      (btree_insert (ascii ''added6'') (BBytes (encode_compact_v6 added6)) d));
          d = (if dropped4 = [] then d else btree_insert (ascii ''dropped'') (BBytes (encode_compact_v4 dropped4)) d);
          d = (if dropped6 = [] then d else btree_insert (ascii ''dropped6'') (BBytes (encode_compact_v6 dropped6)) d)
      in to_bytes (BDict d))"

definition v4_of_chunk :: "bytes \<Rightarrow> socket_addr" where
  "v4_of_chunk c = SocketAddr (V4 (c ! 0) (c ! 1) (c ! 2) (c ! 3)) (of_be16 (c ! 4) (c ! 5))"

definition ipv6_from :: "bytes \<Rightarrow> ip_addr" where
  "ipv6_from bs = V6 (map (\<lambda>s. of_be16 (s ! 0) (s ! 1)) (chunks 2 bs))"

definition v6_of_chunk :: "bytes \<Rightarrow> socket_addr" where
  "v6_of_chunk c = SocketAddr (ipv6_from (take 16 c)) (of_be16 (c ! 16) (c ! 17))"

definition bytes_entry :: "(bytes, bvalue) btree \<Rightarrow> string \<Rightarrow> bytes option" where
  "bytes_entry d k = (case btree_get d (ascii k) of Some (BBytes bs) \<Rightarrow> Some bs | _ \<Rightarrow> None)"

definition pex_entries :: "nat \<Rightarrow> (bytes \<Rightarrow> socket_addr) \<Rightarrow> bytes option \<Rightarrow> socket_addr list" where
  "pex_entries n of_chunk bs =
     (case bs of Some bs \<Rightarrow> filter (\<lambda>a. sa_port a \<noteq> 0) (map of_chunk (chunks n bs)) | None \<Rightarrow> [])"

definition parse_pex :: "bytes \<Rightarrow> socket_addr list res" where
  "parse_pex payload =
     rbind (map_err (parse_all payload) (\<lambda>_. Network ''ut_pex bencode: '')) (\<lambda>v.
     rbind (map_err (as_dict v) (\<lambda>_. Network ''ut_pex not a dict'')) (\<lambda>d.
     Inr (pex_entries 6 v4_of_chunk (bytes_entry d ''added'') @ pex_entries 18 v6_of_chunk (bytes_entry d ''added6''))))"

section \<open>Round trips\<close>

text \<open>Dictionaries built by insertion can be written and read back.\<close>

definition entries_ok :: "nat \<Rightarrow> (bytes, bvalue) btree \<Rightarrow> bool" where
  "entries_ok n m \<longleftrightarrow> btree_ok m \<and> list_all (\<lambda>(k, v). length k \<le> u64_max \<and> wf_bvalue v \<and> bdepth v \<le> n) m"

declare btree_insert.simps [simp del]

lemma entries_ok_Nil [simp]: "entries_ok n []"
  by (simp add: entries_ok_def)

lemma set_btree_insert: "set (btree_insert k v m) \<subseteq> insert (k, v) (set m)"
  by (induction k v m rule: btree_insert.induct) (auto simp: btree_insert.simps)

lemma entries_ok_insert [simp]:
  "entries_ok n m \<Longrightarrow> length k \<le> u64_max \<Longrightarrow> wf_bvalue v \<Longrightarrow> bdepth v \<le> n \<Longrightarrow> entries_ok n (btree_insert k v m)"
  using set_btree_insert [of k v m] by (fastforce simp: entries_ok_def list_all_iff)

lemma btree_get_Nil [simp]: "btree_get [] k = None"
  by (simp add: btree_get_def)

lemma entries_ok_wf: "entries_ok n m \<Longrightarrow> wf_bvalue (BDict m) \<and> bdepth (BDict m) \<le> Suc n"
proof -
  have "btree_ok m \<Longrightarrow> list_all (\<lambda>(k, v). length k \<le> u64_max \<and> wf_bvalue v \<and> bdepth v \<le> n) m \<Longrightarrow>
      (\<And>pk. prev = Some pk \<Longrightarrow> m \<noteq> [] \<Longrightarrow> pk < fst (hd m)) \<Longrightarrow> wf_entries prev m \<and> bdepth_entries m \<le> Suc n" for prev
  proof (induction m arbitrary: prev)
    case (Cons kv m)
    obtain k v where kv: "kv = (k, v)" by fastforce
    have "wf_entries (Some k) m \<and> bdepth_entries m \<le> Suc n"
      using Cons.IH [of "Some k"] Cons.prems(1,2) kv by (auto simp: neq_Nil_conv)
    then show ?case using Cons.prems(2,3) kv by (auto split: option.splits)
  qed simp
  note * = this
  show "entries_ok n m \<Longrightarrow> wf_bvalue (BDict m) \<and> bdepth (BDict m) \<le> Suc n"
    using * [of None] unfolding entries_ok_def by simp
qed

lemma entries_ok_parse: "entries_ok n m \<Longrightarrow> Suc n \<le> MAX_DEPTH \<Longrightarrow> parse_all (to_bytes (BDict m)) = Inr (BDict m)"
  using entries_ok_wf [of n m] by (intro parse_to_bytes) auto

text \<open>A peer that reads our handshake finds the two extension ids, and no metadata size.\<close>

lemma handshake_payload_roundtrip:
  assumes "length version \<le> 1000"
  shows "parse_handshake_payload (build_handshake_payload version anonymous) =
    Inr \<lparr>their_ut_metadata_id = Some 1, their_ut_pex_id = Some 2, metadata_size = None\<rparr>"
proof -
  let ?m = "btree_insert (ascii ''ut_pex'') (BInt 2) (btree_insert (ascii ''ut_metadata'') (BInt 1) [])"
  have m: "entries_ok 0 ?m" by simp
  define root where "root = btree_insert (ascii ''m'') (BDict ?m) []"
  define full where "full = (if anonymous then root else btree_insert (ascii ''reqq'') (BInt 0)
                    (btree_insert (ascii ''v'') (BBytes (ascii ''rustytorrent '' @ version)) root))"
  have r: "entries_ok 1 root"
    unfolding root_def using entries_ok_wf [OF m] by (intro entries_ok_insert) simp_all
  have f: "entries_ok 1 full" unfolding full_def using r assms by simp
  have b: "build_handshake_payload version anonymous = to_bytes (BDict full)"
    by (simp add: build_handshake_payload_def full_def root_def OUR_UT_METADATA_ID_def OUR_UT_PEX_ID_def Let_def)
  have g: "btree_get full (ascii ''m'') = Some (BDict ?m)" "btree_get full (ascii ''metadata_size'') = None"
    unfolding full_def root_def by (simp_all add: btree_get_insert)
  have "btree_get ?m (ascii ''ut_metadata'') = Some (BInt 1)" "btree_get ?m (ascii ''ut_pex'') = Some (BInt 2)"
    by (simp_all add: btree_get_insert)
  then show ?thesis
    using g entries_ok_parse [OF f] unfolding b
    by (simp add: MAX_DEPTH_def parse_handshake_payload_def extension_ids_from_def metadata_size_from_def
        ut_metadata_id_from_def ut_pex_id_from_def)
qed

lemma split_v4_v6_filter:
  "split_v4_v6 as = (filter (\<lambda>a. \<exists>p q r s. sa_ip a = V4 p q r s) as, filter (\<lambda>a. \<exists>x. sa_ip a = V6 x) as)"
  by (induction as) (auto split: ip_addr.splits)

lemma compact_v4: "\<exists>p q r s. sa_ip a = V4 p q r s \<Longrightarrow>
    length (ip_octets (sa_ip a) @ be16 (sa_port a)) = 6 \<and> v4_of_chunk (ip_octets (sa_ip a) @ be16 (sa_port a)) = a"
  by (cases a) (auto simp: v4_of_chunk_def be16_def)

lemma chunks_be16: "map (\<lambda>s. of_be16 (s ! 0) (s ! 1)) (chunks 2 (concat (map be16 segs))) = segs"
  by (subst chunks_concat) (auto simp: be16_def map_idI)

lemma compact_v6: "sa_ip a = V6 x \<Longrightarrow> length x = 8 \<Longrightarrow>
    length (ip_octets (sa_ip a) @ be16 (sa_port a)) = 18 \<and> v6_of_chunk (ip_octets (sa_ip a) @ be16 (sa_port a)) = a"
proof -
  assume a: "sa_ip a = V6 x" "length x = 8"
  have l: "length (concat (map be16 x)) = 16" using a(2) by (simp add: length_concat comp_def sum_list_triv)
  then have "take 16 (concat (map be16 x) @ be16 (sa_port a)) = concat (map be16 x)" by simp
  moreover have "(concat (map be16 x) @ be16 (sa_port a)) ! 16 = be16 (sa_port a) ! 0"
      "(concat (map be16 x) @ be16 (sa_port a)) ! 17 = be16 (sa_port a) ! 1"
    using l by (simp_all add: nth_append)
  ultimately show ?thesis
    using a l by (cases a) (simp add: v6_of_chunk_def ipv6_from_def chunks_be16 [simplified] be16_def)
qed

text \<open>
  The addresses of a peer exchange message arrive, IPv4 before IPv6 and those with port 0 dropped; the
  dropped peers are not read.
\<close>

lemma pex_roundtrip:
  assumes wf: "list_all (\<lambda>a. wf_ip (sa_ip a)) (added @ dropped)" and len: "length (added @ dropped) \<le> u32_max"
  shows "parse_pex (build_pex_payload added dropped) =
    Inr (filter (\<lambda>a. sa_port a \<noteq> 0) (fst (split_v4_v6 added) @ snd (split_v4_v6 added)))"
proof -
  obtain a4 a6 where a: "split_v4_v6 added = (a4, a6)" by fastforce
  obtain d4 d6 where d: "split_v4_v6 dropped = (d4, d6)" by fastforce
  have v4: "\<forall>a \<in> set a4 \<union> set d4. \<exists>p q r s. sa_ip a = V4 p q r s"
    and v6: "\<forall>a \<in> set a6 \<union> set d6. \<exists>x. sa_ip a = V6 x \<and> length x = 8"
    and sub: "length a4 \<le> length added" "length a6 \<le> length added" "length d4 \<le> length dropped" "length d6 \<le> length dropped"
    using a d wf by (force simp: split_v4_v6_filter list_all_iff)+
  have c4: "length (ip_octets (sa_ip x) @ be16 (sa_port x)) = 6 \<and> v4_of_chunk (ip_octets (sa_ip x) @ be16 (sa_port x)) = x"
    if "x \<in> set a4 \<union> set d4" for x using compact_v4 v4 that by blast
  have l4: "length (encode_compact_v4 as) = 6 * length as" if "set as \<subseteq> set a4 \<union> set d4" for as
    using that c4 by (induction as) (auto simp: encode_compact_v4_def)
  have c6: "length (ip_octets (sa_ip x) @ be16 (sa_port x)) = 18 \<and> v6_of_chunk (ip_octets (sa_ip x) @ be16 (sa_port x)) = x"
    if "x \<in> set a6 \<union> set d6" for x using compact_v6 v6 that by blast
  have l6: "length (encode_compact_v6 as) = 18 * length as" if "set as \<subseteq> set a6 \<union> set d6" for as
    using that c6 by (induction as) (auto simp: encode_compact_v6_def)
  have "chunks 6 (encode_compact_v4 a4) = map (\<lambda>a. ip_octets (sa_ip a) @ be16 (sa_port a)) a4"
    unfolding encode_compact_v4_def using c4 by (intro chunks_concat) auto
  then have e4: "map v4_of_chunk (chunks 6 (encode_compact_v4 a4)) = a4"
    using c4 by (auto intro!: map_idI)
  have "chunks 18 (encode_compact_v6 a6) = map (\<lambda>a. ip_octets (sa_ip a) @ be16 (sa_port a)) a6"
    unfolding encode_compact_v6_def using c6 by (intro chunks_concat) auto
  then have e6: "map v6_of_chunk (chunks 18 (encode_compact_v6 a6)) = a6"
    using c6 by (auto intro!: map_idI)
  define m1 where "m1 = (if a4 = [] then [] else btree_insert (ascii ''added.f'') (BBytes (replicate (length a4) 0))
                      (btree_insert (ascii ''added'') (BBytes (encode_compact_v4 a4)) []))"
  define m2 where "m2 = (if a6 = [] then m1 else btree_insert (ascii ''added6.f'') (BBytes (replicate (length a6) 0))
                      (btree_insert (ascii ''added6'') (BBytes (encode_compact_v6 a6)) m1))"
  define m3 where "m3 = (if d4 = [] then m2 else btree_insert (ascii ''dropped'') (BBytes (encode_compact_v4 d4)) m2)"
  define m4 where "m4 = (if d6 = [] then m3 else btree_insert (ascii ''dropped6'') (BBytes (encode_compact_v6 d6)) m3)"
  have ok: "entries_ok 0 m1" "entries_ok 0 m2" "entries_ok 0 m3" "entries_ok 0 m4"
    using sub len l4 l6 unfolding m1_def m2_def m3_def m4_def by auto
  have "btree_get m4 (ascii ''added'') = btree_get m1 (ascii ''added'')" "btree_get m4 (ascii ''added6'') = btree_get m2 (ascii ''added6'')"
    using ok unfolding m4_def m3_def m2_def by (auto simp: btree_get_insert entries_ok_def)
  moreover have "btree_get m1 (ascii ''added'') = (if a4 = [] then None else Some (BBytes (encode_compact_v4 a4)))"
    "btree_get m2 (ascii ''added6'') = (if a6 = [] then None else Some (BBytes (encode_compact_v6 a6)))"
    using ok(1) unfolding m1_def m2_def by (auto simp: btree_get_insert entries_ok_def)
  ultimately show ?thesis
    using entries_ok_parse [OF ok(4)] e4 e6 a d
    by (auto simp: build_pex_payload_def m1_def [symmetric] m2_def [symmetric] m3_def [symmetric] m4_def [symmetric]
        MAX_DEPTH_def parse_pex_def bytes_entry_def pex_entries_def)
qed

end
