(* ===== verification/RT_Metadata.thy ===== *)
theory RT_Metadata
  imports RT_Extension RT_Message RT_Handshake RT_Mse RT_Metainfo
begin

text \<open>
  Fetching the metadata of a magnet link from peers (\<open>src/src/peer/metadata_fetch.rs\<close>): the frame budget,
  the memory budget shared by all fetches, the exchange with one peer, the plain and the encrypted
  attempt, and the race between the peers of a pool. Timeouts are decided by the parameter \<open>late\<close>, which says
  for the state of the connection whether the next step takes too long.
\<close>

section \<open>Budgets\<close>

definition GLOBAL_METADATA_BUDGET :: nat where "GLOBAL_METADATA_BUDGET = 256 * 1024 * 1024"
definition FETCH_MAX_FRAME_LEN :: u32 where "FETCH_MAX_FRAME_LEN = of_nat METADATA_PIECE_SIZE + 1024"
definition EXT_HANDSHAKE_MAX_FRAMES :: nat where "EXT_HANDSHAKE_MAX_FRAMES = 64"
definition EXT_NOISE_FRAME_SLACK :: nat where "EXT_NOISE_FRAME_SLACK = 64"

text \<open>
  \<open>MetadataReservation::try_acquire\<close> on the value \<open>cur\<close> of the shared counter that its compare-and-swap
  succeeds on: the new value, or nothing. \<open>drop\<close> gives the bytes back.
\<close>

definition try_acquire :: "nat \<Rightarrow> nat \<Rightarrow> nat option" where
  "try_acquire cur bytes =
     (let next = cur + bytes in
      if next > u64_max then None else if next > GLOBAL_METADATA_BUDGET then None else Some next)"

definition reservation_drop :: "nat \<Rightarrow> nat \<Rightarrow> nat" where
  "reservation_drop cur bytes = cur - bytes"

definition budget_spend :: "nat \<Rightarrow> nat res" where
  "budget_spend remaining =
     (if remaining = 0 then Inl (Protocol ''ut_metadata bootstrap: peer frame budget exhausted (too many non-advancing frames)'')
      else Inr (remaining - 1))"

definition budget_widen :: "nat \<Rightarrow> nat \<Rightarrow> nat" where
  "budget_widen remaining data_frames = min u64_max (remaining + (data_frames + EXT_NOISE_FRAME_SLACK))"

section \<open>The exchange with one peer\<close>

definition io_map_err :: "('e \<Rightarrow> 'f) \<Rightarrow> ('s, 'e, 'a) estep \<Rightarrow> ('s, 'f, 'a) estep" where
  "io_map_err f m s = (case m s of (Inl e, s') \<Rightarrow> (Inl (f e), s') | (Inr x, s') \<Rightarrow> (Inr x, s'))"

definition with_timeout :: "(stream \<Rightarrow> bool) \<Rightarrow> error \<Rightarrow> 'a io \<Rightarrow> 'a io" where
  "with_timeout late e m s = (if late s then (Inl e, s) else m s)"

definition timed_frame :: "(stream \<Rightarrow> bool) \<Rightarrow> string \<Rightarrow> string \<Rightarrow> bytes io" where
  "timed_frame late timeout_text frame_text =
     with_timeout late (Network timeout_text) (io_map_err (\<lambda>_. Network frame_text) (read_frame FETCH_MAX_FRAME_LEN))"

definition next_frame :: "(stream \<Rightarrow> bool) \<Rightarrow> string \<Rightarrow> string \<Rightarrow> nat \<Rightarrow> (bytes \<times> nat) io" where
  "next_frame late timeout_text frame_text budget =
     io_bind (timed_frame late timeout_text frame_text) (\<lambda>frame.
     io_bind (io_lift (budget_spend budget)) (\<lambda>budget. io_return (frame, budget)))"

lemma next_frame_budget: "next_frame late t f budget s = (Inr (frame, b), s') \<Longrightarrow> b < budget"
  by (auto simp: next_frame_def io_simps budget_spend_def split: if_splits)

text \<open>The filter of both reading loops: the payload of an extended message with the wanted id, or nothing.\<close>

definition wanted_payload :: "u8 \<Rightarrow> bytes \<Rightarrow> bytes option res" where
  "wanted_payload i frame =
     (if frame = [] then Inr None
      else rbind (msg_decode frame) (\<lambda>msg.
        case msg of
          Extended ext_id payload \<Rightarrow> Inr (if ext_id = i then Some payload else None)
        | _ \<Rightarrow> Inr None))"

text \<open>The budget is spent by every frame, so the loops end.\<close>

function (sequential) read_extension_handshake :: "(stream \<Rightarrow> bool) \<Rightarrow> nat \<Rightarrow> stream \<Rightarrow> (error + peer_extension_info \<times> nat) \<times> stream" where
  "read_extension_handshake late budget s =
     (case next_frame late ''ext handshake read timeout'' ''ext handshake frame: '' budget s of
        (Inl e, s) \<Rightarrow> (Inl e, s)
      | (Inr (frame, budget), s) \<Rightarrow>
          (case wanted_payload EXT_HANDSHAKE_ID frame of
             Inl e \<Rightarrow> (Inl e, s)
           | Inr None \<Rightarrow> read_extension_handshake late budget s
           | Inr (Some payload) \<Rightarrow> (rbind (parse_handshake_payload payload) (\<lambda>i. Inr (i, budget)), s)))"
  by pat_completeness auto
termination
  by (relation "measure (\<lambda>(late, budget, s). budget)") (auto dest: next_frame_budget [OF sym])

function (sequential) read_metadata_response :: "(stream \<Rightarrow> bool) \<Rightarrow> nat \<Rightarrow> stream \<Rightarrow> (error + metadata_response \<times> nat) \<times> stream" where
  "read_metadata_response late budget s =
     (case next_frame late ''ut_metadata read timeout'' ''ut_metadata frame: '' budget s of
        (Inl e, s) \<Rightarrow> (Inl e, s)
      | (Inr (frame, budget), s) \<Rightarrow>
          (case wanted_payload OUR_UT_METADATA_ID frame of
             Inl e \<Rightarrow> (Inl e, s)
           | Inr None \<Rightarrow> read_metadata_response late budget s
           | Inr (Some payload) \<Rightarrow> (rbind (parse_metadata_response payload) (\<lambda>r. Inr (r, budget)), s)))"
  by pat_completeness auto
termination
  by (relation "measure (\<lambda>(late, budget, s). budget)") (auto dest: next_frame_budget [OF sym])

declare read_extension_handshake.simps [simp del] read_metadata_response.simps [simp del]

definition piece_expected_len :: "nat \<Rightarrow> nat \<Rightarrow> u32 \<Rightarrow> nat" where
  "piece_expected_len piece_idx np total_size =
     (if piece_idx + 1 = np then
        let r = unat total_size mod METADATA_PIECE_SIZE in if r = 0 then METADATA_PIECE_SIZE else r
      else METADATA_PIECE_SIZE)"

text \<open>One response: the buffer and the flags of the pieces received. Writing outside the buffer panics.\<close>

definition accept_piece :: "u32 \<Rightarrow> nat \<Rightarrow> metadata_response \<Rightarrow> bytes \<times> bool list \<Rightarrow> (bytes \<times> bool list) res" where
  "accept_piece total_size np resp st =
     (case resp of
        MData piece peer_total data \<Rightarrow>
          if peer_total \<noteq> total_size then Inl (Network ''peer total_size changed mid-fetch: was '')
          else let idx = unat piece in
          if np \<le> idx then Inl (Network ''piece '')
          else let expected_len = piece_expected_len idx np total_size in
          if length data \<noteq> expected_len then Inl (Network ''piece '')
          else let off = idx * METADATA_PIECE_SIZE in
          if length (fst st) < off + expected_len then Inl (Panic ''range end index out of range'')
          else Inr (take off (fst st) @ data @ drop (off + expected_len) (fst st), (snd st)[idx := True])
      | MReject piece \<Rightarrow> Inl (Network ''peer rejected ut_metadata piece '')
      | MOther \<Rightarrow> Inr st)"

lemma read_metadata_response_budget:
  "read_metadata_response late budget s = (Inr (r, b), s') \<Longrightarrow> b < budget"
proof (induction budget arbitrary: s rule: less_induct)
  case (less budget)
  show ?case using less.prems
    by (subst (asm) read_metadata_response.simps)
      (auto split: prod.splits sum.splits option.splits dest: next_frame_budget
        intro: less_trans [OF less.IH [OF next_frame_budget] next_frame_budget])
qed

text \<open>The request loop: the first missing piece is asked for until all pieces have arrived.\<close>

function (sequential) fetch_pieces :: "(stream \<Rightarrow> bool) \<Rightarrow> u8 \<Rightarrow> u32 \<Rightarrow> nat \<Rightarrow> nat \<Rightarrow> bytes \<times> bool list \<Rightarrow> stream \<Rightarrow> (error + bytes) \<times> stream" where
  "fetch_pieces late their_id total_size np budget st s =
     (case position (\<lambda>got. \<not> got) (snd st) of
        None \<Rightarrow> (Inr (fst st), s)
      | Some next \<Rightarrow>
          (case io_map_err (\<lambda>_. Network ''ut_metadata request: '')
                  (write_message (Extended their_id (build_metadata_request (of_nat next)))) s of
             (Inl e, s) \<Rightarrow> (Inl e, s)
           | (Inr _, s) \<Rightarrow>
               (case read_metadata_response late budget s of
                  (Inl e, s) \<Rightarrow> (Inl e, s)
                | (Inr (resp, budget), s) \<Rightarrow>
                    (case accept_piece total_size np resp st of
                       Inl e \<Rightarrow> (Inl e, s)
                     | Inr st \<Rightarrow> fetch_pieces late their_id total_size np budget st s))))"
  by pat_completeness auto
termination
  by (relation "measure (\<lambda>(late, their_id, total_size, np, budget, st, s). budget)")
    (auto dest: read_metadata_response_budget [OF sym])

declare fetch_pieces.simps [simp del]

definition exchange_metadata ::
  "(bytes \<Rightarrow> bytes) \<Rightarrow> bytes \<Rightarrow> (stream \<Rightarrow> bool) \<Rightarrow> nat \<Rightarrow> bytes \<Rightarrow> bool \<Rightarrow> bytes io" where
  "exchange_metadata sha1 version late in_flight info_hash anonymous =
     io_bind (io_map_err (\<lambda>_. Network ''ext handshake write: '')
       (write_message (Extended EXT_HANDSHAKE_ID (build_handshake_payload version anonymous)))) (\<lambda>_.
     io_bind (read_extension_handshake late EXT_HANDSHAKE_MAX_FRAMES) (\<lambda>(peer_info, budget).
     io_bind (io_lift (ok_or (their_ut_metadata_id peer_info)
       (Network ''peer doesn't advertise ut_metadata in extension handshake''))) (\<lambda>their_id.
     io_bind (io_lift (ok_or (metadata_size peer_info)
       (Network ''peer doesn't advertise metadata_size''))) (\<lambda>total_size.
     io_bind (io_lift (ok_or (try_acquire in_flight (unat total_size)) (Network ''metadata fetch refused: ''))) (\<lambda>_.
     let np = div_ceil (unat total_size) METADATA_PIECE_SIZE;
         budget = budget_widen budget np
     in io_bind (fetch_pieces late their_id total_size np budget (replicate (unat total_size) 0, replicate np False)) (\<lambda>assembled.
     if sha1 assembled \<noteq> info_hash then io_fail (Network ''fetched metadata hash mismatch: peer '')
     else io_return assembled))))))"

section \<open>Plain and encrypted attempts\<close>

text \<open>
  How a connection may be opened: through the proxies (the first hop bound to the interface, if one is
  set), over a given interface, or directly.
\<close>

datatype 'p route = Through "'p list" "bytes option" | Over bytes | Direct

definition dht_martian_strict :: "bool \<Rightarrow> bool \<Rightarrow> bool" where
  "dht_martian_strict anonymous proxied \<longleftrightarrow> anonymous \<or> proxied"

text \<open>
  The operating system and the proxies are \<open>connect\<close>; \<open>for_dial i\<close> refreshes the credentials of the hop number \<open>i\<close>.
\<close>

definition fetch_dial ::
  "('p route \<Rightarrow> socket_addr \<Rightarrow> stream res) \<Rightarrow> (nat \<Rightarrow> 'p \<Rightarrow> 'p) \<Rightarrow> socket_addr \<Rightarrow> 'p list \<Rightarrow> bool \<Rightarrow> bytes option \<Rightarrow> stream res" where
  "fetch_dial connect for_dial addr proxies anonymous bind_iface =
     (if anonymous \<and> proxies = [] then
        Inl (Network ''magnet bootstrap: anonymous mode requires --socks5; refusing direct dial'')
      else if \<not> is_safe_dial_target addr (dht_martian_strict anonymous (proxies \<noteq> [])) then
        Inl (Network ''refusing martian dial target '')
      else if proxies \<noteq> [] then
        map_err (connect (Through (map (\<lambda>(i, p). for_dial i p) (enumerate 0 proxies)) bind_iface) addr) (\<lambda>_. Network ''socks5 dial '')
      else map_err (connect (case bind_iface of Some iface \<Rightarrow> Over iface | None \<Rightarrow> Direct) addr) (\<lambda>_. Network ''connect ''))"

text \<open>\<open>str::contains\<close>; \<open>render\<close> completes a message with the values its source interpolates.\<close>

fun text_contains :: "string \<Rightarrow> string \<Rightarrow> bool" where
  "text_contains [] t = (t = [])"
| "text_contains (c # s) t = (take (length t) (c # s) = t \<or> text_contains s t)"

definition looks_like_mse_signal :: "(string \<Rightarrow> string) \<Rightarrow> error \<Rightarrow> bool" where
  "looks_like_mse_signal render e =
     (case e of
        Handshake t \<Rightarrow>
          text_contains (render t) ''early eof'' \<or> text_contains (render t) ''bad pstrlen'' \<or>
          text_contains (render t) ''bad protocol string'' \<or> text_contains (render t) ''read: unexpected end of file''
      | Network t \<Rightarrow> text_contains (render t) ''Connection reset''
      | _ \<Rightarrow> False)"

text \<open>
  The same protocol step over an \<open>EncryptedStream\<close>: it sees the decrypted input, and what it writes is
  encrypted on its way out.
\<close>

definition over_rc4 :: "rc4 \<times> rc4 \<Rightarrow> 'a io \<Rightarrow> 'a io" where
  "over_rc4 ciphers m s =
     (case m \<lparr>s_in = fst (rc4_process (fst ciphers) (s_in s)), s_out = [], s_writable = s_writable s\<rparr> of
        (r, p) \<Rightarrow>
          (r, s\<lparr>s_in := drop (length (s_in s) - length (s_in p)) (s_in s),
                s_out := s_out s @ fst (rc4_process (snd ciphers) (s_out p)), s_writable := s_writable p\<rparr>))"

record 'p fetch_env =
  fe_sha1 :: "bytes \<Rightarrow> bytes"
  fe_modpow :: modpow
  fe_version :: bytes
  fe_cell :: extension_cell
  fe_render :: "string \<Rightarrow> string"
  fe_late :: "stream \<Rightarrow> bool"
  fe_connect :: "nat \<Rightarrow> 'p route \<Rightarrow> socket_addr \<Rightarrow> stream res"
  fe_for_dial :: "nat \<Rightarrow> nat \<Rightarrow> 'p \<Rightarrow> 'p"
  fe_entropy :: bytes
  fe_pad_a :: bytes
  fe_pad_c :: bytes
  fe_in_flight :: nat

definition bt_handshake :: "'p fetch_env \<Rightarrow> string \<Rightarrow> bytes \<Rightarrow> bytes \<Rightarrow> bool \<Rightarrow> error \<Rightarrow> (error \<Rightarrow> error) \<Rightarrow> bytes io" where
  "bt_handshake env lacks info_hash peer_id anonymous timeout_err on_err =
     io_bind (with_timeout (fe_late env) timeout_err
       (io_map_err on_err (perform_outgoing (fe_cell env) info_hash peer_id))) (\<lambda>theirs.
     if \<not> supports_extension_protocol (hs_reserved theirs) then io_fail (Network lacks)
     else exchange_metadata (fe_sha1 env) (fe_version env) (fe_late env) (fe_in_flight env) info_hash anonymous)"

definition plain_attempt :: "'p fetch_env \<Rightarrow> bytes \<Rightarrow> bytes \<Rightarrow> bool \<Rightarrow> bytes io" where
  "plain_attempt env info_hash peer_id anonymous =
     bt_handshake env ''peer lacks BEP 10 extension protocol'' info_hash peer_id anonymous
       (Handshake ''bt handshake timeout'') id"

definition encrypted_attempt :: "'p fetch_env \<Rightarrow> bytes \<Rightarrow> bytes \<Rightarrow> bool \<Rightarrow> bytes io" where
  "encrypted_attempt env info_hash peer_id anonymous =
     io_bind (with_timeout (fe_late env) (Handshake ''mse handshake timeout'')
       (io_map_err (\<lambda>_. Handshake ''mse handshake: '')
         (mse_outgoing (fe_modpow env) (fe_sha1 env) (fe_entropy env) (fe_pad_a env) (fe_pad_c env) info_hash))) (\<lambda>ciphers.
     over_rc4 ciphers
       (bt_handshake env ''peer (over MSE) lacks BEP 10 extension protocol'' info_hash peer_id anonymous
         (Network ''bt-over-mse handshake timeout'') (\<lambda>_. Network ''bt-over-mse handshake: '')))"

definition try_fetch_from :: "'p fetch_env \<Rightarrow> socket_addr \<Rightarrow> bytes \<Rightarrow> bytes \<Rightarrow> 'p list \<Rightarrow> bool \<Rightarrow> bytes option \<Rightarrow> bytes res" where
  "try_fetch_from env addr info_hash peer_id proxies anonymous bind_iface =
     (case rbind (fetch_dial (fe_connect env 0) (fe_for_dial env 0) addr proxies anonymous bind_iface)
             (\<lambda>s. fst (plain_attempt env info_hash peer_id anonymous s)) of
        Inr v \<Rightarrow> Inr v
      | Inl e \<Rightarrow>
          if \<not> looks_like_mse_signal (fe_render env) e then Inl e
          else rbind (fetch_dial (fe_connect env 1) (fe_for_dial env 1) addr proxies anonymous bind_iface)
             (\<lambda>s. fst (encrypted_attempt env info_hash peer_id anonymous s)))"

section \<open>The race between the peers of a pool\<close>

text \<open>
  The attempts run concurrently, each in its own environment. \<open>finished\<close> lists the peers whose attempts end
  within the overall timeout, in the order in which they end; a peer that is missing there is still busy at the timeout.
  The first success is taken.
\<close>

fun first_success :: "(socket_addr \<Rightarrow> bytes res) \<Rightarrow> socket_addr list \<Rightarrow> bytes option" where
  "first_success attempt [] = None"
| "first_success attempt (a # as) = (case attempt a of Inr bs \<Rightarrow> Some bs | Inl _ \<Rightarrow> first_success attempt as)"

definition fetch_metadata ::
  "(socket_addr \<Rightarrow> 'p fetch_env) \<Rightarrow> socket_addr list \<Rightarrow> bytes \<Rightarrow> bytes \<Rightarrow> socket_addr list \<Rightarrow> 'p list \<Rightarrow> bool \<Rightarrow> bytes option \<Rightarrow> bytes res" where
  "fetch_metadata env finished info_hash peer_id peer_pool proxies anonymous bind_iface =
     (if peer_pool = [] then Inl (Network ''magnet bootstrap: no candidate peers (DHT + trackers returned nothing)'')
      else case first_success (\<lambda>a. try_fetch_from (env a) a info_hash peer_id proxies anonymous bind_iface) finished of
        Some bs \<Rightarrow> Inr bs
      | None \<Rightarrow>
          if set peer_pool \<subseteq> set finished then Inl (Network ''magnet bootstrap: every peer attempt failed'')
          else Inl (Network ''magnet bootstrap: timed out after ''))"

section \<open>What arrives is authentic and of bounded size\<close>

lemma accept_piece_lengths:
  "accept_piece total_size np resp st = Inr st' \<Longrightarrow> length (fst st') = length (fst st) \<and> length (snd st') = length (snd st)"
  by (auto simp: accept_piece_def Let_def split: metadata_response.splits if_splits)

lemma fetch_pieces_length:
  "fetch_pieces late i total_size np budget st s = (Inr bs, s') \<Longrightarrow> length bs = length (fst st)"
proof (induction budget arbitrary: st s rule: less_induct)
  case (less budget)
  show ?case using less.prems
    by (subst (asm) fetch_pieces.simps)
      (auto split: option.splits prod.splits sum.splits dest: accept_piece_lengths
        dest!: less.IH [OF read_metadata_response_budget])
qed

lemma read_extension_handshake_info:
  "read_extension_handshake late budget s = (Inr (pi, b), s') \<Longrightarrow> \<exists>p. parse_handshake_payload p = Inr pi"
proof (induction budget arbitrary: s rule: less_induct)
  case (less budget)
  show ?case using less.prems
    by (subst (asm) read_extension_handshake.simps)
      (auto split: option.splits prod.splits sum.splits intro: less.IH [OF next_frame_budget])
qed

lemma handshake_size_bound:
  assumes "parse_handshake_payload p = Inr pi" "metadata_size pi = Some n"
  shows "0 < unat n" and "unat n \<le> 104857600"
proof -
  obtain d where "metadata_size_from d = Inr (Some n)"
    using assms by (auto simp: parse_handshake_payload_def split: prod.splits)
  then obtain k where k: "0 < k" "k \<le> 104857600" "n = of_int k"
    by (auto simp: metadata_size_from_def MAX_METADATA_SIZE_def split: option.splits)
  then have "uint n = k" by (simp add: uint_word_of_int)
  then show "0 < unat n" "unat n \<le> 104857600" using k by (simp_all add: unat_eq_nat_uint)
qed

lemma exchange_authentic:
  assumes "exchange_metadata sha1 version late in_flight info_hash anonymous s = (Inr bs, s')"
  shows "sha1 bs = info_hash \<and> 0 < length bs \<and> length bs \<le> 104857600 \<and> in_flight + length bs \<le> GLOBAL_METADATA_BUDGET"
  using assms
  by (auto simp: exchange_metadata_def io_simps Let_def try_acquire_def split: prod.splits if_splits
      dest!: fetch_pieces_length read_extension_handshake_info dest: handshake_size_bound)

lemma io_map_err_Inr [io_simps]: "io_map_err f m s = (Inr x, s') \<longleftrightarrow> m s = (Inr x, s')"
  by (auto simp: io_map_err_def split: prod.splits sum.splits)

lemma with_timeout_Inr [io_simps]: "with_timeout late e m s = (Inr x, s') \<longleftrightarrow> \<not> late s \<and> m s = (Inr x, s')"
  by (auto simp: with_timeout_def)

lemma bt_handshake_authentic:
  assumes "bt_handshake env lacks info_hash peer_id anonymous te oe s = (Inr bs, s')"
  shows "fe_sha1 env bs = info_hash \<and> 0 < length bs \<and> length bs \<le> 104857600 \<and>
    fe_in_flight env + length bs \<le> GLOBAL_METADATA_BUDGET"
proof -
  obtain t where "exchange_metadata (fe_sha1 env) (fe_version env) (fe_late env) (fe_in_flight env) info_hash anonymous t = (Inr bs, s')"
    using assms by (auto simp: bt_handshake_def io_simps split: if_splits)
  then show ?thesis by (rule exchange_authentic)
qed

lemma over_rc4_Inr:
  assumes "over_rc4 ciphers m s = (Inr x, s')"
  shows "\<exists>t t'. m t = (Inr x, t')"
proof -
  let ?t = "\<lparr>s_in = fst (rc4_process (fst ciphers) (s_in s)), s_out = [], s_writable = s_writable s\<rparr>"
  obtain r p where m: "m ?t = (r, p)" by fastforce
  then have "r = Inr x" using assms by (simp add: over_rc4_def)
  then show ?thesis using m by blast
qed

lemma try_fetch_authentic:
  assumes "try_fetch_from env addr info_hash peer_id proxies anonymous bind_iface = Inr bs"
  shows "fe_sha1 env bs = info_hash \<and> 0 < length bs \<and> length bs \<le> 104857600 \<and>
    fe_in_flight env + length bs \<le> GLOBAL_METADATA_BUDGET"
proof -
  consider s s' where "plain_attempt env info_hash peer_id anonymous s = (Inr bs, s')"
    | s s' where "encrypted_attempt env info_hash peer_id anonymous s = (Inr bs, s')"
    using assms by (auto simp: try_fetch_from_def split: sum.splits if_splits) (metis prod.collapse)+
  then show ?thesis
  proof cases
    case 1
    then show ?thesis using bt_handshake_authentic unfolding plain_attempt_def by blast
  next
    case 2
    then obtain t t' lacks te oe where "bt_handshake env lacks info_hash peer_id anonymous te oe t = (Inr bs, t')"
      by (auto simp: encrypted_attempt_def io_simps dest!: over_rc4_Inr)
    then show ?thesis by (rule bt_handshake_authentic)
  qed
qed

lemma first_success_Some: "first_success attempt as = Some bs \<Longrightarrow> \<exists>a \<in> set as. attempt a = Inr bs"
  by (induction as) (auto split: sum.splits)

text \<open>The reservations of concurrent fetches: whatever is acquired and dropped, the total stays within the budget.\<close>

datatype reservation_event = Acquire nat | Release nat

text \<open>The state is the counter and the reservations held; a release gives back the reservation at its position.\<close>

fun reservation_step :: "reservation_event \<Rightarrow> nat \<times> nat list \<Rightarrow> nat \<times> nat list" where
  "reservation_step (Acquire n) (cur, held) =
     (case try_acquire cur n of Some next \<Rightarrow> (next, n # held) | None \<Rightarrow> (cur, held))"
| "reservation_step (Release k) (cur, held) =
     (if k < length held then (reservation_drop cur (held ! k), take k held @ drop (Suc k) held) else (cur, held))"

lemma reservations_bounded:
  "fold reservation_step evs (0, []) = (cur, held) \<Longrightarrow> cur = sum_list held \<and> cur \<le> GLOBAL_METADATA_BUDGET"
proof (induction evs arbitrary: cur held rule: rev_induct)
  case (snoc ev evs)
  obtain c h where st: "fold reservation_step evs (0, []) = (c, h)" by fastforce
  have IH: "c = sum_list h" "c \<le> GLOBAL_METADATA_BUDGET" using snoc.IH [OF st] by auto
  have step: "reservation_step ev (c, h) = (cur, held)" using snoc.prems st by simp
  show ?case
  proof (cases ev)
    case (Acquire n)
    then show ?thesis using step IH by (auto simp: try_acquire_def Let_def split: if_splits)
  next
    case (Release k)
    have "sum_list h = sum_list (take k h) + h ! k + sum_list (drop (Suc k) h)" if "k < length h"
      using arg_cong [OF id_take_nth_drop [OF that], of sum_list] by simp
    then show ?thesis using step IH Release by (auto simp: reservation_drop_def split: if_splits)
  qed
qed simp

section \<open>A peer that has the metadata\<close>

definition payload_of :: "u8 \<Rightarrow> message \<Rightarrow> bytes option" where
  "payload_of i m = (case m of Extended j p \<Rightarrow> if j = i then Some p else None | _ \<Rightarrow> None)"

definition fits :: "message \<Rightarrow> bool" where
  "fits m \<longleftrightarrow> length (msg_encode m) \<le> unat FETCH_MAX_FRAME_LEN + 4"

lemma next_frame_message:
  assumes "s_in s = msg_encode m @ r" "fits m"
  shows "\<exists>frame. next_frame (\<lambda>_. False) t f (Suc b) s = (Inr (frame, b), s\<lparr>s_in := r\<rparr>) \<and>
    wanted_payload i frame = Inr (payload_of i m)"
proof -
  obtain body where body: "msg_encode m = be32 (of_nat (length body)) @ body" "msg_decode body = Inr m"
    using msg_encode_length [of m] by blast
  have "read_frame FETCH_MAX_FRAME_LEN s = (Inr body, s\<lparr>s_in := r\<rparr>)"
    using assms body by (auto simp: read_frame_Inr fits_def)
  then have "next_frame (\<lambda>_. False) t f (Suc b) s = (Inr (body, b), s\<lparr>s_in := r\<rparr>)"
    by (auto simp: next_frame_def timed_frame_def io_simps budget_spend_def)
  moreover have "wanted_payload i body = Inr (payload_of i m)"
  proof (cases "body = []")
    case True
    then have "m = KeepAlive" using body(2) by (simp add: msg_decode_def)
    then show ?thesis using True by (simp add: wanted_payload_def payload_of_def)
  next
    case False
    then show ?thesis using body(2) by (cases m) (simp_all add: wanted_payload_def payload_of_def)
  qed
  ultimately show ?thesis by blast
qed

lemma read_extension_handshake_skips:
  assumes "s_in s = concat (map msg_encode noise) @ msg_encode m @ r" "list_all fits noise" "fits m"
    and "list_all (\<lambda>m. payload_of EXT_HANDSHAKE_ID m = None) noise" "payload_of EXT_HANDSHAKE_ID m = Some p"
    and "length noise < b" "parse_handshake_payload p = Inr pi"
  shows "read_extension_handshake (\<lambda>_. False) b s = (Inr (pi, b - Suc (length noise)), s\<lparr>s_in := r\<rparr>)"
  using assms
proof (induction noise arbitrary: s b)
  case Nil
  then obtain b' where "b = Suc b'" by (cases b) auto
  with Nil next_frame_message [of s m r "''ext handshake read timeout''" "''ext handshake frame: ''" b' EXT_HANDSHAKE_ID]
  show ?case by (subst read_extension_handshake.simps) auto
next
  case (Cons n noise)
  then obtain b' where b: "b = Suc b'" by (cases b) auto
  let ?r = "concat (map msg_encode noise) @ msg_encode m @ r"
  have "read_extension_handshake (\<lambda>_. False) b s = read_extension_handshake (\<lambda>_. False) b' (s\<lparr>s_in := ?r\<rparr>)"
    using Cons.prems b next_frame_message [of s n ?r "''ext handshake read timeout''" "''ext handshake frame: ''" b' EXT_HANDSHAKE_ID]
    by (subst read_extension_handshake.simps) auto
  also have "\<dots> = (Inr (pi, b - Suc (length (n # noise))), s\<lparr>s_in := r\<rparr>)"
    using Cons.IH [of "s\<lparr>s_in := ?r\<rparr>" b'] Cons.prems b by simp
  finally show ?case .
qed

lemma read_metadata_response_skips:
  assumes "s_in s = concat (map msg_encode noise) @ msg_encode m @ r" "list_all fits noise" "fits m"
    and "list_all (\<lambda>m. payload_of OUR_UT_METADATA_ID m = None) noise" "payload_of OUR_UT_METADATA_ID m = Some p"
    and "length noise < b" "parse_metadata_response p = Inr resp"
  shows "read_metadata_response (\<lambda>_. False) b s = (Inr (resp, b - Suc (length noise)), s\<lparr>s_in := r\<rparr>)"
  using assms
proof (induction noise arbitrary: s b)
  case Nil
  then obtain b' where "b = Suc b'" by (cases b) auto
  with Nil next_frame_message [of s m r "''ut_metadata read timeout''" "''ut_metadata frame: ''" b' OUR_UT_METADATA_ID]
  show ?case by (subst read_metadata_response.simps) auto
next
  case (Cons n noise)
  then obtain b' where b: "b = Suc b'" by (cases b) auto
  let ?r = "concat (map msg_encode noise) @ msg_encode m @ r"
  have "read_metadata_response (\<lambda>_. False) b s = read_metadata_response (\<lambda>_. False) b' (s\<lparr>s_in := ?r\<rparr>)"
    using Cons.prems b next_frame_message [of s n ?r "''ut_metadata read timeout''" "''ut_metadata frame: ''" b' OUR_UT_METADATA_ID]
    by (subst read_metadata_response.simps) auto
  also have "\<dots> = (Inr (resp, b - Suc (length (n # noise))), s\<lparr>s_in := r\<rparr>)"
    using Cons.IH [of "s\<lparr>s_in := ?r\<rparr>" b'] Cons.prems b by simp
  finally show ?case .
qed

definition meta_piece :: "bytes \<Rightarrow> nat \<Rightarrow> bytes" where
  "meta_piece info k = take METADATA_PIECE_SIZE (drop (k * METADATA_PIECE_SIZE) info)"

text \<open>
  What a peer sends that has the metadata \<open>info\<close>: for each piece from \<open>k\<close> on, messages that are not metadata
  messages, then the piece.
\<close>

fun serves :: "bytes \<Rightarrow> nat \<Rightarrow> (message list \<times> message) list \<Rightarrow> bool" where
  "serves info k [] = True"
| "serves info k ((noise, m) # sc) =
     (list_all (\<lambda>n. fits n \<and> payload_of OUR_UT_METADATA_ID n = None) noise \<and> fits m \<and>
      map_option parse_metadata_response (payload_of OUR_UT_METADATA_ID m) =
        Some (Inr (MData (of_nat k) (of_nat (length info)) (meta_piece info k))) \<and>
      serves info (Suc k) sc)"

definition script_bytes :: "(message list \<times> message) list \<Rightarrow> bytes" where
  "script_bytes sc = concat (map (\<lambda>(noise, m). concat (map msg_encode noise) @ msg_encode m) sc)"

definition script_frames :: "(message list \<times> message) list \<Rightarrow> nat" where
  "script_frames sc = sum_list (map (\<lambda>(noise, m). Suc (length noise)) sc)"

definition requests :: "u8 \<Rightarrow> nat list \<Rightarrow> bytes" where
  "requests i ks = concat (map (\<lambda>k. msg_encode (Extended i (build_metadata_request (of_nat k)))) ks)"

definition fetch_progress :: "bytes \<Rightarrow> nat \<Rightarrow> nat \<Rightarrow> bytes \<times> bool list" where
  "fetch_progress info np k =
     (take (k * METADATA_PIECE_SIZE) info @ replicate (length info - k * METADATA_PIECE_SIZE) 0,
      replicate k True @ replicate (np - k) False)"

lemma piece_bounds:
  assumes "np = div_ceil n METADATA_PIECE_SIZE" "k < np"
  shows "k * METADATA_PIECE_SIZE < n"
    and "unat w = n \<Longrightarrow> piece_expected_len k np w = min METADATA_PIECE_SIZE (n - k * METADATA_PIECE_SIZE)"
proof -
  have P: "0 < METADATA_PIECE_SIZE" by (simp add: METADATA_PIECE_SIZE_def)
  show lt: "k * METADATA_PIECE_SIZE < n" using assms less_div_ceil_iff [OF P] by simp
  show "piece_expected_len k np w = min METADATA_PIECE_SIZE (n - k * METADATA_PIECE_SIZE)" if w: "unat w = n"
  proof (cases "k + 1 = np")
    case True
    then have le: "n \<le> (k + 1) * METADATA_PIECE_SIZE" using assms(1) div_ceil_le_iff [OF P, of n "k + 1"] by simp
    let ?r = "n - k * METADATA_PIECE_SIZE"
    have r: "n = k * METADATA_PIECE_SIZE + ?r" "?r \<le> METADATA_PIECE_SIZE" using lt le by auto
    have "n mod METADATA_PIECE_SIZE = ?r mod METADATA_PIECE_SIZE" using r(1) by (metis mod_mult_self3)
    also have "\<dots> = (if ?r = METADATA_PIECE_SIZE then 0 else ?r)" using r(2) by auto
    finally have "n mod METADATA_PIECE_SIZE = (if ?r = METADATA_PIECE_SIZE then 0 else ?r)" .
    then show ?thesis using True w r lt by (auto simp: piece_expected_len_def Let_def)
  next
    case False
    then have "(k + 1) * METADATA_PIECE_SIZE < n" using assms less_div_ceil_iff [OF P, of "k + 1" n] by simp
    then show ?thesis using False by (simp add: piece_expected_len_def)
  qed
qed

lemma accept_next_piece:
  assumes np: "np = div_ceil (length info) METADATA_PIECE_SIZE" and k: "k < np" and len: "length info \<le> 104857600"
  shows "accept_piece (of_nat (length info)) np (MData (of_nat k) (of_nat (length info)) (meta_piece info k)) (fetch_progress info np k) =
    Inr (fetch_progress info np (Suc k))"
proof -
  let ?P = METADATA_PIECE_SIZE and ?n = "length info"
  have un: "unat (of_nat ?n :: u32) = ?n" using len by (simp add: unat_of_nat)
  have lt: "k * ?P < ?n" using piece_bounds(1) [OF np k] .
  have "k < 104857600" using lt len by (simp add: METADATA_PIECE_SIZE_def)
  then have uk: "unat (of_nat k :: u32) = k" by (simp add: unat_of_nat)
  have el: "piece_expected_len k np (of_nat ?n) = min ?P (?n - k * ?P)" using piece_bounds(2) [OF np k un] .
  have lp: "length (meta_piece info k) = min ?P (?n - k * ?P)" by (simp add: meta_piece_def)
  have "Suc k * ?P = k * ?P + ?P" by simp
  then have T: "take (Suc k * ?P) info = take (k * ?P) info @ meta_piece info k"
    by (simp only: meta_piece_def take_add)
  have "take (k * ?P) (fst (fetch_progress info np k)) @ meta_piece info k @
      drop (k * ?P + min ?P (?n - k * ?P)) (fst (fetch_progress info np k)) = fst (fetch_progress info np (Suc k))"
    using lt unfolding fetch_progress_def fst_conv T by (simp add: min_def add.commute)
  moreover have "(snd (fetch_progress info np k))[k := True] = snd (fetch_progress info np (Suc k))"
    using k by (simp add: fetch_progress_def list_update_append Suc_diff_Suc [symmetric] replicate_append_same)
  ultimately show ?thesis
    using k uk el lp lt by (simp add: accept_piece_def Let_def fetch_progress_def prod_eq_iff)
qed

lemma fetch_pieces_honest:
  assumes "serves info k sc" "k + length sc = np" "np = div_ceil (length info) METADATA_PIECE_SIZE" "length info \<le> 104857600"
    and "s_in s = script_bytes sc @ r" "s_writable s" "script_frames sc \<le> b"
  shows "fetch_pieces (\<lambda>_. False) i (of_nat (length info)) np b (fetch_progress info np k) s =
    (Inr info, s\<lparr>s_in := r, s_out := s_out s @ requests i [k..<np]\<rparr>)"
  using assms
proof (induction sc arbitrary: k b s)
  case Nil
  have "length info \<le> np * METADATA_PIECE_SIZE"
    using Nil.prems(3) div_ceil_le_iff [of METADATA_PIECE_SIZE "length info" np] by (simp add: METADATA_PIECE_SIZE_def)
  then have st: "fst (fetch_progress info np k) = info" "position (\<lambda>got. \<not> got) (snd (fetch_progress info np k)) = None"
    using Nil.prems by (simp_all add: fetch_progress_def)
  show ?case using Nil.prems
    unfolding fetch_pieces.simps [of _ _ _ _ _ _ s] st by (simp add: requests_def script_bytes_def)
next
  case (Cons nm sc)
  obtain noise m where nm: "nm = (noise, m)" by fastforce
  obtain p where p: "payload_of OUR_UT_METADATA_ID m = Some p"
      "parse_metadata_response p = Inr (MData (of_nat k) (of_nat (length info)) (meta_piece info k))"
    using Cons.prems(1) nm by auto
  let ?w = "s\<lparr>s_out := s_out s @ msg_encode (Extended i (build_metadata_request (of_nat k)))\<rparr>"
  have k: "k < np" using Cons.prems(2) by simp
  have pos: "position (\<lambda>got. \<not> got) (snd (fetch_progress info np k)) = Some k"
    using k position_append [of "replicate k True" "\<lambda>got. \<not> got" False "replicate (np - Suc k) False"]
    by (simp add: fetch_progress_def Suc_diff_Suc [symmetric])
  have rd: "read_metadata_response (\<lambda>_. False) b ?w =
      (Inr (MData (of_nat k) (of_nat (length info)) (meta_piece info k), b - Suc (length noise)), ?w\<lparr>s_in := script_bytes sc @ r\<rparr>)"
    using Cons.prems nm p by (intro read_metadata_response_skips [where m = m])
      (auto simp: script_bytes_def script_frames_def list_all_iff)
  have "fetch_pieces (\<lambda>_. False) i (of_nat (length info)) np b (fetch_progress info np k) s =
      fetch_pieces (\<lambda>_. False) i (of_nat (length info)) np (b - Suc (length noise)) (fetch_progress info np (Suc k)) (?w\<lparr>s_in := script_bytes sc @ r\<rparr>)"
    using pos rd Cons.prems(6) accept_next_piece [OF Cons.prems(3) k Cons.prems(4)]
    by (subst fetch_pieces.simps) (simp add: io_map_err_def write_message_eq write_all_def)
  also have "\<dots> = (Inr info, s\<lparr>s_in := r, s_out := s_out s @ requests i [k..<np]\<rparr>)"
    using Cons.prems nm k Cons.IH [of "Suc k" "?w\<lparr>s_in := script_bytes sc @ r\<rparr>" "b - Suc (length noise)"]
    by (simp add: script_frames_def requests_def upt_conv_Cons)
  finally show ?case .
qed

text \<open>A concrete exchange: metadata of one byte, announced under extension id 3.\<close>

definition sample_hello :: bvalue where
  "sample_hello = BDict [(ascii ''m'', BDict [(ascii ''ut_metadata'', BInt 3)]), (ascii ''metadata_size'', BInt 1)]"

definition sample_piece :: bvalue where
  "sample_piece = BDict [(ascii ''msg_type'', BInt 1), (ascii ''piece'', BInt 0), (ascii ''total_size'', BInt 1)]"

lemma parse_value_to_bytes: "wf_bvalue v \<Longrightarrow> bdepth v \<le> MAX_DEPTH \<Longrightarrow> parse_value (to_bytes v @ r) = Inr (v, r)"
  using parse_to_bytes [of v] by (auto simp: parse_all_bencodes parse_value_bencodes)

lemma sample_hello_parse: "parse_handshake_payload (to_bytes sample_hello) =
    Inr \<lparr>their_ut_metadata_id = Some 3, their_ut_pex_id = None, metadata_size = Some 1\<rparr>"
proof -
  have "wf_bvalue sample_hello" "bdepth sample_hello \<le> MAX_DEPTH"
    by (simp_all add: sample_hello_def MAX_DEPTH_def ascii_def)
  then have "parse_all (to_bytes sample_hello) = Inr sample_hello" by (rule parse_to_bytes)
  then show ?thesis
    by (simp add: parse_handshake_payload_def sample_hello_def extension_ids_from_def metadata_size_from_def
        ut_metadata_id_from_def ut_pex_id_from_def btree_get_def MAX_METADATA_SIZE_def)
qed

lemma sample_piece_parse: "parse_metadata_response (to_bytes sample_piece @ [7]) = Inr (MData 0 1 [7])"
proof -
  have "wf_bvalue sample_piece" "bdepth sample_piece \<le> MAX_DEPTH"
    by (simp_all add: sample_piece_def MAX_DEPTH_def ascii_def)
  then have "parse_value (to_bytes sample_piece @ [7]) = Inr (sample_piece, [7])" by (rule parse_value_to_bytes)
  then show ?thesis
    by (simp add: parse_metadata_response_def sample_piece_def int_field_def btree_get_def)
qed

lemma sample_fits:
  "fits (Bitfield [128])" "fits KeepAlive" "fits Unchoke" "fits (Extended 0 (to_bytes sample_hello))"
  "fits (Extended 1 (to_bytes sample_piece @ [7]))"
  by (simp_all add: fits_def FETCH_MAX_FRAME_LEN_def METADATA_PIECE_SIZE_def sample_hello_def sample_piece_def
      to_bytes_def tag_def show_int_def show_nat.simps)

text \<open>The exchange with such a peer asks for the pieces in order, one request each, and returns the metadata.\<close>

lemma exchange_served:
  assumes "sha1 info = info_hash" "0 < length info" "length info \<le> 104857600"
    and "in_flight + length info \<le> GLOBAL_METADATA_BUDGET"
    and "parse_handshake_payload hp = Inr pi" "their_ut_metadata_id pi = Some i" "metadata_size pi = Some (of_nat (length info))"
    and "list_all (\<lambda>m. fits m \<and> payload_of EXT_HANDSHAKE_ID m = None) early" "length early < 64" "fits (Extended 0 hp)"
    and "serves info 0 sc" "length sc = div_ceil (length info) METADATA_PIECE_SIZE"
    and "length early + script_frames sc \<le> 127 + length sc"
    and "s_in s = concat (map msg_encode early) @ msg_encode (Extended 0 hp) @ script_bytes sc @ r" "s_writable s"
  shows "exchange_metadata sha1 version (\<lambda>_. False) in_flight info_hash anonymous s =
    (Inr info, s\<lparr>s_in := r, s_out := s_out s @ msg_encode (Extended 0 (build_handshake_payload version anonymous)) @
       requests i [0..<length sc]\<rparr>)"
proof -
  let ?s1 = "s\<lparr>s_out := s_out s @ msg_encode (Extended 0 (build_handshake_payload version anonymous))\<rparr>"
  let ?s2 = "?s1\<lparr>s_in := script_bytes sc @ r\<rparr>"
  let ?b = "budget_widen (64 - Suc (length early)) (length sc)"
  have hs: "read_extension_handshake (\<lambda>_. False) 64 ?s1 = (Inr (pi, 64 - Suc (length early)), ?s2)"
    using assms by (intro read_extension_handshake_skips [where m = "Extended 0 hp" and p = hp])
      (auto simp: payload_of_def EXT_HANDSHAKE_ID_def list_all_iff)
  have un: "unat (of_nat (length info) :: u32) = length info" using assms(3) by (simp add: unat_of_nat)
  have "length sc \<le> 104857600" using assms(3,12) div_ceil_le_iff [of METADATA_PIECE_SIZE "length info" 104857600]
    by (simp add: METADATA_PIECE_SIZE_def)
  then have b: "script_frames sc \<le> ?b" using assms(9,13) by (simp add: budget_widen_def EXT_NOISE_FRAME_SLACK_def)
  have fp: "fetch_pieces (\<lambda>_. False) i (of_nat (length info)) (length sc) ?b (replicate (length info) 0, replicate (length sc) False) ?s2 =
      (Inr info, ?s2\<lparr>s_in := r, s_out := s_out ?s2 @ requests i [0..<length sc]\<rparr>)"
    using fetch_pieces_honest [of info 0 sc "length sc" ?s2 r ?b i] assms b by (simp add: fetch_progress_def)
  have acq: "try_acquire in_flight (length info) = Some (in_flight + length info)"
    using assms(4) by (simp add: try_acquire_def GLOBAL_METADATA_BUDGET_def)
  have wr: "io_map_err f (write_message (Extended EXT_HANDSHAKE_ID (build_handshake_payload version anonymous))) s = (Inr (), ?s1)" for f :: "error \<Rightarrow> error"
    using assms(15) by (simp add: io_map_err_def write_message_eq write_all_def EXT_HANDSHAKE_ID_def)
  show ?thesis
    using hs fp acq un wr assms(1,6,7,12)
    by (simp add: exchange_metadata_def io_bind_def io_lift_def io_return_def EXT_HANDSHAKE_MAX_FRAMES_def Let_def)
qed

text \<open>
  A peer that can serve \<open>info\<close>: it can be reached, answers the handshake with the extension bit, sends at
  most 63 messages before its extension handshake, which gives the size, and then the pieces, with other
  messages in between as long as there are at most 64 more than pieces, plus what the first 64 leave over.
\<close>

definition can_serve :: "'p fetch_env \<Rightarrow> bytes \<Rightarrow> bytes \<Rightarrow> 'p list \<Rightarrow> bool \<Rightarrow> bytes option \<Rightarrow> socket_addr \<Rightarrow> bytes \<Rightarrow> bool" where
  "can_serve env info_hash peer_id proxies anonymous bind_iface a info \<longleftrightarrow>
     fe_sha1 env info = info_hash \<and> 0 < length info \<and> length info \<le> 104857600 \<and>
     fe_in_flight env + length info \<le> GLOBAL_METADATA_BUDGET \<and> fe_late env = (\<lambda>_. False) \<and>
     (\<exists>s h hp pi i early sc r. fetch_dial (fe_connect env 0) (fe_for_dial env 0) a proxies anonymous bind_iface = Inr s \<and>
        s_writable s \<and> wf_handshake h \<and> hs_info_hash h = info_hash \<and> supports_extension_protocol (hs_reserved h) \<and>
        s_in s = handshake_encode h @ concat (map msg_encode early) @ msg_encode (Extended 0 hp) @ script_bytes sc @ r \<and>
        list_all (\<lambda>m. fits m \<and> payload_of EXT_HANDSHAKE_ID m = None) early \<and> length early < 64 \<and> fits (Extended 0 hp) \<and>
        parse_handshake_payload hp = Inr pi \<and> their_ut_metadata_id pi = Some i \<and> metadata_size pi = Some (of_nat (length info)) \<and>
        serves info 0 sc \<and> length sc = div_ceil (length info) METADATA_PIECE_SIZE \<and>
        length early + script_frames sc \<le> 127 + length sc)"

lemma try_fetch_served:
  assumes "can_serve env info_hash peer_id proxies anonymous bind_iface a info"
  shows "try_fetch_from env a info_hash peer_id proxies anonymous bind_iface = Inr info"
proof -
  obtain s h hp pi i early sc r where d: "fetch_dial (fe_connect env 0) (fe_for_dial env 0) a proxies anonymous bind_iface = Inr s"
    and w: "s_writable s" and h: "wf_handshake h" "hs_info_hash h = info_hash" "supports_extension_protocol (hs_reserved h)"
    and s: "s_in s = handshake_encode h @ concat (map msg_encode early) @ msg_encode (Extended 0 hp) @ script_bytes sc @ r"
    and e: "list_all (\<lambda>m. fits m \<and> payload_of EXT_HANDSHAKE_ID m = None) early" "length early < 64" "fits (Extended 0 hp)"
    and p: "parse_handshake_payload hp = Inr pi" "their_ut_metadata_id pi = Some i" "metadata_size pi = Some (of_nat (length info))"
    and sc: "serves info 0 sc" "length sc = div_ceil (length info) METADATA_PIECE_SIZE" "length early + script_frames sc \<le> 127 + length sc"
    using assms unfolding can_serve_def by blast
  have env: "fe_sha1 env info = info_hash" "0 < length info" "length info \<le> 104857600"
      "fe_in_flight env + length info \<le> GLOBAL_METADATA_BUDGET" "fe_late env = (\<lambda>_. False)"
    using assms unfolding can_serve_def by blast+
  let ?t = "s\<lparr>s_in := concat (map msg_encode early) @ msg_encode (Extended 0 hp) @ script_bytes sc @ r,
      s_out := s_out s @ handshake_encode (handshake_new (fe_cell env) info_hash peer_id)\<rparr>"
  have hs: "perform_outgoing (fe_cell env) info_hash peer_id s = (Inr h, ?t)"
    using w h s length_handshake_encode [OF h(1)] handshake_decode_encode [OF h(1), of "[]"]
    by (simp add: perform_outgoing_def io_bind_def write_all_def read_exact_def io_lift_def io_return_def)
  obtain t where "exchange_metadata (fe_sha1 env) (fe_version env) (\<lambda>_. False) (fe_in_flight env) info_hash anonymous ?t = (Inr info, t)"
    using exchange_served [where ?sha1.0 = "fe_sha1 env" and s = ?t and r = r, OF env(1-4) p e sc(1-3)] w by auto
  then have "plain_attempt env info_hash peer_id anonymous s = (Inr info, t)"
    using hs h env(5) by (auto simp: plain_attempt_def bt_handshake_def io_simps)
  then show ?thesis using d by (simp add: try_fetch_from_def)
qed

lemma first_success_ex: "a \<in> set as \<Longrightarrow> attempt a = Inr bs \<Longrightarrow> \<exists>cs. first_success attempt as = Some cs"
  by (induction as) (auto split: sum.splits)

lemma fetch_metadata_authentic:
  assumes "fetch_metadata env finished info_hash peer_id peer_pool proxies anonymous bind_iface = Inr bs"
  shows "\<exists>a \<in> set finished. fe_sha1 (env a) bs = info_hash \<and> 0 < length bs \<and> length bs \<le> 104857600 \<and>
    fe_in_flight (env a) + length bs \<le> GLOBAL_METADATA_BUDGET"
proof -
  have "first_success (\<lambda>a. try_fetch_from (env a) a info_hash peer_id proxies anonymous bind_iface) finished = Some bs"
    using assms by (auto simp: fetch_metadata_def split: if_splits option.splits)
  from first_success_Some [OF this] try_fetch_authentic show ?thesis by blast
qed

text \<open>
  C30: Fetching the metadata of a magnet link succeeds as soon as one of the peers that finish in time can serve it,
  whatever the other peers send; the result hashes to the info-hash of the link.
\<close>

theorem metadata_served:
  assumes "can_serve (env a) info_hash peer_id proxies anonymous bind_iface a info" "a \<in> set finished" "peer_pool \<noteq> []"
    and "\<forall>b. fe_sha1 (env b) = sha1"
  shows "\<exists>bs. fetch_metadata env finished info_hash peer_id peer_pool proxies anonymous bind_iface = Inr bs \<and> sha1 bs = info_hash"
proof -
  obtain bs where "fetch_metadata env finished info_hash peer_id peer_pool proxies anonymous bind_iface = Inr bs"
    using first_success_ex [OF assms(2), of "\<lambda>a. try_fetch_from (env a) a info_hash peer_id proxies anonymous bind_iface"]
      try_fetch_served [OF assms(1)] assms(3) by (auto simp: fetch_metadata_def)
  then show ?thesis using fetch_metadata_authentic assms(4) by fastforce
qed

definition sample_env :: "'p fetch_env" where
  "sample_env = \<lparr>fe_sha1 = (\<lambda>_. replicate 20 0), fe_modpow = (\<lambda>b e m. b ^ e mod m), fe_version = [], fe_cell = None,
     fe_render = id, fe_late = (\<lambda>_. False), fe_connect = (\<lambda>_ _ _. Inl (Io ''refused'')), fe_for_dial = (\<lambda>_ _. id),
     fe_entropy = [], fe_pad_a = [], fe_pad_c = [], fe_in_flight = 0\<rparr>"

definition sample_stream :: stream where
  "sample_stream =
     \<lparr>s_in = handshake_encode \<lparr>hs_reserved = [0, 0, 0, 0, 0, 16, 0, 0], hs_info_hash = replicate 20 0, hs_peer_id = replicate 20 5\<rparr> @
        concat (map msg_encode [Bitfield [128], KeepAlive]) @ msg_encode (Extended 0 (to_bytes sample_hello)) @
        script_bytes [([Unchoke], Extended 1 (to_bytes sample_piece @ [7]))] @ [], s_out = [], s_writable = True\<rparr>"

definition sample_peer :: socket_addr where "sample_peer = SocketAddr (V4 9 9 9 9) 80"

lemma sample_can_serve:
  "can_serve (sample_env\<lparr>fe_connect := \<lambda>_ _ _. Inr sample_stream\<rparr>) (replicate 20 0) pid [] False None sample_peer [7]"
proof -
  let ?sc = "[([Unchoke], Extended 1 (to_bytes sample_piece @ [7]))]"
  let ?h = "\<lparr>hs_reserved = [0, 0, 0, 0, 0, 16, 0, 0], hs_info_hash = replicate 20 0, hs_peer_id = replicate 20 5\<rparr> :: handshake"
  have sv: "serves [7] 0 ?sc"
    using sample_fits(3,5) sample_piece_parse
    by (simp add: payload_of_def OUR_UT_METADATA_ID_def meta_piece_def METADATA_PIECE_SIZE_def del: msg_encode.simps)
  have d: "fetch_dial (\<lambda>_ _. Inr sample_stream) (\<lambda>_. id) sample_peer [] False None = Inr sample_stream" by code_simp
  have h: "wf_handshake ?h" "supports_extension_protocol (hs_reserved ?h)" by code_simp+
  show ?thesis unfolding can_serve_def
    using d h sv sample_fits sample_hello_parse
    by (intro conjI exI [of _ sample_stream] exI [of _ ?h] exI [of _ "to_bytes sample_hello"] exI [of _ "[Bitfield [128], KeepAlive]"]
        exI [of _ ?sc] exI [of _ "[]"] exI [of _ "\<lparr>their_ut_metadata_id = Some 3, their_ut_pex_id = None, metadata_size = Some 1\<rparr>"] exI [of _ 3])
      (simp_all add: sample_env_def GLOBAL_METADATA_BUDGET_def sample_stream_def payload_of_def script_frames_def div_ceil_def
        METADATA_PIECE_SIZE_def del: msg_encode.simps)
qed

theorem metadata_served_witness:
  "\<exists>bs. fetch_metadata (\<lambda>_. sample_env\<lparr>fe_connect := \<lambda>_ _ _. Inr sample_stream\<rparr>) [sample_peer] (replicate 20 0) (replicate 20 1)
     [sample_peer] [] False None = Inr bs \<and> (\<lambda>_. replicate 20 0) bs = replicate 20 (0 :: u8)"
  by (rule metadata_served [OF sample_can_serve]) (simp_all add: sample_env_def)

text \<open>The outcome of a fetch depends on the connections that its dials open, and on no others.\<close>

lemma fetch_same_dials:
  assumes "\<And>a n. fetch_dial (connect a n) (fe_for_dial (env a) n) a proxies anonymous bind_iface =
      fetch_dial (fe_connect (env a) n) (fe_for_dial (env a) n) a proxies anonymous bind_iface"
  shows "fetch_metadata (\<lambda>a. (env a)\<lparr>fe_connect := connect a\<rparr>) finished info_hash peer_id peer_pool proxies anonymous bind_iface =
    fetch_metadata env finished info_hash peer_id peer_pool proxies anonymous bind_iface"
proof -
  have at: "plain_attempt ((env a)\<lparr>fe_connect := connect a\<rparr>) = plain_attempt (env a)"
      "encrypted_attempt ((env a)\<lparr>fe_connect := connect a\<rparr>) = encrypted_attempt (env a)" for a
    by (simp_all add: fun_eq_iff plain_attempt_def encrypted_attempt_def bt_handshake_def cong: if_cong)
  have "try_fetch_from ((env a)\<lparr>fe_connect := connect a\<rparr>) a info_hash peer_id proxies anonymous bind_iface =
      try_fetch_from (env a) a info_hash peer_id proxies anonymous bind_iface" for a
    by (simp add: try_fetch_from_def at assms cong: sum.case_cong if_cong)
  then show ?thesis by (simp add: fetch_metadata_def)
qed

end
