(* ===== verification/RT_Tracker.thy ===== *)
theory RT_Tracker
  imports RT_Magnet RT_Extension
begin

text \<open>
  Announcing to trackers: the request and response types and the choice of trackers
  (\<open>src/src/tracker/mod.rs\<close>), the HTTP announce URL, the redirect and response rules and the scrubbing of
  error texts (\<open>src/src/tracker/http.rs\<close>). The HTTP client and its URL parser are parameters. Text that is
  cleaned for display is a list of Unicode scalar values, other strings are UTF-8 bytes.
\<close>

section \<open>Requests and responses\<close>

datatype event = EvNone | Started | Completed | Stopped

fun as_udp_code :: "event \<Rightarrow> u32" where
  "as_udp_code EvNone = 0"
| "as_udp_code Completed = 1"
| "as_udp_code Started = 2"
| "as_udp_code Stopped = 3"

fun as_http_param :: "event \<Rightarrow> bytes option" where
  "as_http_param EvNone = None"
| "as_http_param Started = Some (ascii ''started'')"
| "as_http_param Completed = Some (ascii ''completed'')"
| "as_http_param Stopped = Some (ascii ''stopped'')"

record announce_request =
  ar_info_hash :: bytes
  ar_peer_id :: bytes
  ar_port :: u16
  ar_uploaded :: nat
  ar_downloaded :: nat
  ar_left :: nat
  ar_event :: event
  ar_num_want :: int

text \<open>Intervals are in seconds.\<close>

record announce_response =
  an_interval :: nat
  an_min_interval :: "nat option"
  an_seeders :: "u32 option"
  an_leechers :: "u32 option"
  an_peers :: "socket_addr list"

section \<open>The HTTP announce\<close>

definition is_ascii_alphanumeric :: "u8 \<Rightarrow> bool" where
  "is_ascii_alphanumeric b \<longleftrightarrow> (48 \<le> b \<and> b \<le> 57) \<or> (65 \<le> b \<and> b \<le> 90) \<or> (97 \<le> b \<and> b \<le> 122)"

definition hex_upper :: "nat \<Rightarrow> u8" where
  "hex_upper n = (if n < 10 then of_nat (48 + n) else of_nat (55 + n))"

definition percent_encode :: "bytes \<Rightarrow> bytes" where
  "percent_encode bs = concat (map (\<lambda>b.
     if is_ascii_alphanumeric b \<or> b \<in> {45, 95, 46, 126} then [b]
     else [37, hex_upper (unat b div 16), hex_upper (unat b mod 16)]) bs)"

definition build_url :: "bytes \<Rightarrow> announce_request \<Rightarrow> bytes" where
  "build_url base req =
     base @ (if 63 \<in> set base then 38 else 63) # ascii ''info_hash='' @ percent_encode (ar_info_hash req) @
     ascii ''&peer_id='' @ percent_encode (ar_peer_id req) @ ascii ''&port='' @ show_nat (unat (ar_port req)) @
     ascii ''&uploaded='' @ show_nat (ar_uploaded req) @ ascii ''&downloaded='' @ show_nat (ar_downloaded req) @
     ascii ''&left='' @ show_nat (ar_left req) @ ascii ''&compact=1'' @ ascii ''&numwant='' @ show_int (ar_num_want req) @
     (case as_http_param (ar_event req) of Some e \<Rightarrow> ascii ''&event='' @ e | None \<Rightarrow> [])"

text \<open>
  \<open>url_host_is_ipv6_literal\<close>: after the scheme, up to the first \<open>/\<close>, \<open>?\<close> or \<open>#\<close>, without user information.
\<close>

definition split_scheme :: "'a list \<Rightarrow> 'a list \<Rightarrow> ('a list \<times> 'a list) option" where
  "split_scheme sep s =
     map_option (\<lambda>i. (take i s, drop (i + length sep) s))
       (position (\<lambda>i. take (length sep) (drop i s) = sep) [0..<Suc (length s - length sep)])"

definition up_to :: "'a set \<Rightarrow> 'a list \<Rightarrow> 'a list" where
  "up_to delims s = takeWhile (\<lambda>c. c \<notin> delims) s"

definition after_last :: "'a \<Rightarrow> 'a list \<Rightarrow> 'a list" where
  "after_last c s = rev (takeWhile (\<lambda>x. x \<noteq> c) (rev s))"

definition url_host_is_ipv6_literal :: "bytes \<Rightarrow> bool" where
  "url_host_is_ipv6_literal url =
     (let rest = (case split_scheme (ascii ''://'') url of Some (_, r) \<Rightarrow> r | None \<Rightarrow> url);
          authority = up_to {47, 63, 35} rest;
          host = after_last 64 authority
      in take 1 host = [91])"

text \<open>Redirects: the parts of a parsed URL that make its origin.\<close>

record origin =
  or_scheme :: bytes
  or_host :: "bytes option"
  or_port :: "u16 option"

datatype redirect_action = Follow | Stop | TooManyRedirects

definition same_redirect_origin :: "origin \<Rightarrow> origin \<Rightarrow> bool" where
  "same_redirect_origin first next \<longleftrightarrow>
     (or_scheme first, or_host first, or_port first) = (or_scheme next, or_host next, or_port next)"

definition same_host_redirect_policy :: "origin list \<Rightarrow> origin \<Rightarrow> redirect_action" where
  "same_host_redirect_policy previous url =
     (if length previous \<ge> 10 then TooManyRedirects
      else case previous of
        [] \<Rightarrow> Follow
      | first # _ \<Rightarrow> if same_redirect_origin first url then Follow else Stop)"

text \<open>The body arrives in chunks; \<open>None\<close> stands for an error of the connection.\<close>

definition MAX_ANNOUNCE_RESPONSE_BYTES :: nat where "MAX_ANNOUNCE_RESPONSE_BYTES = 4 * 1024 * 1024"

fun read_chunks :: "bytes option list \<Rightarrow> bytes \<Rightarrow> bytes res" where
  "read_chunks [] out = Inr out"
| "read_chunks (None # cs) out = Inl (Tracker ''http recv: '')"
| "read_chunks (Some chunk # cs) out =
     (if length out + length chunk > MAX_ANNOUNCE_RESPONSE_BYTES then Inl (Tracker ''announce response exceeded '')
      else read_chunks cs (out @ chunk))"

definition read_bounded_body :: "nat option \<Rightarrow> bytes option list \<Rightarrow> bytes res" where
  "read_bounded_body content_length cs =
     (case content_length of
        Some n \<Rightarrow> if n > MAX_ANNOUNCE_RESPONSE_BYTES then Inl (Tracker ''announce response too large: Content-Length '')
                  else read_chunks cs []
      | None \<Rightarrow> read_chunks cs [])"

section \<open>The tracker's response\<close>

definition MAX_INTERVAL_SECS :: nat where "MAX_INTERVAL_SECS = 86400"
definition MAX_PEERS_PER_ANNOUNCE :: nat where "MAX_PEERS_PER_ANNOUNCE = 8192"

definition parse_compact_v4 :: "bytes \<Rightarrow> socket_addr list res" where
  "parse_compact_v4 b =
     (if length b mod 6 \<noteq> 0 then Inl (Tracker ''compact v4 peers length '')
      else Inr (map v4_of_chunk (take MAX_PEERS_PER_ANNOUNCE (chunks 6 b))))"

definition parse_compact_v6 :: "bytes \<Rightarrow> socket_addr list res" where
  "parse_compact_v6 b =
     (if length b mod 18 \<noteq> 0 then Inl (Tracker ''compact v6 peers length '')
      else Inr (map v6_of_chunk (take MAX_PEERS_PER_ANNOUNCE (chunks 18 b))))"

text \<open>\<open>parse_ip\<close> is \<open>IpAddr::from_str\<close>.\<close>

definition peer_entry :: "(bytes \<Rightarrow> ip_addr option) \<Rightarrow> bvalue \<Rightarrow> socket_addr res" where
  "peer_entry parse_ip entry =
     rbind (map_err (as_dict entry) (\<lambda>_. Tracker ''peer entry: '')) (\<lambda>dd.
     rbind (ok_or (btree_get dd (ascii ''ip'')) (Tracker ''peer missing ip'')) (\<lambda>v.
     rbind (map_err (as_str v) (\<lambda>_. Tracker ''peer ip: '')) (\<lambda>ip.
     rbind (ok_or (btree_get dd (ascii ''port'')) (Tracker ''peer missing port'')) (\<lambda>v.
     rbind (map_err (as_int v) (\<lambda>_. Tracker ''peer port: '')) (\<lambda>port.
     rbind (ensure (0 \<le> port \<and> port \<le> 65535) (Tracker ''peer port out of range'')) (\<lambda>_.
     rbind (ok_or (parse_ip ip) (Tracker ''peer ip parse: '')) (\<lambda>addr.
     Inr (SocketAddr addr (of_int port)))))))))"

fun peer_dicts :: "(bytes \<Rightarrow> ip_addr option) \<Rightarrow> bvalue list \<Rightarrow> socket_addr list \<Rightarrow> socket_addr list res" where
  "peer_dicts parse_ip [] peers = Inr peers"
| "peer_dicts parse_ip (entry # es) peers =
     (if length peers \<ge> MAX_PEERS_PER_ANNOUNCE then Inr peers
      else rbind (peer_entry parse_ip entry) (\<lambda>p. peer_dicts parse_ip es (peers @ [p])))"

definition peers_field :: "(bytes \<Rightarrow> ip_addr option) \<Rightarrow> (bytes, bvalue) btree \<Rightarrow> socket_addr list res" where
  "peers_field parse_ip d =
     (case btree_get d (ascii ''peers'') of
        None \<Rightarrow> Inr []
      | Some (BBytes b) \<Rightarrow> parse_compact_v4 b
      | Some (BList items) \<Rightarrow> peer_dicts parse_ip items []
      | Some _ \<Rightarrow> Inl (Tracker ''peers field has unexpected type''))"

definition peers6_field :: "(bytes, bvalue) btree \<Rightarrow> socket_addr list res" where
  "peers6_field d =
     (case btree_get d (ascii ''peers6'') of Some (BBytes b) \<Rightarrow> parse_compact_v6 b | _ \<Rightarrow> Inr [])"

definition clamp_interval :: "int \<Rightarrow> nat" where
  "clamp_interval n = min (nat (max n 0)) MAX_INTERVAL_SECS"

definition opt_int_field :: "(bytes, bvalue) btree \<Rightarrow> string \<Rightarrow> int option" where
  "opt_int_field d k = Option.bind (btree_get d (ascii k)) (\<lambda>v. res_ok (as_int v))"

definition u32_try_from :: "int \<Rightarrow> u32 option" where
  "u32_try_from n = (if 0 \<le> n \<and> n \<le> int u32_max then Some (of_int n) else None)"

definition parse_response :: "(bytes \<Rightarrow> ip_addr option) \<Rightarrow> bytes \<Rightarrow> announce_response res" where
  "parse_response parse_ip body =
     rbind (map_err (parse_all body) (\<lambda>_. Tracker ''bencode: '')) (\<lambda>v.
     rbind (map_err (as_dict v) (\<lambda>_. Tracker ''response: '')) (\<lambda>d.
     case btree_get d (ascii ''failure reason'') of
       Some reason \<Rightarrow> Inl (Tracker ''failure: '')
     | None \<Rightarrow>
         rbind (ok_or (btree_get d (ascii ''interval'')) (Tracker ''response missing interval'')) (\<lambda>i.
         rbind (map_err (as_int i) (\<lambda>_. Tracker ''interval: '')) (\<lambda>interval.
         rbind (peers_field parse_ip d) (\<lambda>peers.
         rbind (peers6_field d) (\<lambda>peers6.
         Inr \<lparr>an_interval = clamp_interval interval,
              an_min_interval = map_option clamp_interval (opt_int_field d ''min interval''),
              an_seeders = Option.bind (opt_int_field d ''complete'') u32_try_from,
              an_leechers = Option.bind (opt_int_field d ''incomplete'') u32_try_from,
              an_peers = peers @ peers6\<rparr>))))))"

section \<open>Cleaning texts for display\<close>

definition codes :: "string \<Rightarrow> nat list" where
  "codes s = map of_char s"

definition redact_url_query :: "nat list \<Rightarrow> nat list" where
  "redact_url_query url =
     (let base = up_to {63, 35} url;
          base = (case split_scheme (codes ''://'') base of
                    Some (scheme, rest) \<Rightarrow>
                      let authority = up_to {47} rest
                      in scheme @ codes ''://'' @ after_last 64 authority @ drop (length authority) rest
                  | None \<Rightarrow> base);
          filtered = filter (\<lambda>c. \<not> is_control c) base
      in if length filtered > 512 then take 512 filtered @ codes ''..'' else filtered)"

definition sanitize_tracker_text :: "nat list \<Rightarrow> nat list" where
  "sanitize_tracker_text text = sanitize_remote_text text"

text \<open>\<open>str::replace\<close> for a pattern that is not empty.\<close>

function str_replace :: "nat list \<Rightarrow> nat list \<Rightarrow> nat list \<Rightarrow> nat list" where
  "str_replace pat new s =
     (if pat = [] \<or> s = [] then s
      else if take (length pat) s = pat then new @ str_replace pat new (drop (length pat) s)
      else hd s # str_replace pat new (List.tl s))"
  by pat_completeness auto
termination
  by (relation "measure (\<lambda>(pat, new, s). length s)") auto

declare str_replace.simps [simp del]

text \<open>\<open>display\<close> is the client's rendering of the URL once parsed, where it parses.\<close>

definition scrub_url_from_message :: "(nat list \<Rightarrow> nat list option) \<Rightarrow> nat list \<Rightarrow> nat list \<Rightarrow> nat list" where
  "scrub_url_from_message display msg url =
     (if msg = [] \<or> url = [] then msg
      else let redacted = redact_url_query url in
      if redacted = url then msg
      else let out = str_replace url redacted msg in
      case display url of
        Some disp \<Rightarrow> if disp \<noteq> url \<and> disp \<noteq> redacted then str_replace disp redacted out else out
      | None \<Rightarrow> out)"

definition SENSITIVE_PARAMS :: "nat list list" where
  "SENSITIVE_PARAMS = [codes ''passkey'', codes ''info_hash'', codes ''peer_id'', codes ''key'', codes ''auth'']"

definition ascii_lower :: "nat \<Rightarrow> nat" where
  "ascii_lower c = (if 65 \<le> c \<and> c \<le> 90 then c + 32 else c)"

definition param_at :: "nat list \<Rightarrow> nat list \<Rightarrow> bool" where
  "param_at s k \<longleftrightarrow>
     length k + 1 \<le> length s \<and> s ! length k = 61 \<and> map ascii_lower (take (length k) s) = map ascii_lower k"

function redact_param_values :: "nat list \<Rightarrow> nat list" where
  "redact_param_values s =
     (if s = [] then []
      else case List.find (param_at s) SENSITIVE_PARAMS of
        Some k \<Rightarrow>
          let nl = length k + 1
          in take nl s @ codes ''[scrubbed]'' @ redact_param_values (dropWhile (\<lambda>c. c \<notin> {38, 35}) (drop nl s))
      | None \<Rightarrow> hd s # redact_param_values (List.tl s))"
  by pat_completeness auto
termination
  by (relation "measure length") (auto intro!: le_less_trans [OF length_dropWhile_le])

declare redact_param_values.simps [simp del]

definition scrub_announce_error :: "(nat list \<Rightarrow> nat list option) \<Rightarrow> nat list \<Rightarrow> nat list \<Rightarrow> nat list \<Rightarrow> nat list" where
  "scrub_announce_error display msg full_url base_url =
     redact_param_values (scrub_url_from_message display (scrub_url_from_message display msg full_url) base_url)"

text \<open>The text of a \<open>failure reason\<close> as it enters the error of \<open>parse_response\<close>.\<close>

definition failure_text :: "(nat list \<Rightarrow> nat list option) \<Rightarrow> nat list \<Rightarrow> nat list \<Rightarrow> nat list \<Rightarrow> nat list" where
  "failure_text display raw full_url base_url = sanitize_tracker_text (scrub_announce_error display raw full_url base_url)"

section \<open>Walking the tiers\<close>

text \<open>How an announce leaves: the log of a walk holds the channel and the URL of each announce.\<close>

datatype 'p channel = UdpDirect "bytes option" | HttpDirect "bytes option" | HttpProxied 'p "bytes option"

type_synonym 'p announce_log = "('p channel \<times> bytes) list"

text \<open>The trackers: \<open>outcome n ch url\<close> is the result of the announce number \<open>n\<close>.\<close>

type_synonym 'p trackers_env = "nat \<Rightarrow> 'p channel \<Rightarrow> bytes \<Rightarrow> announce_response res"

definition announce_via :: "'p trackers_env \<Rightarrow> 'p channel \<Rightarrow> bytes \<Rightarrow> ('p announce_log, announce_response) step" where
  "announce_via outcome ch url lg = (outcome (length lg) ch url, lg @ [(ch, url)])"

definition http_announce :: "'p trackers_env \<Rightarrow> bytes \<Rightarrow> 'p option \<Rightarrow> bytes option \<Rightarrow> ('p announce_log, announce_response) step" where
  "http_announce outcome url proxy bind_iface =
     announce_via outcome (case proxy of Some p \<Rightarrow> HttpProxied p bind_iface | None \<Rightarrow> HttpDirect bind_iface) url"

definition starts_with :: "bytes \<Rightarrow> string \<Rightarrow> bool" where
  "starts_with s p \<longleftrightarrow> take (length p) s = ascii p"

definition announce_with_proxy_anon ::
  "'p trackers_env \<Rightarrow> bytes \<Rightarrow> 'p option \<Rightarrow> bool \<Rightarrow> bytes option \<Rightarrow> ('p announce_log, announce_response) step" where
  "announce_with_proxy_anon outcome url proxy anonymous bind_iface =
     (if anonymous \<and> proxy = None then
        io_fail (Tracker ''anonymous mode requires a SOCKS5 proxy; refusing direct tracker announce: '')
      else if starts_with url ''udp://'' then
        (if anonymous \<or> proxy \<noteq> None then
           io_fail (Tracker ''skipping UDP tracker while proxy is configured or anonymous mode is on: '')
         else announce_via outcome (UdpDirect bind_iface) url)
      else if starts_with url ''http://'' \<or> starts_with url ''https://'' then
        http_announce outcome url proxy bind_iface
      else io_fail (Tracker ''unsupported tracker scheme: ''))"

text \<open>\<open>host_of\<close> is the host of a URL, where the URL parses and has one; \<open>parse_ip\<close> is \<open>IpAddr::from_str\<close>.\<close>

definition tracker_url_dialable :: "(bytes \<Rightarrow> bytes option) \<Rightarrow> (bytes \<Rightarrow> ip_addr option) \<Rightarrow> bytes \<Rightarrow> bool \<Rightarrow> bool" where
  "tracker_url_dialable host_of parse_ip url strict =
     (case host_of url of Some h \<Rightarrow> is_dialable_url_host parse_ip h strict | None \<Rightarrow> False)"

definition announce_screened ::
  "(bytes \<Rightarrow> bool \<Rightarrow> bool) \<Rightarrow> 'p trackers_env \<Rightarrow> bytes \<Rightarrow> 'p option \<Rightarrow> bool \<Rightarrow> bytes option \<Rightarrow> ('p announce_log, announce_response) step" where
  "announce_screened dialable outcome url proxy anonymous bind_iface =
     (if \<not> dialable url (anonymous \<or> proxy \<noteq> None) then io_fail (Tracker ''tracker host refused by martian screen: '')
      else http_announce outcome url proxy bind_iface)"

fun walk_urls ::
  "(bytes \<Rightarrow> bool \<Rightarrow> bool) \<Rightarrow> 'p trackers_env \<Rightarrow> 'p option \<Rightarrow> bool \<Rightarrow> bytes option \<Rightarrow> bytes list \<Rightarrow> error option \<Rightarrow>
   'p announce_log \<Rightarrow> (error option + bytes \<times> announce_response) \<times> 'p announce_log" where
  "walk_urls dialable outcome proxy anonymous bind_iface [] last_err lg = (Inl last_err, lg)"
| "walk_urls dialable outcome proxy anonymous bind_iface (url # urls) last_err lg =
     (if \<not> dialable url (anonymous \<or> proxy \<noteq> None) then
        walk_urls dialable outcome proxy anonymous bind_iface urls (Some (Tracker ''tracker host refused by martian screen: '')) lg
      else case announce_with_proxy_anon outcome url proxy anonymous bind_iface lg of
        (Inr r, lg) \<Rightarrow> (Inr (url, r), lg)
      | (Inl e, lg) \<Rightarrow> walk_urls dialable outcome proxy anonymous bind_iface urls (Some e) lg)"

definition walk_tiers ::
  "(bytes \<Rightarrow> bool \<Rightarrow> bool) \<Rightarrow> 'p trackers_env \<Rightarrow> bytes list list \<Rightarrow> bytes option \<Rightarrow> 'p option \<Rightarrow> bool \<Rightarrow> bytes option \<Rightarrow>
   ('p announce_log, bytes \<times> announce_response) step" where
  "walk_tiers dialable outcome tiers fallback_single proxy anonymous bind_iface lg =
     (case walk_urls dialable outcome proxy anonymous bind_iface (concat tiers) None lg of
        (Inr ok, lg) \<Rightarrow> (Inr ok, lg)
      | (Inl last_err, lg) \<Rightarrow>
          (case fallback_single of
             None \<Rightarrow> (Inl (case last_err of Some e \<Rightarrow> e | None \<Rightarrow> Tracker ''no trackers configured''), lg)
           | Some url \<Rightarrow>
               if \<not> dialable url (anonymous \<or> proxy \<noteq> None) then
                 (Inl (Tracker ''tracker host refused by martian screen: ''), lg)
               else case announce_with_proxy_anon outcome url proxy anonymous bind_iface lg of
                 (Inr r, lg) \<Rightarrow> (Inr (url, r), lg)
               | (Inl e, lg) \<Rightarrow> (Inl e, lg)))"

text \<open>\<open>cut_off\<close> is the number of announces begun when the deadline of the walk passes, if it does.\<close>

definition announce_walk ::
  "nat option \<Rightarrow> (bytes \<Rightarrow> bool \<Rightarrow> bool) \<Rightarrow> 'p trackers_env \<Rightarrow> bytes list list \<Rightarrow> bytes option \<Rightarrow> 'p option \<Rightarrow> bool \<Rightarrow> bytes option \<Rightarrow>
   ('p announce_log, bytes \<times> announce_response) step" where
  "announce_walk cut_off dialable outcome tiers fallback_single proxy anonymous bind_iface lg =
     (case walk_tiers dialable outcome tiers fallback_single proxy anonymous bind_iface lg of
        (r, lg') \<Rightarrow>
          (case cut_off of
             None \<Rightarrow> (r, lg')
           | Some n \<Rightarrow> (Inl (Tracker ''announce walk exceeded its ''), take (length lg + n) lg')))"

section \<open>Bounds and round trips\<close>

lemma read_chunks_bounded: "read_chunks cs out = Inr b \<Longrightarrow> length out \<le> MAX_ANNOUNCE_RESPONSE_BYTES \<Longrightarrow>
    length b \<le> MAX_ANNOUNCE_RESPONSE_BYTES \<and> b = out @ concat (map the cs)"
  by (induction cs out rule: read_chunks.induct) (auto split: if_splits)

lemma peer_dicts_length: "peer_dicts parse_ip es peers = Inr ps \<Longrightarrow> length peers \<le> MAX_PEERS_PER_ANNOUNCE \<Longrightarrow>
    length ps \<le> MAX_PEERS_PER_ANNOUNCE"
  by (induction parse_ip es peers rule: peer_dicts.induct) (auto split: if_splits)

lemma parse_response_bounded:
  assumes "parse_response parse_ip body = Inr r"
  shows "an_interval r \<le> 86400" and "length (an_peers r) \<le> 16384"
proof -
  obtain d ps qs n where r: "peers_field parse_ip d = Inr ps" "peers6_field d = Inr qs" "an_peers r = ps @ qs"
      and i: "an_interval r = clamp_interval n"
    using assms that by (auto simp: parse_response_def split: option.splits)
  have "length ps \<le> 8192" using r(1) peer_dicts_length [of parse_ip _ "[]" ps]
    by (auto simp: peers_field_def parse_compact_v4_def MAX_PEERS_PER_ANNOUNCE_def split: option.splits bvalue.splits if_splits)
  moreover have "length qs \<le> 8192" using r(2)
    by (auto simp: peers6_field_def parse_compact_v6_def MAX_PEERS_PER_ANNOUNCE_def split: option.splits bvalue.splits if_splits)
  ultimately show "length (an_peers r) \<le> 16384" using r(3) by simp
  show "an_interval r \<le> 86400" using i by (auto simp: clamp_interval_def MAX_INTERVAL_SECS_def)
qed

lemma hex_upper_nibble:
  assumes "n < 16"
  shows "hex_nibble (hex_upper n) = Inr (of_nat n)" and "hex_upper n \<notin> {37, 38, 61, 63, 35}"
proof -
  have "list_all (\<lambda>n. hex_nibble (hex_upper n) = Inr (of_nat n) \<and> hex_upper n \<notin> {37, 38, 61, 63, 35}) [0..<16]" by code_simp
  then show "hex_nibble (hex_upper n) = Inr (of_nat n)" "hex_upper n \<notin> {37, 38, 61, 63, 35}"
    using assms by (auto simp: list_all_iff)
qed

lemma percent_roundtrip: "percent_decode (percent_encode b) = Inr b \<and> set (percent_encode b) \<inter> {38, 61, 63, 35} = {}"
proof (induction b)
  case (Cons c b)
  show ?case
  proof (cases "is_ascii_alphanumeric c \<or> c \<in> {45, 95, 46, 126}")
    case True
    then have "c \<notin> {37, 38, 61, 63, 35}" by (auto simp: is_ascii_alphanumeric_def)
    then show ?thesis using True Cons by (simp add: percent_encode_def)
  next
    case False
    let ?h = "unat c div 16" and ?l = "unat c mod 16"
    have h: "?h < 16" using octet_less [of c] by simp
    have "unat (of_nat ?h :: u8) = ?h" "unat (of_nat ?l :: u8) = ?l" using h by (simp_all add: unat_of_nat)
    then have "hex_byte (hex_upper ?h) (hex_upper ?l) = Inr c"
      using h hex_upper_nibble(1) [of ?h] hex_upper_nibble(1) [of ?l] by (simp add: hex_byte_Inr)
    then show ?thesis using False Cons hex_upper_nibble(2) [of ?h] hex_upper_nibble(2) [of ?l] h by (simp add: percent_encode_def)
  qed
qed (simp add: percent_encode_def)

section \<open>Sensitive values never reach a log\<close>

definition delim :: "nat \<Rightarrow> bool" where
  "delim c \<longleftrightarrow> c = 38 \<or> c = 35"

lemma sensitive_names: "k \<in> set SENSITIVE_PARAMS \<Longrightarrow> 61 \<notin> set (map ascii_lower k) \<and> k \<noteq> []"
  by (auto simp: SENSITIVE_PARAMS_def codes_def ascii_lower_def)

lemma lower_61: "ascii_lower c = 61 \<longleftrightarrow> c = 61"
  by (auto simp: ascii_lower_def)

text \<open>Whether a parameter starts here does not depend on what follows the next equals sign.\<close>

lemma param_at_name:
  assumes "length p < length k" "k \<in> set SENSITIVE_PARAMS"
  shows "\<not> param_at (p @ 61 # w) k"
proof
  assume "param_at (p @ 61 # w) k"
  then have "map ascii_lower (take (length k) (p @ 61 # w)) = map ascii_lower k" by (simp add: param_at_def)
  moreover have "take (length k) (p @ 61 # w) ! length p = 61" "length p < length (take (length k) (p @ 61 # w))"
    using assms(1) by (auto simp: nth_append)
  ultimately have "map ascii_lower k ! length p = 61" using lower_61 by (metis nth_map)
  then show False using sensitive_names [OF assms(2)] assms(1) by (metis in_set_conv_nth length_map)
qed

lemma param_at_eq: "k \<in> set SENSITIVE_PARAMS \<Longrightarrow> param_at (p @ 61 # v) k \<longleftrightarrow> param_at (p @ 61 # v') k"
proof (cases "length k \<le> length p")
  case True
  then show ?thesis by (auto simp: param_at_def nth_append)
next
  case False
  then show "k \<in> set SENSITIVE_PARAMS \<Longrightarrow> ?thesis" using param_at_name [of p k v] param_at_name [of p k v'] by (simp only: not_le)
qed

lemma find_param_eq: "List.find (param_at (p @ 61 # v)) SENSITIVE_PARAMS = List.find (param_at (p @ 61 # v')) SENSITIVE_PARAMS"
  using param_at_eq by (intro find_cong refl) blast

lemma find_SomeD: "List.find P xs = Some x \<Longrightarrow> x \<in> set xs \<and> P x"
  by (auto simp: find_Some_iff)

lemma redact_step:
  "redact_param_values (x # s) =
     (case List.find (param_at (x # s)) SENSITIVE_PARAMS of
        Some k \<Rightarrow> take (length k + 1) (x # s) @ codes ''[scrubbed]'' @ redact_param_values (dropWhile (\<lambda>c. \<not> delim c) (drop (length k + 1) (x # s)))
      | None \<Rightarrow> x # redact_param_values s)"
  by (subst redact_param_values.simps) (simp add: Let_def delim_def cong: option.case_cong)

lemma value_dropped: "list_all (\<lambda>c. \<not> delim c) q \<Longrightarrow> list_all (\<lambda>c. \<not> delim c) v \<Longrightarrow> post = [] \<or> delim (hd post) \<Longrightarrow>
    dropWhile (\<lambda>c. \<not> delim c) (q @ 61 # v @ post) = post"
  by (cases post) (auto simp: list_all_iff dropWhile_append delim_def)

lemma name_no_delim: "K \<in> set SENSITIVE_PARAMS \<Longrightarrow> map ascii_lower k = map ascii_lower K \<Longrightarrow> list_all (\<lambda>c. \<not> delim c) k"
proof -
  assume K: "K \<in> set SENSITIVE_PARAMS" and e: "map ascii_lower k = map ascii_lower K"
  have "38 \<notin> set (map ascii_lower K)" "35 \<notin> set (map ascii_lower K)"
    using K by (auto simp: SENSITIVE_PARAMS_def codes_def ascii_lower_def)
  then have "38 \<notin> ascii_lower ` set k" "35 \<notin> ascii_lower ` set k" using arg_cong [OF e, of set] by auto
  moreover have "ascii_lower c = c" if "delim c" for c using that by (auto simp: delim_def ascii_lower_def)
  ultimately show ?thesis by (auto simp: list_all_iff delim_def image_iff)
qed

lemma redact_independent:
  assumes K: "K \<in> set SENSITIVE_PARAMS" "map ascii_lower k = map ascii_lower K"
    and v: "list_all (\<lambda>c. \<not> delim c) v" "list_all (\<lambda>c. \<not> delim c) v'" "post = [] \<or> delim (hd post)"
  shows "redact_param_values (pre @ k @ 61 # v @ post) = redact_param_values (pre @ k @ 61 # v' @ post)"
proof (induction pre rule: length_induct)
  case (1 pre)
  define p where "p = pre @ k"
  have k: "k \<noteq> []" using sensitive_names [OF K(1)] K(2) by auto
  then obtain x t where p: "p = x # t" unfolding p_def by (cases "pre @ k") auto
  let ?f = "List.find (param_at (p @ 61 # v @ post)) SENSITIVE_PARAMS"
  have same: "List.find (param_at (p @ 61 # v' @ post)) SENSITIVE_PARAMS = ?f" by (rule find_param_eq)
  have "redact_param_values (p @ 61 # v @ post) = redact_param_values (p @ 61 # v' @ post)"
  proof (cases ?f)
    case None
    have "pre \<noteq> []"
    proof
      assume "pre = []"
      then have "param_at (p @ 61 # v @ post) K" using K(2) map_eq_imp_length_eq [OF K(2)] by (simp add: p_def param_at_def nth_append)
      then show False using None K(1) by (auto simp: find_None_iff)
    qed
    then obtain pre' where pre: "pre = x # pre'" "t = pre' @ k" using p p_def by (cases pre) auto
    then show ?thesis using None same 1 by (simp add: p redact_step)
  next
    case (Some k')
    have k': "k' \<in> set SENSITIVE_PARAMS" "length k' \<le> length p"
      using find_SomeD [OF Some] param_at_name [of p k' "v @ post"] by (simp, meson not_le)
    let ?n = "length k' + 1"
    have "redact_param_values (dropWhile (\<lambda>c. \<not> delim c) (drop ?n (p @ 61 # v @ post))) =
        redact_param_values (dropWhile (\<lambda>c. \<not> delim c) (drop ?n (p @ 61 # v' @ post)))" 
    proof (cases "list_all (\<lambda>c. \<not> delim c) (drop ?n p)")
      case True
      have "drop ?n (p @ 61 # w) = w \<or> drop ?n (p @ 61 # w) = drop ?n p @ 61 # w" for w
        using k'(2) by (cases "length k' = length p") auto
      moreover have "dropWhile (\<lambda>c. \<not> delim c) (w @ post) = post" if "list_all (\<lambda>c. \<not> delim c) w" for w
        using that v(3) by (cases post) (auto simp: list_all_iff dropWhile_append)
      ultimately have "dropWhile (\<lambda>c. \<not> delim c) (drop ?n (p @ 61 # w @ post)) = post" if "list_all (\<lambda>c. \<not> delim c) w" for w
        using value_dropped [OF True that v(3)] that by (metis append_Cons)
      then show ?thesis using v by simp
    next
      case False
      then have n2: "\<not> list_all (\<lambda>c. \<not> delim c) (drop ?n pre)"
        using name_no_delim [OF K] by (auto simp: p_def list_all_iff dest: in_set_dropD)
      then have n1: "?n \<le> length pre" by (cases "?n \<le> length pre") auto
      note n = n1 n2
      define q where "q = dropWhile (\<lambda>c. \<not> delim c) (drop ?n pre)"
      have "dropWhile (\<lambda>c. \<not> delim c) (drop ?n (p @ 61 # w @ post)) = q @ k @ 61 # w @ post" for w
        using n by (auto simp: p_def q_def list_all_iff dropWhile_append)
      moreover have "length q < length pre"
        using n(1) length_dropWhile_le [of "\<lambda>c. \<not> delim c" "drop ?n pre"] unfolding q_def by simp
      ultimately show ?thesis using 1 by simp
    qed
    moreover have "take ?n (p @ 61 # v @ post) = take ?n (p @ 61 # v' @ post)"
      using k'(2) by (cases "length k' = length p") auto
    ultimately show ?thesis using Some same by (simp add: p redact_step)
  qed
  then show ?case by (simp add: p_def)
qed



section \<open>Where announces go\<close>

text \<open>The channel an announce takes, and whether it takes one.\<close>

definition channel_for :: "'p option \<Rightarrow> bytes option \<Rightarrow> bytes \<Rightarrow> 'p channel" where
  "channel_for proxy bind_iface url =
     (case proxy of
        Some p \<Rightarrow> HttpProxied p bind_iface
      | None \<Rightarrow> if starts_with url ''udp://'' then UdpDirect bind_iface else HttpDirect bind_iface)"

definition announceable :: "'p option \<Rightarrow> bool \<Rightarrow> bytes \<Rightarrow> bool" where
  "announceable proxy anonymous url \<longleftrightarrow>
     \<not> (anonymous \<and> proxy = None) \<and>
     (if starts_with url ''udp://'' then proxy = None else starts_with url ''http://'' \<or> starts_with url ''https://'')"

lemma announced:
  "announceable proxy anonymous url \<Longrightarrow> announce_with_proxy_anon outcome url proxy anonymous bind_iface lg =
     (outcome (length lg) (channel_for proxy bind_iface url) url, lg @ [(channel_for proxy bind_iface url, url)])"
  by (auto simp: announce_with_proxy_anon_def announceable_def channel_for_def announce_via_def http_announce_def
      split: option.splits if_splits)

lemma not_announced:
  "\<not> announceable proxy anonymous url \<Longrightarrow> \<exists>e. announce_with_proxy_anon outcome url proxy anonymous bind_iface lg = (Inl e, lg)"
  by (auto simp: announce_with_proxy_anon_def announceable_def io_fail_def split: if_splits)

text \<open>The trackers that pass the screen, tried in order up to the first that answers.\<close>

definition eligible :: "(bytes \<Rightarrow> bool \<Rightarrow> bool) \<Rightarrow> 'p option \<Rightarrow> bool \<Rightarrow> bytes list \<Rightarrow> bytes list" where
  "eligible dialable proxy anonymous urls =
     filter (\<lambda>url. dialable url (anonymous \<or> proxy \<noteq> None) \<and> announceable proxy anonymous url) urls"

fun try_in_order :: "'p trackers_env \<Rightarrow> (bytes \<Rightarrow> 'p channel) \<Rightarrow> bytes list \<Rightarrow> 'p announce_log \<Rightarrow> (bytes \<times> announce_response) option \<times> 'p announce_log" where
  "try_in_order outcome ch [] lg = (None, lg)"
| "try_in_order outcome ch (url # urls) lg =
     (case outcome (length lg) (ch url) url of
        Inr r \<Rightarrow> (Some (url, r), lg @ [(ch url, url)])
      | Inl _ \<Rightarrow> try_in_order outcome ch urls (lg @ [(ch url, url)]))"

lemma eligible_simps:
  "eligible dialable proxy anonymous [] = []"
  "eligible dialable proxy anonymous (url # urls) =
     (if dialable url (anonymous \<or> proxy \<noteq> None) \<and> announceable proxy anonymous url
      then url # eligible dialable proxy anonymous urls else eligible dialable proxy anonymous urls)"
  "eligible dialable proxy anonymous (us @ vs) = eligible dialable proxy anonymous us @ eligible dialable proxy anonymous vs"
  by (simp_all add: eligible_def)

lemma try_in_order_append:
  "try_in_order outcome ch (us @ vs) lg =
     (case try_in_order outcome ch us lg of (Some x, lg) \<Rightarrow> (Some x, lg) | (None, lg) \<Rightarrow> try_in_order outcome ch vs lg)"
  by (induction us arbitrary: lg) (auto split: sum.splits)

lemma walk_urls_try:
  "walk_urls dialable outcome proxy anonymous bind_iface urls le lg = (r, lg') \<Longrightarrow>
     try_in_order outcome (channel_for proxy bind_iface) (eligible dialable proxy anonymous urls) lg =
       (case r of Inr x \<Rightarrow> Some x | Inl _ \<Rightarrow> None, lg')"
proof (induction urls arbitrary: le lg)
  case (Cons url urls)
  consider "\<not> dialable url (anonymous \<or> proxy \<noteq> None)"
    | "dialable url (anonymous \<or> proxy \<noteq> None)" "announceable proxy anonymous url"
    | "dialable url (anonymous \<or> proxy \<noteq> None)" "\<not> announceable proxy anonymous url" by blast
  then show ?case
  proof cases
    case 1
    then show ?thesis using Cons by (simp add: eligible_simps)
  next
    case 2
    then show ?thesis using Cons announced [OF 2(2), of outcome bind_iface lg]
      by (cases "outcome (length lg) (channel_for proxy bind_iface url) url") (auto simp: eligible_simps)
  next
    case 3
    then show ?thesis using Cons not_announced [OF 3(2), of outcome bind_iface lg] by (auto simp: eligible_simps)
  qed
qed (auto simp: eligible_simps)

text \<open>
  C33: A walk over the announce tiers announces to exactly the trackers that pass the address screen and have
  a permitted channel, in the order of the tiers and with the fallback last, until the first one answers, whose
  URL and response it returns. With a proxy every announce goes through it over HTTP and UDP trackers are left out; in
  anonymous mode without a proxy no announce is made at all.
\<close>

theorem walk_tiers_in_order:
  "map_prod res_ok id (walk_tiers dialable outcome tiers fallback_single proxy anonymous bind_iface lg) =
   try_in_order outcome (channel_for proxy bind_iface)
     (eligible dialable proxy anonymous (concat tiers @ (case fallback_single of Some u \<Rightarrow> [u] | None \<Rightarrow> []))) lg"
proof -
  obtain r lg1 where w: "walk_urls dialable outcome proxy anonymous bind_iface (concat tiers) None lg = (r, lg1)" by fastforce
  note t = walk_urls_try [OF w]
  show ?thesis
  proof (cases r)
    case (Inr x)
    then show ?thesis using w t by (simp add: walk_tiers_def eligible_simps try_in_order_append)
  next
    case (Inl le)
    show ?thesis
    proof (cases fallback_single)
      case None
      then show ?thesis using w t Inl by (simp add: walk_tiers_def eligible_simps)
    next
      case (Some url)
      consider "announceable proxy anonymous url" | "\<not> announceable proxy anonymous url" by blast
      then show ?thesis
      proof cases
        case 1
        then show ?thesis using w t Inl Some announced [OF 1, of outcome bind_iface lg1]
          by (auto simp: walk_tiers_def eligible_simps try_in_order_append split: sum.splits)
      next
        case 2
        then show ?thesis using w t Inl Some not_announced [OF 2, of outcome bind_iface lg1]
          by (auto simp: walk_tiers_def eligible_simps try_in_order_append)
      qed
    qed
  qed
qed

text \<open>
  The entry point for single URLs screens the host but not the mode: in anonymous mode without a proxy it announces
  directly, which \<open>announce_with_proxy_anon\<close> refuses.
\<close>

lemma screened_announces_directly:
  "dialable url True \<Longrightarrow> announce_screened dialable outcome url None True bind_iface [] =
     (outcome 0 (HttpDirect bind_iface) url, [(HttpDirect bind_iface, url)])"
  by (simp add: announce_screened_def http_announce_def announce_via_def)

end
