(* ===== verification/RT_Tracker_Udp.thy ===== *)
theory RT_Tracker_Udp
  imports RT_Tracker
begin

text \<open>
  The UDP tracker protocol (\<open>src/src/tracker/udp.rs\<close>): choosing the address, the connect exchange, the
  announce with its retries and reconnections, and the two packet formats. The network, the clock and the random
  generator are a world that answers the \<open>n\<close>-th effect; the log holds the datagrams sent and received.
\<close>

section \<open>Packets\<close>

definition PROTOCOL_ID :: u64 where "PROTOCOL_ID = 0x41727101980"
definition ACTION_CONNECT :: u32 where "ACTION_CONNECT = 0"
definition ACTION_ANNOUNCE :: u32 where "ACTION_ANNOUNCE = 1"
definition ACTION_ERROR :: u32 where "ACTION_ERROR = 3"
definition MAX_RETRIES :: nat where "MAX_RETRIES = 4"

text \<open>Milliseconds.\<close>

definition CONNECTION_ID_MAX_AGE :: int where "CONNECTION_ID_MAX_AGE = 45000"

definition build_connect_packet :: "u32 \<Rightarrow> bytes" where
  "build_connect_packet transaction_id = be64 PROTOCOL_ID @ be32 ACTION_CONNECT @ be32 transaction_id"

definition build_announce_packet :: "u64 \<Rightarrow> u32 \<Rightarrow> u32 \<Rightarrow> announce_request \<Rightarrow> bytes" where
  "build_announce_packet connection_id transaction_id key req =
     be64 connection_id @ be32 ACTION_ANNOUNCE @ be32 transaction_id @ ar_info_hash req @ ar_peer_id req @
     be64 (of_nat (ar_downloaded req)) @ be64 (of_nat (ar_left req)) @ be64 (of_nat (ar_uploaded req)) @
     be32 (as_udp_code (ar_event req)) @ be32 0 @ be32 key @ be32 (of_int (ar_num_want req)) @ be16 (ar_port req)"

definition parse_announce_response :: "bytes \<Rightarrow> announce_response res" where
  "parse_announce_response buf =
     (if length buf < 20 then Inl (Tracker ''announce resp header < 20 bytes'')
      else let peers_bytes = drop 20 buf in
      if length peers_bytes mod 6 \<noteq> 0 then Inl (Tracker ''peer payload '')
      else Inr \<lparr>an_interval = unat (be32_at buf 8), an_min_interval = None,
                an_seeders = Some (be32_at buf 16), an_leechers = Some (be32_at buf 12),
                an_peers = map v4_of_chunk (chunks 6 peers_bytes)\<rparr>)"

definition pick_udp_addr :: "socket_addr list \<Rightarrow> socket_addr res" where
  "pick_udp_addr addrs = rbind (filter_dialable_addrs (sort addrs) False) (\<lambda>kept. Inr (kept ! 0))"

section \<open>The exchange\<close>

datatype udp_recv = Timeout | RecvError | Datagram bytes

record udp_world =
  uw_send_ok :: "nat \<Rightarrow> bool"
  uw_recv :: "nat \<Rightarrow> udp_recv"
  uw_rand :: "nat \<Rightarrow> u32"
  uw_clock :: "nat \<Rightarrow> int"

datatype udp_event = Sent bytes | Got bytes

type_synonym udp_state = "nat \<times> udp_event list"

definition udp_rand :: "udp_world \<Rightarrow> (udp_state, u32) step" where
  "udp_rand w st = (case st of (n, lg) \<Rightarrow> (Inr (uw_rand w n), (Suc n, lg)))"

definition udp_now :: "udp_world \<Rightarrow> (udp_state, int) step" where
  "udp_now w st = (case st of (n, lg) \<Rightarrow> (Inr (uw_clock w n), (Suc n, lg)))"

definition udp_send :: "udp_world \<Rightarrow> string \<Rightarrow> bytes \<Rightarrow> (udp_state, unit) step" where
  "udp_send w e p st =
     (case st of (n, lg) \<Rightarrow> if uw_send_ok w n then (Inr (), (Suc n, lg @ [Sent p])) else (Inl (Tracker e), (Suc n, lg)))"

text \<open>\<open>recv\<close> into a buffer keeps what fits; \<open>None\<close> is a timeout.\<close>

definition udp_recv_into :: "udp_world \<Rightarrow> string \<Rightarrow> nat \<Rightarrow> (udp_state, bytes option) step" where
  "udp_recv_into w e cap st =
     (case st of (n, lg) \<Rightarrow>
        (case uw_recv w n of
           Timeout \<Rightarrow> (Inr None, (Suc n, lg))
         | RecvError \<Rightarrow> (Inl (Tracker e), (Suc n, lg))
         | Datagram d \<Rightarrow> (Inr (Some (take cap d)), (Suc n, lg @ [Got (take cap d)]))))"

text \<open>The loops count the attempts left.\<close>

fun connect_loop :: "udp_world \<Rightarrow> nat \<Rightarrow> (udp_state, u64 \<times> int) step" where
  "connect_loop w 0 = io_fail (Tracker ''connect retries exhausted'')"
| "connect_loop w (Suc k) =
     io_bind (udp_rand w) (\<lambda>transaction_id.
     io_bind (udp_send w ''udp send connect: '' (build_connect_packet transaction_id)) (\<lambda>_.
     io_bind (udp_recv_into w ''udp recv connect: '' 1500) (\<lambda>r.
     case r of
       None \<Rightarrow> connect_loop w k
     | Some buf \<Rightarrow>
         if length buf < 16 then io_fail (Tracker ''connect resp too short: '')
         else let action = be32_at buf 0; txid = be32_at buf 4 in
         if txid \<noteq> transaction_id then connect_loop w k
         else if action = ACTION_ERROR then io_fail (Tracker ''connect error: '')
         else if action \<noteq> ACTION_CONNECT then io_fail (Tracker ''connect bad action '')
         else io_bind (udp_now w) (\<lambda>now. io_return (of_be64 (be32_at buf 8) (be32_at buf 12), now)))))"

definition udp_connect :: "udp_world \<Rightarrow> (udp_state, u64 \<times> int) step" where
  "udp_connect w = connect_loop w MAX_RETRIES"

definition refresh_connection :: "udp_world \<Rightarrow> u64 \<times> int \<Rightarrow> (udp_state, u64 \<times> int) step" where
  "refresh_connection w conn =
     io_bind (udp_now w) (\<lambda>now.
     if duration_since now (snd conn) \<ge> CONNECTION_ID_MAX_AGE then udp_connect w else io_return conn)"

fun announce_loop :: "udp_world \<Rightarrow> announce_request \<Rightarrow> nat \<Rightarrow> u64 \<times> int \<Rightarrow> (udp_state, announce_response) step" where
  "announce_loop w req 0 conn = io_fail (Tracker ''announce retries exhausted'')"
| "announce_loop w req (Suc k) conn =
     io_bind (refresh_connection w conn) (\<lambda>conn.
     io_bind (udp_rand w) (\<lambda>transaction_id.
     io_bind (udp_rand w) (\<lambda>key.
     io_bind (udp_send w ''udp send announce: '' (build_announce_packet (fst conn) transaction_id key req)) (\<lambda>_.
     io_bind (udp_recv_into w ''udp recv announce: '' 65535) (\<lambda>r.
     case r of
       None \<Rightarrow> announce_loop w req k conn
     | Some buf \<Rightarrow>
         if length buf < 8 then io_fail (Tracker ''announce resp too short'')
         else let action = be32_at buf 0; txid = be32_at buf 4 in
         if txid \<noteq> transaction_id then announce_loop w req k conn
         else if action = ACTION_ERROR then
           io_bind (udp_now w) (\<lambda>now. announce_loop w req k (fst conn, now - CONNECTION_ID_MAX_AGE))
         else if action \<noteq> ACTION_ANNOUNCE then io_fail (Tracker ''announce bad action '')
         else io_lift (parse_announce_response buf))))))"

definition do_announce :: "udp_world \<Rightarrow> announce_request \<Rightarrow> u64 \<times> int \<Rightarrow> (udp_state, announce_response) step" where
  "do_announce w req conn = announce_loop w req MAX_RETRIES conn"

text \<open>\<open>lookup\<close> is the resolver and \<open>bind_ok\<close> whether the socket can be opened and connected to the address.\<close>

definition udp_announce ::
  "(bytes \<Rightarrow> socket_addr list option) \<Rightarrow> (socket_addr \<Rightarrow> bytes option \<Rightarrow> bool) \<Rightarrow> (socket_addr \<Rightarrow> udp_world) \<Rightarrow>
   bytes \<Rightarrow> announce_request \<Rightarrow> bytes option \<Rightarrow> (udp_state, announce_response) step" where
  "udp_announce lookup bind_ok world url req bind_iface =
     io_bind (io_lift (ok_or (strip_prefix (ascii ''udp://'') url) (Tracker ''not a udp URL: ''))) (\<lambda>host_port.
     io_bind (io_lift (ok_or (lookup (up_to {47} host_port)) (Tracker ''dns: ''))) (\<lambda>addrs.
     io_bind (io_lift (pick_udp_addr addrs)) (\<lambda>addr.
     if \<not> bind_ok addr bind_iface then io_fail (Tracker ''udp bind: '')
     else io_bind (udp_connect (world addr)) (\<lambda>conn. do_announce (world addr) req conn))))"

section \<open>Every accepted answer is to the last announce, under a connection the tracker granted\<close>

text \<open>A connect exchange in the log: the request and the answer with its transaction id that grants \<open>cid\<close>.\<close>

definition grants :: "udp_event list \<Rightarrow> u64 \<Rightarrow> bool" where
  "grants lg cid \<longleftrightarrow> (\<exists>pre post txid buf. lg = pre @ [Sent (build_connect_packet txid), Got buf] @ post \<and> 16 \<le> length buf \<and>
     be32_at buf 0 = ACTION_CONNECT \<and> be32_at buf 4 = txid \<and> cid = of_be64 (be32_at buf 8) (be32_at buf 12))"

lemma grants_append: "grants lg cid \<Longrightarrow> grants (lg @ more') cid"
  unfolding grants_def by (metis append_assoc)

lemma udp_effects [io_simps]:
  "udp_rand w (n, lg) = (Inr x, st') \<longleftrightarrow> x = uw_rand w n \<and> st' = (Suc n, lg)"
  "udp_now w (n, lg) = (Inr t, st') \<longleftrightarrow> t = uw_clock w n \<and> st' = (Suc n, lg)"
  "udp_send w e p (n, lg) = (Inr u, st') \<longleftrightarrow> uw_send_ok w n \<and> st' = (Suc n, lg @ [Sent p])"
  "udp_recv_into w e cap (n, lg) = (Inr r, st') \<longleftrightarrow>
     (uw_recv w n = Timeout \<and> r = None \<and> st' = (Suc n, lg)) \<or>
     (\<exists>d. uw_recv w n = Datagram d \<and> r = Some (take cap d) \<and> st' = (Suc n, lg @ [Got (take cap d)]))"
  by (auto simp: udp_rand_def udp_now_def udp_send_def udp_recv_into_def split: udp_recv.splits)

definition sends :: "udp_event list \<Rightarrow> nat" where
  "sends lg = length (filter (\<lambda>e. case e of Sent _ \<Rightarrow> True | Got _ \<Rightarrow> False) lg)"

lemma sends_simps [simp]:
  "sends [] = 0" "sends (Sent p # lg) = Suc (sends lg)" "sends (Got d # lg) = sends lg" "sends (lg @ lg') = sends lg + sends lg'"
  by (simp_all add: sends_def)

text \<open>What a step adds to the log, whether it succeeds or fails: at most \<open>k\<close> datagrams are sent.\<close>

definition adds :: "nat \<Rightarrow> (udp_state, 'a) step \<Rightarrow> bool" where
  "adds k m \<longleftrightarrow> (\<forall>n lg. \<exists>n' ys. snd (m (n, lg)) = (n', lg @ ys) \<and> sends ys \<le> k)"

lemma adds_basic [intro]:
  "adds k (udp_rand w)" "adds k (udp_now w)" "adds (Suc k) (udp_send w e p)" "adds k (udp_recv_into w e cap)"
  "adds k (io_fail er)" "adds k (io_return x)" "adds k (io_lift r)"
  by (auto simp: adds_def udp_rand_def udp_now_def udp_send_def udp_recv_into_def io_fail_def io_return_def io_lift_def
      split: udp_recv.splits)

lemma adds_bind:
  assumes m: "adds j m" and f: "\<And>x. adds k (f x)"
  shows "adds (j + k) (io_bind m f)"
  unfolding adds_def
proof (intro allI)
  fix n lg
  obtain r n1 ys where ys: "m (n, lg) = (r, (n1, lg @ ys))" "sends ys \<le> j"
    using m unfolding adds_def by (metis prod.collapse)
  show "\<exists>n' ys. snd (io_bind m f (n, lg)) = (n', lg @ ys) \<and> sends ys \<le> j + k"
  proof (cases r)
    case (Inl e)
    then show ?thesis using ys by (auto simp: io_bind_def)
  next
    case (Inr x)
    obtain n2 zs where "snd (f x (n1, lg @ ys)) = (n2, (lg @ ys) @ zs)" "sends zs \<le> k"
      using f [of x] unfolding adds_def by blast
    then show ?thesis using ys Inr by (intro exI [of _ n2] exI [of _ "ys @ zs"]) (simp add: io_bind_def)
  qed
qed

lemma adds_bind0: "adds 0 m \<Longrightarrow> (\<And>x. adds k (f x)) \<Longrightarrow> adds k (io_bind m f)"
  using adds_bind [of 0 m k f] by simp

lemma adds_bind1: "adds 1 m \<Longrightarrow> (\<And>x. adds k (f x)) \<Longrightarrow> adds (Suc k) (io_bind m f)"
  using adds_bind [of 1 m k f] by simp

lemma connect_loop_adds: "adds k (connect_loop w k)"
proof (induction k)
  case (Suc k)
  show ?case unfolding connect_loop.simps Let_def
    using Suc.IH by (intro adds_bind0 adds_bind1) (auto intro!: adds_bind0 split: option.splits)
qed auto

lemma refresh_adds: "adds 4 (refresh_connection w conn)"
  unfolding refresh_connection_def udp_connect_def MAX_RETRIES_def
  using connect_loop_adds [of 4 w] by (intro adds_bind0) auto

lemma announce_loop_adds: "adds (5 * k) (announce_loop w req k conn)"
proof (induction k arbitrary: conn)
  case (Suc k)
  have "adds (4 + Suc (5 * k)) (announce_loop w req (Suc k) conn)"
    unfolding announce_loop.simps Let_def using Suc.IH
    by (intro adds_bind [OF refresh_adds] adds_bind0 adds_bind1) (auto intro!: adds_bind0 split: option.splits)
  then show ?case by simp
qed auto

lemma connect_loop_grants:
  "connect_loop w k (n, lg) = (Inr (cid, t), (n', lg')) \<Longrightarrow> grants lg' cid"
proof (induction k arbitrary: n lg)
  case (Suc k)
  let ?p = "build_connect_packet (uw_rand w n)"
  from Suc.prems consider
      m l where "connect_loop w k (m, l) = (Inr (cid, t), (n', lg'))"
    | d where "16 \<le> length (take 1500 d)" "be32_at (take 1500 d) 4 = uw_rand w n" "be32_at (take 1500 d) 0 = ACTION_CONNECT"
        "cid = of_be64 (be32_at (take 1500 d) 8) (be32_at (take 1500 d) 12)" "lg' = lg @ [Sent ?p, Got (take 1500 d)]"
    by (auto simp: io_simps Let_def not_less split: if_splits)
  then show ?case
  proof cases
    case 2
    then show ?thesis unfolding grants_def by (metis append_Nil2)
  qed (use Suc.IH in blast)
qed (simp add: io_simps)

lemma refresh_grants:
  assumes "refresh_connection w conn (n, lg) = (Inr conn', (n', lg'))" "grants lg (fst conn)"
  shows "grants lg' (fst conn')"
  using assms connect_loop_grants
  by (cases conn') (fastforce simp: refresh_connection_def udp_connect_def io_simps split: if_splits)

text \<open>The last exchange of a log: an announce under a granted connection and its answer.\<close>

definition answered :: "announce_request \<Rightarrow> announce_response \<Rightarrow> udp_event list \<Rightarrow> bool" where
  "answered req resp lg \<longleftrightarrow> (\<exists>pre cid txid key buf.
     lg = pre @ [Sent (build_announce_packet cid txid key req), Got buf] \<and> grants pre cid \<and>
     be32_at buf 0 = ACTION_ANNOUNCE \<and> be32_at buf 4 = txid \<and> parse_announce_response buf = Inr resp)"

lemma announce_loop_answered:
  "announce_loop w req k conn (n, lg) = (Inr resp, (n', lg')) \<Longrightarrow> grants lg (fst conn) \<Longrightarrow> answered req resp lg'"
proof (induction k arbitrary: conn n lg)
  case (Suc k)
  from Suc.prems(1) obtain c n1 lg1 where c: "refresh_connection w conn (n, lg) = (Inr c, (n1, lg1))"
    and s: "uw_send_ok w (Suc (Suc n1))"
    and r: "io_bind (udp_recv_into w ''udp recv announce: '' 65535) (\<lambda>r. case r of None \<Rightarrow> announce_loop w req k c
       | Some buf \<Rightarrow> if length buf < 8 then io_fail (Tracker ''announce resp too short'')
         else let action = be32_at buf 0; txid = be32_at buf 4 in
         if txid \<noteq> uw_rand w n1 then announce_loop w req k c
         else if action = ACTION_ERROR then
           io_bind (udp_now w) (\<lambda>now. announce_loop w req k (fst c, now - CONNECTION_ID_MAX_AGE))
         else if action \<noteq> ACTION_ANNOUNCE then io_fail (Tracker ''announce bad action '')
         else io_lift (parse_announce_response buf))
       (Suc (Suc (Suc n1)), lg1 @ [Sent (build_announce_packet (fst c) (uw_rand w n1) (uw_rand w (Suc n1)) req)]) = (Inr resp, (n', lg'))"
    by (auto simp: io_simps)
  have g: "grants (lg1 @ ys) (fst c)" for ys using refresh_grants [OF c Suc.prems(2)] by (rule grants_append)
  from r consider
      m ys t where "announce_loop w req k (fst c, t) (m, lg1 @ ys) = (Inr resp, (n', lg'))"
    | d where "be32_at d 0 = ACTION_ANNOUNCE" "be32_at d 4 = uw_rand w n1" "parse_announce_response d = Inr resp"
        "lg' = lg1 @ [Sent (build_announce_packet (fst c) (uw_rand w n1) (uw_rand w (Suc n1)) req), Got d]"
    by (cases c) (auto simp: io_simps Let_def split: if_splits)
  then show ?case
  proof cases
    case 1
    then show ?thesis using Suc.IH g by (metis fst_conv)
  next
    case 2
    then show ?thesis using g [of "[]"] unfolding answered_def by (metis append_Nil2)
  qed
qed (simp add: io_simps)

lemma announce_packet_length:
  "length (ar_info_hash req) = 20 \<Longrightarrow> length (ar_peer_id req) = 20 \<Longrightarrow> length (build_announce_packet cid txid key req) = 98"
  by (simp add: build_announce_packet_def)

lemma pick_udp_addr_Inr:
  assumes "pick_udp_addr addrs = Inr a"
  shows "a \<in> set addrs \<and> is_dialable_resolved_ip (sa_ip a) False"
proof -
  obtain kept where k: "kept = filter (\<lambda>a. is_dialable_resolved_ip (sa_ip a) False) (sort addrs)" "kept \<noteq> []" "a = kept ! 0"
    using assms by (auto simp: pick_udp_addr_def filter_dialable_addrs_def Let_def split: if_splits)
  then have "a \<in> set kept" using nth_mem [of 0 kept] by (simp del: nth_mem)
  then show ?thesis unfolding k(1) by simp
qed

lemma udp_announce_sends: "adds 24 (udp_announce lookup bind_ok world url req bind_iface)"
proof -
  have "adds (4 + 5 * 4) (io_bind (udp_connect w) (do_announce w req))" for w
    using connect_loop_adds [of 4 w] announce_loop_adds [of 4 w req]
    by (intro adds_bind) (simp_all add: udp_connect_def do_announce_def MAX_RETRIES_def)
  then show ?thesis unfolding udp_announce_def by (intro adds_bind0) auto
qed

text \<open>A tracker that grants a connection and answers the first announce with one peer.\<close>

definition sample_udp_world :: udp_world where
  "sample_udp_world =
     \<lparr>uw_send_ok = (\<lambda>_. True),
      uw_recv = (\<lambda>n. Datagram (if n = 2 then be32 0 @ be32 7 @ be32 1 @ be32 2
        else be32 1 @ be32 7 @ be32 1800 @ be32 3 @ be32 4 @ [9, 9, 9, 9, 0, 80])),
      uw_rand = (\<lambda>_. 7), uw_clock = (\<lambda>_. 0)\<rparr>"

definition sample_request :: announce_request where
  "sample_request = \<lparr>ar_info_hash = replicate 20 1, ar_peer_id = replicate 20 2, ar_port = 6881, ar_uploaded = 0,
     ar_downloaded = 0, ar_left = 5, ar_event = Started, ar_num_want = 50\<rparr>"

definition sample_response :: announce_response where
  "sample_response = \<lparr>an_interval = 1800, an_min_interval = None, an_seeders = Some 4, an_leechers = Some 3,
     an_peers = [SocketAddr (V4 9 9 9 9) 80]\<rparr>"

lemma sample_reply_parsed: "parse_announce_response (be32 1 @ be32 7 @ be32 1800 @ be32 3 @ be32 4 @ [9, 9, 9, 9, 0, 80]) = Inr sample_response"
  by (simp add: parse_announce_response_def sample_response_def be32_def be32_at_def of_be32_def chunks.simps v4_of_chunk_def of_be16_def)

definition sample_grant :: bytes where "sample_grant = be32 0 @ be32 7 @ be32 1 @ be32 2"
definition sample_reply :: bytes where "sample_reply = be32 1 @ be32 7 @ be32 1800 @ be32 3 @ be32 4 @ [9, 9, 9, 9, 0, 80]"

lemma sample_fields:
  "be32_at sample_grant 0 = 0" "be32_at sample_grant 4 = 7" "be32_at sample_grant 8 = 1" "be32_at sample_grant 12 = 2" "length sample_grant = 16"
  "be32_at sample_reply 0 = 1" "be32_at sample_reply 4 = 7" "length sample_reply = 26"
  by (simp_all add: sample_grant_def sample_reply_def be32_def be32_at_def of_be32_def)

lemma sample_recv: "uw_recv sample_udp_world n = Datagram (if n = 2 then sample_grant else sample_reply)"
  by (simp add: sample_udp_world_def sample_grant_def sample_reply_def)

lemmas udp_effect_defs = udp_rand_def udp_now_def udp_send_def udp_recv_into_def io_bind_def io_return_def io_lift_def

lemma sample_connect:
  "udp_connect sample_udp_world (0, []) = (Inr (of_be64 1 2, 0), (4, [Sent (build_connect_packet 7), Got sample_grant]))"
proof -
  have r: "MAX_RETRIES = Suc 3" by (simp add: MAX_RETRIES_def)
  have "uw_rand sample_udp_world n = 7" "uw_send_ok sample_udp_world n" "uw_clock sample_udp_world n = 0" for n
    by (simp_all add: sample_udp_world_def)
  then show ?thesis unfolding udp_connect_def r connect_loop.simps
    by (simp add: udp_effect_defs sample_recv sample_fields ACTION_ERROR_def ACTION_CONNECT_def)
qed

lemma sample_announce:
  "do_announce sample_udp_world sample_request (of_be64 1 2, 0) (4, lg) =
     (Inr sample_response, (9, lg @ [Sent (build_announce_packet (of_be64 1 2) 7 7 sample_request), Got sample_reply]))"
proof -
  have r: "MAX_RETRIES = Suc 3" by (simp add: MAX_RETRIES_def)
  have "uw_rand sample_udp_world n = 7" "uw_send_ok sample_udp_world n" "uw_clock sample_udp_world n = 0" for n
    by (simp_all add: sample_udp_world_def)
  moreover have "refresh_connection sample_udp_world (of_be64 1 2, 0) (4, lg) = (Inr (of_be64 1 2, 0), (5, lg))"
    by (simp add: refresh_connection_def udp_effect_defs sample_udp_world_def duration_since_def CONNECTION_ID_MAX_AGE_def)
  ultimately show ?thesis unfolding do_announce_def r announce_loop.simps
    using sample_reply_parsed [folded sample_reply_def]
    by (simp add: udp_effect_defs sample_recv sample_fields ACTION_ERROR_def ACTION_ANNOUNCE_def)
qed

lemma sample_udp_run:
  "\<exists>lg. udp_announce (\<lambda>_. Some [SocketAddr (V4 8 8 8 8) 1337]) (\<lambda>_ _. True) (\<lambda>_. sample_udp_world) (ascii ''udp://t:1337/announce'')
     sample_request None (0, []) = (Inr sample_response, (9, lg))"
proof -
  have "pick_udp_addr [SocketAddr (V4 8 8 8 8) 1337] = Inr (SocketAddr (V4 8 8 8 8) 1337)" by code_simp
  moreover have "strip_prefix (ascii ''udp://'') (ascii ''udp://t:1337/announce'') = Some (ascii ''t:1337/announce'')"
    by (simp add: strip_prefix_Some ascii_def)
  ultimately show ?thesis
    by (simp add: udp_announce_def io_bind_def io_lift_def sample_connect sample_announce)
qed

text \<open>
  C32: A UDP announce that succeeds ends with an announce of this request and a datagram that answers it: it carries its
  transaction id and its announce action, and its contents are the response returned. The announce was sent under a connection id
  that an answered connect request granted before. The address is one the resolver gave and that passes the
  screen, and at most 24 datagrams are sent.
\<close>

theorem udp_announce_answered:
  assumes "udp_announce lookup bind_ok world url req bind_iface (0, []) = (Inr resp, (n, lg))"
  shows "answered req resp lg \<and> sends lg \<le> 24 \<and>
    (\<exists>host addrs addr. url = ascii ''udp://'' @ host \<and> lookup (up_to {47} host) = Some addrs \<and> addr \<in> set addrs \<and>
       is_dialable_resolved_ip (sa_ip addr) False \<and> bind_ok addr bind_iface)"
proof -
  obtain host addrs addr conn n1 lg1 where h: "strip_prefix (ascii ''udp://'') url = Some host" "lookup (up_to {47} host) = Some addrs"
      "pick_udp_addr addrs = Inr addr" "bind_ok addr bind_iface"
    and c: "udp_connect (world addr) (0, []) = (Inr conn, (n1, lg1))"
    and a: "do_announce (world addr) req conn (n1, lg1) = (Inr resp, (n, lg))"
    using assms by (auto simp: udp_announce_def io_simps split: if_splits)
  have "grants lg1 (fst conn)" using c connect_loop_grants unfolding udp_connect_def by (metis prod.collapse)
  then have "answered req resp lg" using a announce_loop_answered unfolding do_announce_def by blast
  moreover have "sends lg \<le> 24"
    using udp_announce_sends [of lookup bind_ok world url req bind_iface] assms unfolding adds_def
    by (metis append_Nil prod.inject snd_conv)
  ultimately show ?thesis using h pick_udp_addr_Inr [OF h(3)] by (auto simp: strip_prefix_Some)
qed

theorem udp_announce_answered_witness:
  "\<exists>lg. answered sample_request sample_response lg \<and> sends lg \<le> 24"
proof -
  obtain lg where "udp_announce (\<lambda>_. Some [SocketAddr (V4 8 8 8 8) 1337]) (\<lambda>_ _. True) (\<lambda>_. sample_udp_world)
      (ascii ''udp://t:1337/announce'') sample_request None (0, []) = (Inr sample_response, (9, lg))"
    using sample_udp_run by blast
  from udp_announce_answered [OF this] show ?thesis by blast
qed

end
