(* ===== verification/RT_Socks5.thy ===== *)
theory RT_Socks5
  imports RT_Metadata RT_Tracker
begin

text \<open>
  The SOCKS5 client (\<open>src/src/socks5.rs\<close>): proxy configurations, one handshake over a stream, and the nested
  handshakes of a chain of proxies. Opening a TCP connection, possibly bound to an interface, is a parameter.
\<close>

section \<open>Configurations\<close>

record credentials =
  cr_username :: bytes
  cr_password :: bytes

record proxy_config =
  px_addr :: socket_addr
  px_credentials :: "credentials option"
  px_isolation :: bool

text \<open>The eight random bytes of the fresh user name are the argument \<open>nonce\<close>.\<close>

definition for_dial :: "bytes \<Rightarrow> proxy_config \<Rightarrow> proxy_config" where
  "for_dial nonce p =
     (if \<not> px_isolation p then p
      else \<lparr>px_addr = px_addr p, px_credentials = Some \<lparr>cr_username = hex nonce, cr_password = ascii ''x''\<rparr>, px_isolation = False\<rparr>)"

definition urlencode :: "bytes \<Rightarrow> bytes" where
  "urlencode s = concat (map (\<lambda>b.
     if is_ascii_alphanumeric b \<or> b \<in> {45, 95, 46, 126} then [b]
     else [37, hex_upper (unat b div 16), hex_upper (unat b mod 16)]) s)"

text \<open>\<open>show_addr\<close> is the \<open>Display\<close> form of a socket address.\<close>

definition as_socks5h_url :: "(socket_addr \<Rightarrow> bytes) \<Rightarrow> proxy_config \<Rightarrow> bytes" where
  "as_socks5h_url show_addr p =
     (case px_credentials p of
        Some creds \<Rightarrow> ascii ''socks5h://'' @ urlencode (cr_username creds) @ [58] @ urlencode (cr_password creds) @ [64] @ show_addr (px_addr p)
      | None \<Rightarrow> ascii ''socks5h://'' @ show_addr (px_addr p))"

section \<open>The handshake\<close>

datatype socks_error = SIo | SProtocol string | AuthFailed | Refused u8 string | STimeout

type_synonym 'a socks = "(stream, socks_error, 'a) estep"

definition VER_SOCKS5 :: u8 where "VER_SOCKS5 = 5"
definition VER_USERPASS :: u8 where "VER_USERPASS = 1"
definition METHOD_NO_AUTH :: u8 where "METHOD_NO_AUTH = 0"
definition METHOD_USERPASS :: u8 where "METHOD_USERPASS = 2"
definition METHOD_NONE_ACCEPTABLE :: u8 where "METHOD_NONE_ACCEPTABLE = 255"
definition CMD_CONNECT :: u8 where "CMD_CONNECT = 1"
definition ATYP_IPV4 :: u8 where "ATYP_IPV4 = 1"
definition ATYP_DOMAIN :: u8 where "ATYP_DOMAIN = 3"
definition ATYP_IPV6 :: u8 where "ATYP_IPV6 = 4"
definition REP_SUCCEEDED :: u8 where "REP_SUCCEEDED = 0"

lemmas socks_consts = VER_SOCKS5_def VER_USERPASS_def METHOD_NO_AUTH_def METHOD_USERPASS_def METHOD_NONE_ACCEPTABLE_def
  CMD_CONNECT_def ATYP_IPV4_def ATYP_DOMAIN_def ATYP_IPV6_def REP_SUCCEEDED_def

definition rep_meaning :: "u8 \<Rightarrow> string" where
  "rep_meaning rep =
     (if rep = 1 then ''general SOCKS server failure''
      else if rep = 2 then ''connection not allowed by ruleset''
      else if rep = 3 then ''network unreachable''
      else if rep = 4 then ''host unreachable''
      else if rep = 5 then ''connection refused by destination''
      else if rep = 6 then ''TTL expired''
      else if rep = 7 then ''command not supported''
      else if rep = 8 then ''address type not supported''
      else ''unknown REP'')"

definition build_connect_request :: "socket_addr \<Rightarrow> bytes" where
  "build_connect_request target =
     [VER_SOCKS5, CMD_CONNECT, 0] @
     (case sa_ip target of V4 _ _ _ _ \<Rightarrow> ATYP_IPV4 # ip_octets (sa_ip target) | V6 _ \<Rightarrow> ATYP_IPV6 # ip_octets (sa_ip target)) @
     be16 (sa_port target)"

definition userpass_request :: "credentials \<Rightarrow> bytes" where
  "userpass_request creds =
     [VER_USERPASS, of_nat (length (cr_username creds))] @ cr_username creds @
     [of_nat (length (cr_password creds))] @ cr_password creds"

definition do_userpass_auth :: "credentials \<Rightarrow> unit socks" where
  "do_userpass_auth creds =
     (if length (cr_username creds) > 255 \<or> length (cr_password creds) > 255 then
        io_fail (SProtocol ''username/password must each be <=255 bytes'')
      else
        io_bind (write_all SIo (userpass_request creds)) (\<lambda>_.
        io_bind (read_exact SIo 2) (\<lambda>reply.
        if reply ! 0 \<noteq> VER_USERPASS then io_fail (SProtocol ''auth reply ver = 0x'')
        else if reply ! 1 \<noteq> 0 then io_fail AuthFailed
        else io_return ())))"

definition drain_bind_addr_port :: "u8 \<Rightarrow> unit socks" where
  "drain_bind_addr_port atyp =
     io_bind
       (if atyp = ATYP_IPV4 then io_return (4 + 2)
        else if atyp = ATYP_IPV6 then io_return (16 + 2)
        else if atyp = ATYP_DOMAIN then io_bind (read_exact SIo 1) (\<lambda>len_buf. io_return (unat (len_buf ! 0) + 2))
        else io_fail (SProtocol ''unsupported ATYP 0x''))
       (\<lambda>bind_len. io_bind (read_exact SIo bind_len) (\<lambda>_. io_return ()))"

definition greeting :: "proxy_config \<Rightarrow> bytes" where
  "greeting proxy =
     (let methods = (if px_credentials proxy \<noteq> None then [METHOD_USERPASS] else [METHOD_NO_AUTH])
      in [VER_SOCKS5, of_nat (length methods)] @ methods)"

definition do_handshake_on_stream :: "proxy_config \<Rightarrow> socket_addr \<Rightarrow> unit socks" where
  "do_handshake_on_stream proxy target =
     io_bind (write_all SIo (greeting proxy)) (\<lambda>_.
     io_bind (read_exact SIo 2) (\<lambda>method_reply.
     if method_reply ! 0 \<noteq> VER_SOCKS5 then io_fail (SProtocol ''method reply ver = 0x'')
     else io_bind
       (if method_reply ! 1 = METHOD_NO_AUTH then io_return ()
        else if method_reply ! 1 = METHOD_USERPASS then
          (case px_credentials proxy of
             Some creds \<Rightarrow> do_userpass_auth creds
           | None \<Rightarrow> io_fail (SProtocol ''proxy demanded USER/PASS but none provided''))
        else if method_reply ! 1 = METHOD_NONE_ACCEPTABLE then io_fail AuthFailed
        else io_fail (SProtocol ''proxy chose unsupported method 0x'')) (\<lambda>_.
     io_bind (write_all SIo (build_connect_request target)) (\<lambda>_.
     io_bind (read_exact SIo 4) (\<lambda>head.
     if head ! 0 \<noteq> VER_SOCKS5 then io_fail (SProtocol ''connect reply ver = 0x'')
     else if head ! 1 \<noteq> REP_SUCCEEDED then io_fail (Refused (head ! 1) (rep_meaning (head ! 1)))
     else drain_bind_addr_port (head ! 3))))))"

fun hops_loop :: "proxy_config list \<Rightarrow> socket_addr \<Rightarrow> unit socks" where
  "hops_loop [] target = io_return ()"
| "hops_loop (hop # hops) target =
     io_bind (do_handshake_on_stream hop (case hops of next # _ \<Rightarrow> px_addr next | [] \<Rightarrow> target)) (\<lambda>_. hops_loop hops target)"

text \<open>\<open>tcp\<close> opens a TCP connection to an address, bound to the interface if one is given.\<close>

definition do_connect_chain ::
  "(socket_addr \<Rightarrow> bytes option \<Rightarrow> stream option) \<Rightarrow> proxy_config list \<Rightarrow> socket_addr \<Rightarrow> bytes option \<Rightarrow> socks_error + stream" where
  "do_connect_chain tcp chain target bind_iface =
     (case tcp (px_addr (hd chain)) bind_iface of
        None \<Rightarrow> Inl SIo
      | Some s \<Rightarrow> (case hops_loop chain target s of (Inl e, _) \<Rightarrow> Inl e | (Inr _, s) \<Rightarrow> Inr s))"

text \<open>\<open>late\<close> says whether the handshakes exceed the time budget.\<close>

definition connect_chain ::
  "bool \<Rightarrow> (socket_addr \<Rightarrow> bytes option \<Rightarrow> stream option) \<Rightarrow> proxy_config list \<Rightarrow> socket_addr \<Rightarrow> bytes option \<Rightarrow> socks_error + stream" where
  "connect_chain late tcp chain target bind_iface =
     (if chain = [] then Inl (SProtocol ''connect_chain called with empty chain'')
      else if late then Inl STimeout
      else do_connect_chain tcp chain target bind_iface)"

definition socks_connect ::
  "bool \<Rightarrow> (socket_addr \<Rightarrow> bytes option \<Rightarrow> stream option) \<Rightarrow> proxy_config \<Rightarrow> socket_addr \<Rightarrow> socks_error + stream" where
  "socks_connect late tcp proxy target = connect_chain late tcp [proxy] target None"

text \<open>
  The connections of a dial of the metadata fetch: a proxied one goes through the chain, any other one is opened on its own.
\<close>

definition route_connect ::
  "bool \<Rightarrow> (socket_addr \<Rightarrow> bytes option \<Rightarrow> stream option) \<Rightarrow> proxy_config route \<Rightarrow> socket_addr \<Rightarrow> stream res" where
  "route_connect late tcp r addr =
     (case r of
        Through chain bind_iface \<Rightarrow> (case connect_chain late tcp chain addr bind_iface of Inl _ \<Rightarrow> Inl (Network ''socks5 dial '') | Inr s \<Rightarrow> Inr s)
      | Over iface \<Rightarrow> if late then Inl (Network ''connect '') else ok_or (tcp addr (Some iface)) (Network ''connect '')
      | Direct \<Rightarrow> if late then Inl (Network ''connect '') else ok_or (tcp addr None) (Network ''connect ''))"

text \<open>
  The environment of a fetch whose attempt number \<open>n\<close> dials with the connections \<open>tcp n\<close>, and whose hop number \<open>i\<close> draws the
  nonce \<open>nonces n i\<close>.
\<close>

definition socks_env ::
  "(nat \<Rightarrow> bool) \<Rightarrow> (nat \<Rightarrow> socket_addr \<Rightarrow> bytes option \<Rightarrow> stream option) \<Rightarrow> (nat \<Rightarrow> nat \<Rightarrow> bytes) \<Rightarrow>
     proxy_config fetch_env \<Rightarrow> proxy_config fetch_env" where
  "socks_env late tcp nonces env =
     env\<lparr>fe_for_dial := \<lambda>n i. for_dial (nonces n i), fe_connect := \<lambda>n. route_connect (late n) (tcp n)\<rparr>"

section \<open>The bytes of a successful handshake\<close>

text \<open>What a proxy sends (\<open>i\<close>) and receives (\<open>out\<close>) in the authentication step that its method calls for.\<close>

definition auth_bytes :: "proxy_config \<Rightarrow> u8 \<Rightarrow> bytes \<Rightarrow> bytes \<Rightarrow> bool" where
  "auth_bytes proxy method i out \<longleftrightarrow>
     (method = 0 \<and> i = [] \<and> out = []) \<or>
     (method = 2 \<and> (\<exists>creds. px_credentials proxy = Some creds \<and> length (cr_username creds) \<le> 255 \<and>
        length (cr_password creds) \<le> 255 \<and> i = [1, 0] \<and> out = userpass_request creds))"

definition bound_address :: "u8 \<Rightarrow> bytes \<Rightarrow> bool" where
  "bound_address atyp b \<longleftrightarrow>
     (atyp = 1 \<and> length b = 6) \<or> (atyp = 4 \<and> length b = 18) \<or> (atyp = 3 \<and> (\<exists>n name. b = n # name \<and> length name = unat n + 2))"

definition hop_bytes :: "proxy_config \<Rightarrow> socket_addr \<Rightarrow> bytes \<Rightarrow> bytes \<Rightarrow> bool" where
  "hop_bytes proxy target i out \<longleftrightarrow>
     (\<exists>method ai ao rsv atyp b. i = [5, method] @ ai @ [5, 0, rsv, atyp] @ b \<and> auth_bytes proxy method ai ao \<and>
        bound_address atyp b \<and> out = greeting proxy @ ao @ build_connect_request target)"

fun chain_bytes :: "proxy_config list \<Rightarrow> socket_addr \<Rightarrow> bytes \<Rightarrow> bytes \<Rightarrow> bool" where
  "chain_bytes [] target i out \<longleftrightarrow> i = [] \<and> out = []"
| "chain_bytes (hop # hops) target i out \<longleftrightarrow>
     (\<exists>i1 i2 o1 o2. i = i1 @ i2 \<and> out = o1 @ o2 \<and>
        hop_bytes hop (case hops of next # _ \<Rightarrow> px_addr next | [] \<Rightarrow> target) i1 o1 \<and> chain_bytes hops target i2 o2)"

text \<open>A step that succeeds exactly on the inputs \<open>i\<close> with output \<open>out\<close> that \<open>R\<close> relates.\<close>

definition exchanges :: "(bytes \<Rightarrow> bytes \<Rightarrow> bool) \<Rightarrow> unit socks \<Rightarrow> bool" where
  "exchanges R m \<longleftrightarrow>
     (\<forall>s s'. s_writable s \<longrightarrow> (m s = (Inr (), s') \<longleftrightarrow>
        (\<exists>i out r. R i out \<and> s_in s = i @ r \<and> s' = s\<lparr>s_in := r, s_out := s_out s @ out\<rparr>)))"

lemma exchangesD:
  "exchanges R m \<Longrightarrow> s_writable s \<Longrightarrow> m s = (Inr (), s') \<Longrightarrow>
     \<exists>i out r. R i out \<and> s_in s = i @ r \<and> s' = s\<lparr>s_in := r, s_out := s_out s @ out\<rparr>"
  by (auto simp: exchanges_def)

lemma exchangesI:
  "exchanges R m \<Longrightarrow> s_writable s \<Longrightarrow> R i out \<Longrightarrow> s_in s = i @ r \<Longrightarrow> m s = (Inr (), s\<lparr>s_in := r, s_out := s_out s @ out\<rparr>)"
  by (auto simp: exchanges_def)

lemma exchanges_read:
  assumes "\<And>x. length x = n \<Longrightarrow> exchanges (R x) (f x)"
  shows "exchanges (\<lambda>i out. \<exists>x j. length x = n \<and> i = x @ j \<and> R x j out) (io_bind (read_exact SIo n) f)"
  unfolding exchanges_def
proof (intro allI impI iffI)
  fix s s' :: stream
  assume w: "s_writable s"
  {
    assume "io_bind (read_exact SIo n) f s = (Inr (), s')"
    then obtain x r where x: "s_in s = x @ r" "length x = n" "f x (s\<lparr>s_in := r\<rparr>) = (Inr (), s')" by (auto simp: io_simps)
    from exchangesD [OF assms [OF x(2)] _ x(3)] w obtain j out q where "R x j out" "r = j @ q" "s' = s\<lparr>s_in := q, s_out := s_out s @ out\<rparr>"
      by auto
    then show "\<exists>i out r. (\<exists>x j. length x = n \<and> i = x @ j \<and> R x j out) \<and> s_in s = i @ r \<and> s' = s\<lparr>s_in := r, s_out := s_out s @ out\<rparr>"
      using x by (intro exI [of _ "x @ j"] exI [of _ out] exI [of _ q]) auto
  }
  assume "\<exists>i out r. (\<exists>x j. length x = n \<and> i = x @ j \<and> R x j out) \<and> s_in s = i @ r \<and> s' = s\<lparr>s_in := r, s_out := s_out s @ out\<rparr>"
  then obtain x j out r where x: "length x = n" "R x j out" "s_in s = x @ j @ r" "s' = s\<lparr>s_in := r, s_out := s_out s @ out\<rparr>" by auto
  have "read_exact SIo n s = (Inr x, s\<lparr>s_in := j @ r\<rparr>)" using x by (intro read_exact_append) auto
  then show "io_bind (read_exact SIo n) f s = (Inr (), s')"
    using exchangesI [OF assms [OF x(1)], of "s\<lparr>s_in := j @ r\<rparr>" j out r] w x by (simp add: io_bind_def)
qed

lemma exchanges_write:
  assumes "exchanges R m"
  shows "exchanges (\<lambda>i out. \<exists>o'. out = bs @ o' \<and> R i o') (io_bind (write_all SIo bs) (\<lambda>_. m))"
  unfolding exchanges_def
proof (intro allI impI)
  fix s s' :: stream
  assume w: "s_writable s"
  let ?t = "s\<lparr>s_out := s_out s @ bs\<rparr>"
  have "io_bind (write_all SIo bs) (\<lambda>_. m) s = m ?t" using w by (simp add: io_bind_def write_all_def)
  moreover have "m ?t = (Inr (), s') \<longleftrightarrow> (\<exists>i out r. R i out \<and> s_in ?t = i @ r \<and> s' = ?t\<lparr>s_in := r, s_out := s_out ?t @ out\<rparr>)"
    using assms w by (simp add: exchanges_def)
  ultimately show "io_bind (write_all SIo bs) (\<lambda>_. m) s = (Inr (), s') \<longleftrightarrow>
      (\<exists>i out r. (\<exists>o'. out = bs @ o' \<and> R i o') \<and> s_in s = i @ r \<and> s' = s\<lparr>s_in := r, s_out := s_out s @ out\<rparr>)"
    by fastforce
qed

lemma exchanges_bind:
  assumes m: "exchanges R m" and f: "exchanges S m'"
  shows "exchanges (\<lambda>i out. \<exists>i1 i2 o1 o2. i = i1 @ i2 \<and> out = o1 @ o2 \<and> R i1 o1 \<and> S i2 o2) (io_bind m (\<lambda>_. m'))"
  unfolding exchanges_def
proof (intro allI impI iffI)
  fix s s' :: stream
  assume w: "s_writable s"
  {
    assume "io_bind m (\<lambda>_. m') s = (Inr (), s')"
    then obtain s1 where s1: "m s = (Inr (), s1)" "m' s1 = (Inr (), s')" by (auto simp: io_simps)
    obtain i1 o1 r1 where 1: "R i1 o1" "s_in s = i1 @ r1" "s1 = s\<lparr>s_in := r1, s_out := s_out s @ o1\<rparr>"
      using exchangesD [OF m w s1(1)] by blast
    then obtain i2 o2 r2 where 2: "S i2 o2" "r1 = i2 @ r2" "s' = s\<lparr>s_in := r2, s_out := s_out s @ o1 @ o2\<rparr>"
      using exchangesD [OF f _ s1(2)] w by auto
    then show "\<exists>i out r. (\<exists>i1 i2 o1 o2. i = i1 @ i2 \<and> out = o1 @ o2 \<and> R i1 o1 \<and> S i2 o2) \<and>
        s_in s = i @ r \<and> s' = s\<lparr>s_in := r, s_out := s_out s @ out\<rparr>"
      using 1 by (intro exI [of _ "i1 @ i2"] exI [of _ "o1 @ o2"] exI [of _ r2]) auto
  }
  assume "\<exists>i out r. (\<exists>i1 i2 o1 o2. i = i1 @ i2 \<and> out = o1 @ o2 \<and> R i1 o1 \<and> S i2 o2) \<and>
      s_in s = i @ r \<and> s' = s\<lparr>s_in := r, s_out := s_out s @ out\<rparr>"
  then obtain i1 i2 o1 o2 r where a: "R i1 o1" "S i2 o2" "s_in s = i1 @ i2 @ r" "s' = s\<lparr>s_in := r, s_out := s_out s @ o1 @ o2\<rparr>" by auto
  show "io_bind m (\<lambda>_. m') s = (Inr (), s')"
    using exchangesI [OF m w a(1), of "i2 @ r"] exchangesI [OF f _ a(2), of "s\<lparr>s_in := i2 @ r, s_out := s_out s @ o1\<rparr>" r] w a
    by (simp add: io_bind_def)
qed

lemma exchanges_return: "exchanges (\<lambda>i out. i = [] \<and> out = []) (io_return ())"
  by (auto simp: exchanges_def io_simps)

lemma exchanges_fail: "exchanges (\<lambda>i out. False) (io_fail e)"
  by (auto simp: exchanges_def io_simps)

lemma exchanges_cong: "exchanges R m \<Longrightarrow> (\<And>i out. R i out \<longleftrightarrow> S i out) \<Longrightarrow> exchanges S m"
  by (simp add: exchanges_def)

lemma exchanges_guard: "exchanges R m \<Longrightarrow> exchanges (\<lambda>i out. P \<and> R i out) (if \<not> P then io_fail e else m)"
  by (auto intro: exchanges_cong [OF exchanges_fail])

lemma list_of_length:
  "length x = 1 \<longleftrightarrow> (\<exists>a. x = [a])" "length x = 2 \<longleftrightarrow> (\<exists>a b. x = [a, b])" "length x = 4 \<longleftrightarrow> (\<exists>a b c d. x = [a, b, c, d])"
  by (auto simp: length_Suc_conv numeral_eq_Suc)

lemma exchanges_skip: "exchanges (\<lambda>i out. length i = n \<and> out = []) (io_bind (read_exact SIo n) (\<lambda>_. io_return ()))"
  by (rule exchanges_cong [OF exchanges_read [where R = "\<lambda>_ i out. i = [] \<and> out = []"]]) (auto intro: exchanges_return)

lemma exchanges_drain: "exchanges (\<lambda>i out. bound_address atyp i \<and> out = []) (drain_bind_addr_port atyp)"
proof -
  have ret: "io_bind (io_return n) f = f n" for n and f :: "nat \<Rightarrow> unit socks" by (simp add: fun_eq_iff io_bind_def io_return_def)
  have fl: "io_bind (io_fail e) f = io_fail e" for e and f :: "nat \<Rightarrow> unit socks" by (simp add: fun_eq_iff io_bind_def io_fail_def)
  have assoc: "io_bind (io_bind (read_exact SIo 1) (\<lambda>b. io_return (h b))) f = io_bind (read_exact SIo 1) (\<lambda>b. f (h b))"
    for h and f :: "nat \<Rightarrow> unit socks"
    by (auto simp: fun_eq_iff io_bind_def io_return_def read_exact_def)
  have nm: "exchanges (\<lambda>i out. \<exists>x j. length x = 1 \<and> i = x @ j \<and> length j = unat (x ! 0) + 2 \<and> out = [])
      (io_bind (read_exact SIo 1) (\<lambda>b. io_bind (read_exact SIo (unat (b ! 0) + 2)) (\<lambda>_. io_return ())))"
    by (rule exchanges_cong [OF exchanges_read [where R = "\<lambda>x i out. length i = unat (x ! 0) + 2 \<and> out = []"]])
      (auto intro: exchanges_skip [simplified])
  consider "atyp = 1" | "atyp = 4" | "atyp = 3" | "atyp \<notin> {1, 3, 4}" by blast
  then show ?thesis
  proof cases
    case 3
    then have "drain_bind_addr_port atyp = io_bind (io_bind (read_exact SIo 1) (\<lambda>b. io_return (unat (b ! 0) + 2)))
        (\<lambda>n. io_bind (read_exact SIo n) (\<lambda>_. io_return ()))"
      by (simp add: drain_bind_addr_port_def socks_consts)
    then have "exchanges (\<lambda>i out. \<exists>x j. length x = 1 \<and> i = x @ j \<and> length j = unat (x ! 0) + 2 \<and> out = []) (drain_bind_addr_port atyp)"
      using nm by (simp only: assoc)
    then show ?thesis
      by (rule exchanges_cong) (use 3 in \<open>auto simp: bound_address_def list_of_length(1) [simplified]\<close>)
  qed (auto simp: drain_bind_addr_port_def socks_consts ret fl bound_address_def
      intro: exchanges_cong [OF exchanges_skip] exchanges_cong [OF exchanges_fail])
qed

lemma exchanges_userpass:
  "exchanges (\<lambda>i out. length (cr_username creds) \<le> 255 \<and> length (cr_password creds) \<le> 255 \<and> i = [1, 0] \<and> out = userpass_request creds)
     (do_userpass_auth creds)"
proof (cases "length (cr_username creds) > 255 \<or> length (cr_password creds) > 255")
  case True
  then show ?thesis by (auto simp: do_userpass_auth_def intro: exchanges_cong [OF exchanges_fail])
next
  case False
  have "exchanges (\<lambda>i out. reply ! 0 = 1 \<and> reply ! 1 = 0 \<and> i = [] \<and> out = [])
      (if reply ! 0 \<noteq> VER_USERPASS then io_fail (SProtocol ''auth reply ver = 0x'')
       else if reply ! 1 \<noteq> 0 then io_fail AuthFailed else io_return ())" for reply
    by (auto simp: socks_consts intro: exchanges_cong [OF exchanges_fail] exchanges_cong [OF exchanges_return])
  from exchanges_write [OF exchanges_read [OF this]]
  have "exchanges (\<lambda>i out. \<exists>o'. out = userpass_request creds @ o' \<and>
      (\<exists>x j. length x = 2 \<and> i = x @ j \<and> x ! 0 = 1 \<and> x ! 1 = 0 \<and> j = [] \<and> o' = [])) (do_userpass_auth creds)"
    using False by (simp add: do_userpass_auth_def)
  then show ?thesis by (rule exchanges_cong) (use False in \<open>auto simp: list_of_length(2)\<close>)
qed

lemma hop_bytes_layout:
  "(\<exists>o'. out = greeting proxy @ o' \<and> (\<exists>x j. length x = 2 \<and> i = x @ j \<and> x ! 0 = 5 \<and>
      (\<exists>i1 i2 o1 o2. j = i1 @ i2 \<and> o' = o1 @ o2 \<and> auth_bytes proxy (x ! 1) i1 o1 \<and>
        (\<exists>o'. o2 = build_connect_request target @ o' \<and>
          (\<exists>x j. length x = 4 \<and> i2 = x @ j \<and> x ! 0 = 5 \<and> x ! 1 = 0 \<and> bound_address (x ! 3) j \<and> o' = []))))) \<longleftrightarrow>
   hop_bytes proxy target i out" (is "?L \<longleftrightarrow> _")
proof
  assume ?L
  then obtain x y ai ao b where x: "length x = 2" "x ! 0 = 5" and y: "length y = 4" "y ! 0 = 5" "y ! 1 = 0"
    and r: "i = x @ ai @ y @ b" "auth_bytes proxy (x ! 1) ai ao" "bound_address (y ! 3) b"
      "out = greeting proxy @ ao @ build_connect_request target"
    by (elim exE conjE) (simp only: append_assoc append_Nil2)
  obtain m where m: "x = [5, m]" using x list_of_length(2) [of x] by auto
  obtain rsv atyp where h: "y = [5, 0, rsv, atyp]" using y list_of_length(3) [of y] by auto
  show "hop_bytes proxy target i out" unfolding hop_bytes_def
    by (rule exI [of _ m], rule exI [of _ ai], rule exI [of _ ao], rule exI [of _ rsv], rule exI [of _ atyp],
        rule exI [of _ b]) (use m h r in simp)
next
  assume "hop_bytes proxy target i out"
  then obtain m ai ao rsv atyp b where r: "i = [5, m] @ ai @ [5, 0, rsv, atyp] @ b" "auth_bytes proxy m ai ao"
      "bound_address atyp b" "out = greeting proxy @ ao @ build_connect_request target"
    unfolding hop_bytes_def by blast
  let ?h = "[5, 0, rsv, atyp]"
  have reply: "\<exists>x j. length x = 4 \<and> ?h @ b = x @ j \<and> x ! 0 = 5 \<and> x ! 1 = 0 \<and> bound_address (x ! 3) j \<and> ([] :: bytes) = []"
    by (rule exI [of _ ?h], rule exI [of _ b]) (simp add: r)
  have hop: "\<exists>i1 i2 o1 o2. ai @ ?h @ b = i1 @ i2 \<and> ao @ build_connect_request target = o1 @ o2 \<and> auth_bytes proxy ([5, m] ! 1) i1 o1 \<and>
        (\<exists>o'. o2 = build_connect_request target @ o' \<and>
          (\<exists>x j. length x = 4 \<and> i2 = x @ j \<and> x ! 0 = 5 \<and> x ! 1 = 0 \<and> bound_address (x ! 3) j \<and> o' = []))"
    by (rule exI [of _ ai], rule exI [of _ "?h @ b"], rule exI [of _ ao], rule exI [of _ "build_connect_request target"])
      (use r(2) reply in simp)
  show ?L
    by (rule exI [of _ "ao @ build_connect_request target"], rule conjI [OF r(4)], rule exI [of _ "[5, m]"],
        rule exI [of _ "ai @ ?h @ b"]) (use r(1) hop in simp)
qed

lemma exchanges_hop: "exchanges (hop_bytes proxy target) (do_handshake_on_stream proxy target)"
proof -
  let ?fin = "\<lambda>head. if head ! 0 \<noteq> VER_SOCKS5 then io_fail (SProtocol ''connect reply ver = 0x'')
     else if head ! 1 \<noteq> REP_SUCCEEDED then io_fail (Refused (head ! 1) (rep_meaning (head ! 1)))
     else drain_bind_addr_port (head ! 3)"
  let ?auth = "\<lambda>m. if m = METHOD_NO_AUTH then io_return ()
        else if m = METHOD_USERPASS then
          (case px_credentials proxy of
             Some creds \<Rightarrow> do_userpass_auth creds
           | None \<Rightarrow> io_fail (SProtocol ''proxy demanded USER/PASS but none provided''))
        else if m = METHOD_NONE_ACCEPTABLE then io_fail AuthFailed
        else io_fail (SProtocol ''proxy chose unsupported method 0x'')"
  have fin: "exchanges (\<lambda>i out. head ! 0 = 5 \<and> head ! 1 = 0 \<and> bound_address (head ! 3) i \<and> out = []) (?fin head)" for head :: bytes
    by (auto simp: socks_consts intro: exchanges_cong [OF exchanges_fail] exchanges_cong [OF exchanges_drain])
  have auth: "exchanges (auth_bytes proxy m) (?auth m)" for m
    by (auto simp: socks_consts auth_bytes_def split: option.splits
        intro: exchanges_cong [OF exchanges_fail] exchanges_cong [OF exchanges_return] exchanges_cong [OF exchanges_userpass])
  note rest = exchanges_bind [OF auth exchanges_write [OF exchanges_read [OF fin]]]
  have "exchanges (\<lambda>i out. reply ! 0 = 5 \<and> (\<exists>i1 i2 o1 o2. i = i1 @ i2 \<and> out = o1 @ o2 \<and> auth_bytes proxy (reply ! 1) i1 o1 \<and>
        (\<exists>o'. o2 = build_connect_request target @ o' \<and>
          (\<exists>x j. length x = 4 \<and> i2 = x @ j \<and> x ! 0 = 5 \<and> x ! 1 = 0 \<and> bound_address (x ! 3) j \<and> o' = []))))
      (if reply ! 0 \<noteq> VER_SOCKS5 then io_fail (SProtocol ''method reply ver = 0x'')
       else io_bind (?auth (reply ! 1)) (\<lambda>_. io_bind (write_all SIo (build_connect_request target)) (\<lambda>_. io_bind (read_exact SIo 4) ?fin)))"
    for reply
    using exchanges_guard [OF rest, of "reply ! 0 = VER_SOCKS5"] by (simp only: VER_SOCKS5_def)
  from exchanges_write [OF exchanges_read [OF this, of 2], of "greeting proxy"]
  show ?thesis unfolding do_handshake_on_stream_def
    by (rule exchanges_cong) (rule hop_bytes_layout)
qed

lemma exchanges_hops: "exchanges (chain_bytes chain target) (hops_loop chain target)"
proof (induction chain)
  case Nil
  then show ?case by (auto intro: exchanges_cong [OF exchanges_return])
next
  case (Cons hop hops)
  from exchanges_bind [OF exchanges_hop Cons.IH] show ?case by (auto intro: exchanges_cong)
qed

lemma hops_loop_unwritable: "chain \<noteq> [] \<Longrightarrow> \<not> s_writable s \<Longrightarrow> hops_loop chain target s = (Inl SIo, s)"
  by (cases chain) (simp_all add: do_handshake_on_stream_def io_bind_def write_all_def)

section \<open>Correctness\<close>

text \<open>
  C36: A dial through a chain of proxies succeeds exactly when there is at least one proxy, the time budget holds, the
  connection to the first proxy is open, and what it sends starts with the replies of one complete
  handshake per hop, in order. Then exactly the requests of these handshakes were sent, each hop being asked for
  the address of the next one and the last one for the target, and exactly the replies were consumed, so that the
  stream that is returned starts with the first byte of the target.
\<close>

theorem connect_chain_iff:
  "connect_chain late tcp chain target bind_iface = Inr s' \<longleftrightarrow>
     chain \<noteq> [] \<and> \<not> late \<and>
     (\<exists>s i out r. tcp (px_addr (hd chain)) bind_iface = Some s \<and> s_writable s \<and> chain_bytes chain target i out \<and>
        s_in s = i @ r \<and> s' = s\<lparr>s_in := r, s_out := s_out s @ out\<rparr>)"
proof (cases "chain \<noteq> [] \<and> \<not> late")
  case True
  show ?thesis
  proof (cases "tcp (px_addr (hd chain)) bind_iface")
    case None
    then show ?thesis by (simp add: connect_chain_def do_connect_chain_def)
  next
    case (Some s)
    have "connect_chain late tcp chain target bind_iface = Inr s' \<longleftrightarrow> hops_loop chain target s = (Inr (), s')"
      using True Some by (auto simp: connect_chain_def do_connect_chain_def split: prod.splits sum.splits)
    then show ?thesis using True Some exchanges_hops [of chain target, unfolded exchanges_def, rule_format, of s s']
      by (cases "s_writable s") (auto simp: hops_loop_unwritable)
  qed
qed (auto simp: connect_chain_def)

text \<open>
  With credentials configured, a proxy that answers with the method it was not offered, no authentication, is accepted:
  the handshake succeeds and the credentials are never sent.
\<close>

lemma unauthenticated_accepted:
  assumes "px_credentials proxy = Some creds" "bound_address atyp b" "s_writable s" "s_in s = [5, 0] @ [5, 0, rsv, atyp] @ b @ r"
  shows "do_handshake_on_stream proxy target s =
    (Inr (), s\<lparr>s_in := r, s_out := s_out s @ [5, 1, 2] @ build_connect_request target\<rparr>)"
proof -
  have "auth_bytes proxy 0 [] []" by (simp add: auth_bytes_def)
  then have "hop_bytes proxy target ([5, 0] @ [] @ [5, 0, rsv, atyp] @ b) (greeting proxy @ [] @ build_connect_request target)"
    using assms(2) unfolding hop_bytes_def by blast
  from exchangesI [OF exchanges_hop assms(3) this, of r] assms(1,4) show ?thesis
    by (simp add: greeting_def socks_consts)
qed

lemma px_addr_for_dial [simp]: "px_addr (for_dial nonce p) = px_addr p"
  by (simp add: for_dial_def)

lemma fetch_dial_first_hop:
  assumes "anonymous \<or> proxies \<noteq> []"
    and "proxies \<noteq> [] \<Longrightarrow> tcp (px_addr (hd proxies)) bind_iface = tcp' (px_addr (hd proxies)) bind_iface"
  shows "fetch_dial (route_connect late tcp) (\<lambda>i. for_dial (nonce i)) addr proxies anonymous bind_iface =
    fetch_dial (route_connect late tcp') (\<lambda>i. for_dial (nonce i)) addr proxies anonymous bind_iface"
  using assms by (cases proxies) (auto simp: fetch_dial_def route_connect_def connect_chain_def do_connect_chain_def)

text \<open>
  C35: When the client is anonymous or has proxies, what a metadata fetch does depends on the network only through the
  connection to the first proxy over the bound interface: no peer is dialled directly, no proxy but the first is, and no
  connection leaves the interface, whatever the peers answer, also when the fetch falls back to an
  encrypted attempt.
\<close>

theorem proxied_fetch_only_first_hop:
  assumes "anonymous \<or> proxies \<noteq> []"
    and "\<And>a n. proxies \<noteq> [] \<Longrightarrow> tcp a n (px_addr (hd proxies)) bind_iface = tcp' a n (px_addr (hd proxies)) bind_iface"
  shows "fetch_metadata (\<lambda>a. socks_env (late a) (tcp a) (nonces a) (env a)) finished info_hash peer_id peer_pool proxies anonymous bind_iface =
    fetch_metadata (\<lambda>a. socks_env (late a) (tcp' a) (nonces a) (env a)) finished info_hash peer_id peer_pool proxies anonymous bind_iface"
proof -
  let ?env = "\<lambda>a. socks_env (late a) (tcp' a) (nonces a) (env a)"
  have "fetch_metadata (\<lambda>a. (?env a)\<lparr>fe_connect := \<lambda>n. route_connect (late a n) (tcp a n)\<rparr>) finished info_hash peer_id peer_pool
      proxies anonymous bind_iface =
    fetch_metadata ?env finished info_hash peer_id peer_pool proxies anonymous bind_iface"
    by (rule fetch_same_dials) (simp add: socks_env_def fetch_dial_first_hop [OF assms(1), where tcp = "tcp a n" and tcp' = "tcp' a n" for a n] assms(2))
  then show ?thesis by (simp add: socks_env_def)
qed

definition sample_proxy :: proxy_config where
  "sample_proxy = \<lparr>px_addr = SocketAddr (V4 127 0 0 1) 9050, px_credentials = None, px_isolation = True\<rparr>"

text \<open>The proxy takes the isolating user name and connects; then the peer behind it speaks.\<close>

definition proxied_stream :: stream where
  "proxied_stream = sample_stream\<lparr>s_in := [5, 2, 1, 0, 5, 0, 0, 1, 0, 0, 0, 0, 0, 0] @ s_in sample_stream\<rparr>"

text \<open>Connections of which only the one to the proxy exists.\<close>

definition only_proxy :: "stream \<Rightarrow> socket_addr \<Rightarrow> bytes option \<Rightarrow> stream option" where
  "only_proxy s addr bind_iface = (if addr = px_addr sample_proxy \<and> bind_iface = None then Some s else None)"

theorem proxied_fetch_only_first_hop_witness:
  "fetch_metadata (\<lambda>_. socks_env (\<lambda>_. False) (\<lambda>_ _ _. Some proxied_stream) (\<lambda>_ _. [1]) sample_env) [sample_peer] (replicate 20 0) (replicate 20 1)
     [sample_peer] [sample_proxy] True None =
   fetch_metadata (\<lambda>_. socks_env (\<lambda>_. False) (\<lambda>_. only_proxy proxied_stream) (\<lambda>_ _. [1]) sample_env) [sample_peer] (replicate 20 0) (replicate 20 1)
     [sample_peer] [sample_proxy] True None"
  by (rule proxied_fetch_only_first_hop) (simp_all add: only_proxy_def)

end
